(* ===== verification/Prelude.thy ===== *)
theory Prelude
  imports Main "HOL-Library.Word"
begin

unbundle bit_operations_syntax

text \<open>
  Shared vocabulary of the kiwiOS development: the machine integer types of the C sources,
  byte buffers with bounds (\<open>slice\<close> reads a range, \<open>splice\<close> is a \<open>memcpy\<close> into a range), the
  little-endian fields that packed C structs have on disk, and the three single-bit operations
  that every bitmap of the kernel performs on a byte. Nothing here is specific to one component.
\<close>

section \<open>Types and collections\<close>

type_synonym u8 = "8 word"
type_synonym u16 = "16 word"
type_synonym u32 = "32 word"
type_synonym u64 = "64 word"
type_synonym bytes = "8 word list"

named_theorems buf_simps \<open>reading a byte buffer after writing a range of it\<close>
named_theorems bit_byte_simps \<open>single bits of one byte\<close>

section \<open>Ranges of a byte buffer\<close>

definition slice :: "nat \<Rightarrow> nat \<Rightarrow> 'a list \<Rightarrow> 'a list" where
  "slice off n xs = take n (drop off xs)"

definition splice :: "nat \<Rightarrow> 'a list \<Rightarrow> 'a list \<Rightarrow> 'a list" where
  "splice off bs xs = take off xs @ bs @ drop (off + length bs) xs"

lemma length_slice [simp]: "off + n \<le> length xs \<Longrightarrow> length (slice off n xs) = n"
  by (simp add: slice_def)

lemma length_splice [simp]: "off + length bs \<le> length xs \<Longrightarrow> length (splice off bs xs) = length xs"
  by (simp add: splice_def)

lemma nth_slice: "off + n \<le> length xs \<Longrightarrow> i < n \<Longrightarrow> slice off n xs ! i = xs ! (off + i)"
  by (simp add: slice_def)

lemma nth_splice:
  "off + length bs \<le> length xs \<Longrightarrow> i < length xs \<Longrightarrow>
   splice off bs xs ! i = (if off \<le> i \<and> i < off + length bs then bs ! (i - off) else xs ! i)"
  by (auto simp: splice_def nth_append min_def)

lemma slice_cong:
  assumes "off + n \<le> length xs" "off + n \<le> length ys"
    and "\<And>i. off \<le> i \<Longrightarrow> i < off + n \<Longrightarrow> xs ! i = ys ! i"
  shows "slice off n xs = slice off n ys"
  using assms by (intro nth_equalityI) (auto simp: nth_slice)

lemma slice_splice_same [buf_simps]:
  assumes "off + length bs \<le> length xs" "n = length bs"
  shows "slice off n (splice off bs xs) = bs"
  using assms by (intro nth_equalityI) (auto simp: nth_slice nth_splice)

lemma slice_splice_disjoint [buf_simps]:
  assumes "off + length bs \<le> length xs" "o' + n \<le> off \<or> off + length bs \<le> o'" "o' + n \<le> length xs"
  shows "slice o' n (splice off bs xs) = slice o' n xs"
  using assms by (intro slice_cong) (auto simp: nth_splice)

lemma slice_splice_inner [buf_simps]:
  assumes "off + length bs \<le> length xs" "off \<le> o'" "o' + n \<le> off + length bs"
  shows "slice o' n (splice off bs xs) = slice (o' - off) n bs"
  using assms by (intro nth_equalityI) (auto simp: nth_slice nth_splice)

lemma splice_splice_same:
  assumes "off + length bs \<le> length xs" "length cs = length bs"
  shows "splice off cs (splice off bs xs) = splice off cs xs"
  using assms by (intro nth_equalityI) (auto simp: nth_splice)

lemma splice_id:
  assumes "off + length bs \<le> length xs" "slice off (length bs) xs = bs"
  shows "splice off bs xs = xs"
proof (rule nth_equalityI)
  show "length (splice off bs xs) = length xs" using assms by simp
next
  fix i assume i: "i < length (splice off bs xs)"
  show "splice off bs xs ! i = xs ! i"
  proof (cases "off \<le> i \<and> i < off + length bs")
    case True
    then have "bs ! (i - off) = slice off (length bs) xs ! (i - off)" using assms(2) by simp
    also have "\<dots> = xs ! i" using assms(1) True by (subst nth_slice) auto
    finally show ?thesis using assms i True by (simp add: nth_splice)
  next
    case False
    then show ?thesis using assms i by (subst nth_splice) auto
  qed
qed

section \<open>Little-endian numbers\<close>

fun le_nat :: "bytes \<Rightarrow> nat" where
  "le_nat [] = 0"
| "le_nat (b # bs) = unat b + 256 * le_nat bs"

fun bytes_le :: "nat \<Rightarrow> nat \<Rightarrow> bytes" where
  "bytes_le 0 x = []"
| "bytes_le (Suc n) x = word_of_nat x # bytes_le n (x div 256)"

lemma length_bytes_le [simp]: "length (bytes_le n x) = n"
  by (induction n arbitrary: x) auto

lemma le_nat_less: "le_nat bs < 256 ^ length bs"
proof (induction bs)
  case (Cons b bs)
  have "unat b < 256" using unsigned_less [of b] by simp
  with Cons show ?case by simp
qed simp

lemma le_nat_bytes_le: "le_nat (bytes_le n x) = x mod 256 ^ n"
proof (induction n arbitrary: x)
  case (Suc n)
  have "unat (word_of_nat x :: u8) = x mod 256" by (simp add: unsigned_of_nat take_bit_eq_mod)
  moreover have "x mod 256 + 256 * (x div 256 mod 256 ^ n) = x mod (256 * 256 ^ n)"
    by (simp add: mod_mult2_eq)
  ultimately show ?case using Suc by simp
qed simp

lemma bytes_le_le_nat: "n = length bs \<Longrightarrow> bytes_le n (le_nat bs) = bs"
proof (induction bs arbitrary: n)
  case (Cons b bs)
  have b: "unat b < 256" using unsigned_less [of b] by simp
  have z: "(256 :: u8) = 0" by simp
  have "word_of_nat (unat b + 256 * le_nat bs) = b + 256 * word_of_nat (le_nat bs)" by simp
  also have "\<dots> = b" by (simp only: z mult_zero_left add_0_right)
  finally have "word_of_nat (unat b + 256 * le_nat bs) = b" .
  moreover have "(unat b + 256 * le_nat bs) div 256 = le_nat bs" using b by simp
  ultimately show ?case using Cons by simp
qed simp

definition get_u16 :: "bytes \<Rightarrow> nat \<Rightarrow> u16" where
  "get_u16 buf off = word_of_nat (le_nat (slice off 2 buf))"

definition get_u32 :: "bytes \<Rightarrow> nat \<Rightarrow> u32" where
  "get_u32 buf off = word_of_nat (le_nat (slice off 4 buf))"

definition get_u64 :: "bytes \<Rightarrow> nat \<Rightarrow> u64" where
  "get_u64 buf off = word_of_nat (le_nat (slice off 8 buf))"

definition put_u16 :: "bytes \<Rightarrow> nat \<Rightarrow> u16 \<Rightarrow> bytes" where
  "put_u16 buf off v = splice off (bytes_le 2 (unat v)) buf"

definition put_u32 :: "bytes \<Rightarrow> nat \<Rightarrow> u32 \<Rightarrow> bytes" where
  "put_u32 buf off v = splice off (bytes_le 4 (unat v)) buf"

definition put_u64 :: "bytes \<Rightarrow> nat \<Rightarrow> u64 \<Rightarrow> bytes" where
  "put_u64 buf off v = splice off (bytes_le 8 (unat v)) buf"

lemma length_put [simp]:
  "off + 2 \<le> length buf \<Longrightarrow> length (put_u16 buf off v) = length buf"
  "off + 4 \<le> length buf \<Longrightarrow> length (put_u32 buf off w) = length buf"
  "off + 8 \<le> length buf \<Longrightarrow> length (put_u64 buf off x) = length buf"
  by (simp_all add: put_u16_def put_u32_def put_u64_def)

lemma word_of_le_nat_bytes_le:
  "word_of_nat (le_nat (bytes_le 2 (unat v))) = (v :: u16)"
  "word_of_nat (le_nat (bytes_le 4 (unat w))) = (w :: u32)"
  "word_of_nat (le_nat (bytes_le 8 (unat x))) = (x :: u64)"
proof -
  have "unat v < 65536" "unat w < 4294967296" "unat x < 18446744073709551616"
    using unsigned_less [of v] unsigned_less [of w] unsigned_less [of x] by simp_all
  then show "word_of_nat (le_nat (bytes_le 2 (unat v))) = (v :: u16)"
    "word_of_nat (le_nat (bytes_le 4 (unat w))) = (w :: u32)"
    "word_of_nat (le_nat (bytes_le 8 (unat x))) = (x :: u64)"
    by (simp_all add: le_nat_bytes_le)
qed

lemma get_put_same [buf_simps]:
  "off + 2 \<le> length buf \<Longrightarrow> get_u16 (put_u16 buf off v) off = v"
  "off + 4 \<le> length buf \<Longrightarrow> get_u32 (put_u32 buf off w) off = w"
  "off + 8 \<le> length buf \<Longrightarrow> get_u64 (put_u64 buf off x) off = x"
  by (simp_all add: get_u16_def put_u16_def get_u32_def put_u32_def get_u64_def put_u64_def
      slice_splice_same word_of_le_nat_bytes_le)

text \<open>A field read at an offset is unchanged by a write to a disjoint range.\<close>

lemma get_splice_disjoint [buf_simps]:
  "off + length bs \<le> length buf \<Longrightarrow> o' + 2 \<le> off \<or> off + length bs \<le> o' \<Longrightarrow> o' + 2 \<le> length buf \<Longrightarrow>
     get_u16 (splice off bs buf) o' = get_u16 buf o'"
  "off + length bs \<le> length buf \<Longrightarrow> o' + 4 \<le> off \<or> off + length bs \<le> o' \<Longrightarrow> o' + 4 \<le> length buf \<Longrightarrow>
     get_u32 (splice off bs buf) o' = get_u32 buf o'"
  "off + length bs \<le> length buf \<Longrightarrow> o' + 8 \<le> off \<or> off + length bs \<le> o' \<Longrightarrow> o' + 8 \<le> length buf \<Longrightarrow>
     get_u64 (splice off bs buf) o' = get_u64 buf o'"
  by (simp_all add: get_u16_def get_u32_def get_u64_def slice_splice_disjoint)

section \<open>One byte of a bitmap\<close>

text \<open>The C expressions \<open>b & (1 << k)\<close>, \<open>b | (1 << k)\<close> and \<open>b & ~(1 << k)\<close> on an \<open>uint8_t\<close>.\<close>

definition byte_test :: "u8 \<Rightarrow> nat \<Rightarrow> bool" where
  "byte_test b k \<longleftrightarrow> b AND push_bit k 1 \<noteq> 0"

definition byte_set :: "u8 \<Rightarrow> nat \<Rightarrow> u8" where
  "byte_set b k = b OR push_bit k 1"

definition byte_clear :: "u8 \<Rightarrow> nat \<Rightarrow> u8" where
  "byte_clear b k = b AND NOT (push_bit k 1)"

lemma byte_test_bit: "k < 8 \<Longrightarrow> byte_test b k = bit b k"
proof -
  assume k: "k < 8"
  have "(b AND push_bit k 1 = 0) = (\<not> bit b k)"
  proof
    assume "b AND push_bit k 1 = 0"
    then have "\<not> bit (b AND push_bit k 1) k" by simp
    then show "\<not> bit b k" using k by (auto simp: bit_simps)
  next
    assume "\<not> bit b k"
    then show "b AND push_bit k 1 = 0" by (intro bit_word_eqI) (auto simp: bit_simps)
  qed
  then show ?thesis by (simp add: byte_test_def)
qed

lemma byte_test_set [bit_byte_simps]:
  "k < 8 \<Longrightarrow> l < 8 \<Longrightarrow> byte_test (byte_set b k) l = (l = k \<or> byte_test b l)"
  by (auto simp: byte_test_bit byte_set_def bit_simps)

lemma byte_test_clear [bit_byte_simps]:
  "k < 8 \<Longrightarrow> l < 8 \<Longrightarrow> byte_test (byte_clear b k) l = (l \<noteq> k \<and> byte_test b l)"
  by (auto simp: byte_test_bit byte_clear_def bit_simps)

lemma byte_test_full [bit_byte_simps]: "k < 8 \<Longrightarrow> byte_test 255 k"
proof -
  assume k: "k < 8"
  then have "bit (- 1 :: u8) k" by simp
  moreover have "(- 1 :: u8) = 255" by simp
  ultimately show ?thesis using k by (simp only: byte_test_bit)
qed

lemma byte_test_zero [bit_byte_simps]: "\<not> byte_test 0 k"
  by (simp add: byte_test_def)

end
