(* ===== verification/Bitmap.thy ===== *)
theory Bitmap
  imports Prelude
begin

text \<open>
  Bit arrays. The kernel keeps two kinds: the physical page bitmap of \<open>src/src/memory/pmm.c\<close> and
  the on-disk KiFS bitmaps of \<open>src/src/fs/kifs/kifs.c\<close>; both index a byte array with
  \<open>i / 8\<close> and \<open>i % 8\<close>. The locale \<open>bit_array\<close> is the contract their clients rely on, with the
  population count that both \<open>used_pages\<close> and the free-block arguments need; it is interpreted on
  the byte-array operations here, and the component theories reuse that interpretation.
\<close>

section \<open>The interface\<close>

locale bit_array =
  fixes test :: "'m \<Rightarrow> nat \<Rightarrow> bool"
    and set_bit_at :: "'m \<Rightarrow> nat \<Rightarrow> 'm"
    and clear_bit_at :: "'m \<Rightarrow> nat \<Rightarrow> 'm"
    and cap :: "'m \<Rightarrow> nat"
  assumes cap_set: "i < cap m \<Longrightarrow> cap (set_bit_at m i) = cap m"
    and cap_clear: "i < cap m \<Longrightarrow> cap (clear_bit_at m i) = cap m"
    and test_set: "i < cap m \<Longrightarrow> j < cap m \<Longrightarrow> test (set_bit_at m i) j = (j = i \<or> test m j)"
    and test_clear: "i < cap m \<Longrightarrow> j < cap m \<Longrightarrow> test (clear_bit_at m i) j = (j \<noteq> i \<and> test m j)"
begin

definition used :: "'m \<Rightarrow> nat \<Rightarrow> nat" where
  "used m n = card {i. i < n \<and> test m i}"

lemma used_le: "used m n \<le> n"
proof -
  have "card {i. i < n \<and> test m i} \<le> card {..<n}" by (rule card_mono) auto
  then show ?thesis by (simp add: used_def)
qed

lemma used_set:
  assumes "i < n" "n \<le> cap m" "\<not> test m i"
  shows "used (set_bit_at m i) n = Suc (used m n)"
proof -
  have "{j. j < n \<and> test (set_bit_at m i) j} = insert i {j. j < n \<and> test m j}"
    using assms by (auto simp: test_set)
  then show ?thesis using assms(3) by (simp add: used_def)
qed

lemma used_clear:
  assumes "i < n" "n \<le> cap m" "test m i"
  shows "Suc (used (clear_bit_at m i) n) = used m n"
proof -
  have "{j. j < n \<and> test m j} = insert i {j. j < n \<and> test (clear_bit_at m i) j}"
    using assms by (auto simp: test_clear)
  moreover have "i \<notin> {j. j < n \<and> test (clear_bit_at m i) j}" using assms by (auto simp: test_clear)
  ultimately show ?thesis by (simp add: used_def)
qed

lemma used_pos: "test m i \<Longrightarrow> i < n \<Longrightarrow> 0 < used m n"
  unfolding used_def by (subst card_gt_0_iff) auto

lemma used_full: "used m n = n \<longleftrightarrow> (\<forall>i<n. test m i)"
proof
  assume eq: "used m n = n"
  have "{i. i < n \<and> test m i} = {..<n}"
    by (rule card_subset_eq) (use eq in \<open>auto simp: used_def\<close>)
  then show "\<forall>i<n. test m i" by blast
next
  assume "\<forall>i<n. test m i"
  then have "{i. i < n \<and> test m i} = {..<n}" by blast
  then show "used m n = n" by (simp add: used_def)
qed

lemma used_cong: "(\<And>i. i < n \<Longrightarrow> test m i = test m' i) \<Longrightarrow> used m n = used m' n"
  unfolding used_def by (metis (no_types, lifting) Collect_cong)

text \<open>Setting a run of clear bits one after the other.\<close>

lemma cap_set_run:
  "a + n \<le> cap m \<Longrightarrow> cap (fold (\<lambda>j m. set_bit_at m (a + j)) [0..<n] m) = cap m"
  by (induction n) (auto simp: cap_set)

lemma test_set_run:
  "a + n \<le> cap m \<Longrightarrow> j < cap m \<Longrightarrow>
   test (fold (\<lambda>j m. set_bit_at m (a + j)) [0..<n] m) j = ((a \<le> j \<and> j < a + n) \<or> test m j)"
  by (induction n) (auto simp: test_set cap_set_run)

lemma used_set_run:
  assumes "a + n \<le> N" "N \<le> cap m" "\<And>j. a \<le> j \<Longrightarrow> j < a + n \<Longrightarrow> \<not> test m j"
  shows "used (fold (\<lambda>j m. set_bit_at m (a + j)) [0..<n] m) N = used m N + n"
  using assms
proof (induction n)
  case (Suc n)
  let ?m = "fold (\<lambda>j m. set_bit_at m (a + j)) [0..<n] m"
  have "cap ?m = cap m" using Suc.prems by (intro cap_set_run) auto
  moreover have "\<not> test ?m (a + n)" using Suc.prems by (subst test_set_run) auto
  ultimately have "used (set_bit_at ?m (a + n)) N = Suc (used ?m N)"
    using Suc.prems by (intro used_set) auto
  with Suc show ?case by auto
qed simp

end

section \<open>Byte arrays\<close>

definition bm_test :: "bytes \<Rightarrow> nat \<Rightarrow> bool" where
  "bm_test bm i = byte_test (bm ! (i div 8)) (i mod 8)"

definition bm_set :: "bytes \<Rightarrow> nat \<Rightarrow> bytes" where
  "bm_set bm i = bm[i div 8 := byte_set (bm ! (i div 8)) (i mod 8)]"

definition bm_clear :: "bytes \<Rightarrow> nat \<Rightarrow> bytes" where
  "bm_clear bm i = bm[i div 8 := byte_clear (bm ! (i div 8)) (i mod 8)]"

lemma length_bm [simp]: "length (bm_set bm i) = length bm" "length (bm_clear bm i) = length bm"
  by (simp_all add: bm_set_def bm_clear_def)

lemma same_bit_iff: "(j :: nat) div 8 = i div 8 \<Longrightarrow> (j mod 8 = i mod 8) = (j = i)"
  by (metis div_mult_mod_eq)

interpretation bm: bit_array bm_test bm_set bm_clear "\<lambda>bm. 8 * length bm"
proof unfold_locales
  fix i j :: nat and m :: bytes
  assume i: "i < 8 * length m" and j: "j < 8 * length m"
  then have b: "i div 8 < length m" "j div 8 < length m" by auto
  show "bm_test (bm_set m i) j = (j = i \<or> bm_test m j)"
    using b by (auto simp: bm_test_def bm_set_def nth_list_update bit_byte_simps same_bit_iff)
  show "bm_test (bm_clear m i) j = (j \<noteq> i \<and> bm_test m j)"
    using b by (auto simp: bm_test_def bm_clear_def nth_list_update bit_byte_simps same_bit_iff)
qed simp_all

lemma bm_test_replicate_full: "i < 8 * n \<Longrightarrow> bm_test (replicate n 255) i"
  by (auto simp: bm_test_def bit_byte_simps)

lemma bm_test_replicate_zero: "i < 8 * n \<Longrightarrow> \<not> bm_test (replicate n 0) i"
  by (auto simp: bm_test_def bit_byte_simps)

end
