(* ===== verification/Pmm.thy ===== *)
theory Pmm
  imports Bitmap
begin

text \<open>
  The physical page allocator, \<open>src/src/memory/pmm.c\<close>. The record \<open>pmm_state\<close> has the file's static
  variables; the operations are its functions, the loops being recursive functions with the loop
  variable as an argument. Page numbers and sizes are natural numbers: the invariant \<open>pmm_wf\<close>
  bounds every page number by \<open>total_pages\<close>, and \<open>total_pages * 4096\<close> by the 64-bit range, so no
  addition in the allocator wraps. A null pointer is the address 0. The memory map is the
  bootloader's, an argument of \<open>pmm_init\<close>.
  Proved: every operation keeps the invariant (the counter is the population count of the bitmap),
  an allocation takes free pages and nothing else, and what a failed allocation says about the
  free pages.
\<close>

section \<open>State and operations\<close>

abbreviation PAGE_SIZE :: nat where "PAGE_SIZE \<equiv> 4096"

definition LIMINE_MEMMAP_USABLE :: nat where "LIMINE_MEMMAP_USABLE = 0"

record memmap_entry =
  me_base :: nat
  me_length :: nat
  me_type :: nat

record pmm_state =
  bitmap :: bytes
  bitmap_size :: nat
  total_pages :: nat
  used_pages :: nat
  search_cursor :: nat
  highest_addr :: nat

definition bitmap_set :: "pmm_state \<Rightarrow> nat \<Rightarrow> pmm_state" where
  "bitmap_set p index = p\<lparr>bitmap := bm_set (bitmap p) index\<rparr>"

definition bitmap_clear :: "pmm_state \<Rightarrow> nat \<Rightarrow> pmm_state" where
  "bitmap_clear p index = p\<lparr>bitmap := bm_clear (bitmap p) index\<rparr>"

definition bitmap_test :: "pmm_state \<Rightarrow> nat \<Rightarrow> bool" where
  "bitmap_test p index = bm_test (bitmap p) index"

text \<open>The inner loop of \<open>allocate_run_from\<close>: how many free pages start at \<open>idx\<close>.\<close>

function run_length_from :: "pmm_state \<Rightarrow> nat \<Rightarrow> nat \<Rightarrow> nat \<Rightarrow> nat \<Rightarrow> nat" where
  "run_length_from p idx stop count run_length =
     (if idx + run_length < stop \<and> run_length < count \<and> \<not> bitmap_test p (idx + run_length)
      then run_length_from p idx stop count (run_length + 1) else run_length)"
  by pat_completeness auto
termination by (relation "measure (\<lambda>(p, idx, stop, count, r). count - r)") auto

declare run_length_from.simps [simp del]

function allocate_run_from :: "pmm_state \<Rightarrow> nat \<Rightarrow> nat \<Rightarrow> nat \<Rightarrow> nat \<times> pmm_state" where
  "allocate_run_from p idx stop count =
     (if idx + count \<le> stop then
        (let run_length = run_length_from p idx stop count 0 in
         if run_length = count then
           (idx * PAGE_SIZE,
            (fold (\<lambda>j q. bitmap_set q (idx + j)) [0..<count] p)
              \<lparr>used_pages := used_pages p + count, search_cursor := (idx + count) mod total_pages p\<rparr>)
         else allocate_run_from p (idx + run_length + 1) stop count)
      else (0, p))"
  by pat_completeness auto
termination by (relation "measure (\<lambda>(p, idx, stop, count). Suc stop - idx)") auto

declare allocate_run_from.simps [simp del]

text \<open>\<open>pmm_alloc\<close>: the next free page at or after the cursor, wrapping around once.\<close>

function pmm_alloc_scan :: "pmm_state \<Rightarrow> nat \<Rightarrow> nat \<times> pmm_state" where
  "pmm_alloc_scan p scanned =
     (if scanned < total_pages p then
        (let idx = (search_cursor p + scanned) mod total_pages p in
         if \<not> bitmap_test p idx then
           (idx * PAGE_SIZE,
            (bitmap_set p idx)\<lparr>used_pages := used_pages p + 1,
                               search_cursor := (idx + 1) mod total_pages p\<rparr>)
         else pmm_alloc_scan p (scanned + 1))
      else (0, p))"
  by pat_completeness auto
termination by (relation "measure (\<lambda>(p, scanned). total_pages p - scanned)") auto

declare pmm_alloc_scan.simps [simp del]

definition pmm_alloc :: "pmm_state \<Rightarrow> nat \<times> pmm_state" where
  "pmm_alloc p = (if total_pages p = 0 then (0, p) else pmm_alloc_scan p 0)"

definition pmm_alloc_below :: "nat \<Rightarrow> pmm_state \<Rightarrow> nat \<times> pmm_state" where
  "pmm_alloc_below limit_exclusive p =
     (if total_pages p = 0 \<or> limit_exclusive \<le> PAGE_SIZE then (0, p) else
      let end0 = limit_exclusive div PAGE_SIZE;
          stop = (if end0 > total_pages p then total_pages p else end0) in
      if stop = 0 then (0, p) else
      let start = (if search_cursor p < stop then search_cursor p else 0);
          (result, p') = allocate_run_from p start stop 1 in
      if result = 0 \<and> start > 0 then allocate_run_from p' 0 start 1 else (result, p'))"

definition pmm_free :: "nat \<Rightarrow> pmm_state \<Rightarrow> pmm_state" where
  "pmm_free addr p =
     (if addr = 0 then p else
      let page_index = addr div PAGE_SIZE in
      if page_index \<ge> total_pages p then p
      else if \<not> bitmap_test p page_index then p
      else let p' = (bitmap_clear p page_index)\<lparr>used_pages := used_pages p - 1\<rparr> in
        if page_index < search_cursor p' then p'\<lparr>search_cursor := page_index\<rparr> else p')"

definition pmm_alloc_pages :: "nat \<Rightarrow> pmm_state \<Rightarrow> nat \<times> pmm_state" where
  "pmm_alloc_pages count p =
     (if count = 0 then (0, p)
      else if count > total_pages p then (0, p)
      else if count = 1 then pmm_alloc p
      else
        let (result, p') = allocate_run_from p (search_cursor p) (total_pages p) count in
        if result = 0 \<and> search_cursor p' > 0 then allocate_run_from p' 0 (search_cursor p') count
        else (result, p'))"

fun pmm_free_loop :: "nat \<Rightarrow> nat \<Rightarrow> pmm_state \<Rightarrow> pmm_state" where
  "pmm_free_loop page_index 0 p = p"
| "pmm_free_loop page_index (Suc n) p =
     (if page_index \<ge> total_pages p then p
      else if bitmap_test p page_index then
        (let p' = (bitmap_clear p page_index)\<lparr>used_pages := used_pages p - 1\<rparr> in
         pmm_free_loop (page_index + 1) n
           (if page_index < search_cursor p' then p'\<lparr>search_cursor := page_index\<rparr> else p'))
      else pmm_free_loop (page_index + 1) n p)"

definition pmm_free_pages :: "nat \<Rightarrow> nat \<Rightarrow> pmm_state \<Rightarrow> pmm_state" where
  "pmm_free_pages addr count p =
     (if addr = 0 \<or> count = 0 then p else pmm_free_loop (addr div PAGE_SIZE) count p)"

definition pmm_get_stats :: "pmm_state \<Rightarrow> nat \<times> nat \<times> nat" where
  "pmm_get_stats p = (total_pages p, used_pages p, total_pages p - used_pages p)"

text \<open>\<open>pmm_init\<close>: its three passes over the memory map, and the pages of the bitmap itself.\<close>

definition region_top :: "memmap_entry \<Rightarrow> nat" where
  "region_top e = (me_base e + me_length e) mod 2 ^ 64"

definition pmm_highest :: "memmap_entry list \<Rightarrow> nat \<Rightarrow> nat" where
  "pmm_highest entries h = fold (\<lambda>e h. if region_top e > h then region_top e else h) entries h"

text \<open>The address of the loop does not wrap: regions of the memory map begin and end at page boundaries, so the loop reaches the
  end of a region, which is at most \<open>2 ^ 64 - 4096\<close>.\<close>

function pmm_mark_free :: "nat \<Rightarrow> nat \<Rightarrow> pmm_state \<Rightarrow> pmm_state" where
  "pmm_mark_free addr hi p =
     (if addr < hi then
        (let page_index = addr div PAGE_SIZE in
         pmm_mark_free (addr + PAGE_SIZE) hi
           (if page_index < total_pages p \<and> bitmap_test p page_index
            then (bitmap_clear p page_index)\<lparr>used_pages := used_pages p - 1\<rparr> else p))
      else p)"
  by pat_completeness auto
termination by (relation "measure (\<lambda>(addr, hi, p). hi - addr)") auto

declare pmm_mark_free.simps [simp del]

definition pmm_mark_region :: "memmap_entry \<Rightarrow> pmm_state \<Rightarrow> pmm_state" where
  "pmm_mark_region e p =
     (if me_type e = LIMINE_MEMMAP_USABLE
      then pmm_mark_free (me_base e) (region_top e) p else p)"

definition pmm_mark_used :: "nat \<Rightarrow> pmm_state \<Rightarrow> pmm_state" where
  "pmm_mark_used page_index p =
     (if page_index < total_pages p \<and> \<not> bitmap_test p page_index
      then (bitmap_set p page_index)\<lparr>used_pages := used_pages p + 1\<rparr> else p)"

text \<open>The bitmap is the empty list while its pointer is null. When no region is large enough, the code goes on with the bitmap of an
  earlier call, if there was one.\<close>

definition pmm_init :: "memmap_entry list option \<Rightarrow> pmm_state \<Rightarrow> pmm_state" where
  "pmm_init memmap p =
     (case memmap of None \<Rightarrow> p
      | Some entries \<Rightarrow>
        let highest = pmm_highest entries (highest_addr p);
            total = highest div PAGE_SIZE;
            bsize = (total + 7) div 8;
            p1 = p\<lparr>highest_addr := highest, total_pages := total, bitmap_size := bsize\<rparr>;
            r = List.find (\<lambda>e. me_type e = LIMINE_MEMMAP_USABLE \<and> me_length e \<ge> bsize) entries in
        if r = None \<and> bitmap p = [] then p1
        else
          let bitmap_phys = (case r of None \<Rightarrow> 0 | Some e \<Rightarrow> me_base e);
              p2 = p1\<lparr>bitmap := replicate bsize 255, used_pages := total\<rparr>;
              p3 = fold pmm_mark_region entries p2;
              bitmap_pages = (bsize + PAGE_SIZE - 1) div PAGE_SIZE;
              p4 = fold (\<lambda>i. pmm_mark_used ((bitmap_phys + i * PAGE_SIZE) div PAGE_SIZE))
                     [0..<bitmap_pages] p3 in
          p4\<lparr>search_cursor := 0\<rparr>)"

section \<open>Invariant and abstraction\<close>

definition pmm_wf :: "pmm_state \<Rightarrow> bool" where
  "pmm_wf p \<longleftrightarrow> length (bitmap p) = bitmap_size p \<and> bitmap_size p = (total_pages p + 7) div 8 \<and>
     used_pages p = bm.used (bitmap p) (total_pages p) \<and>
     (total_pages p = 0 \<or> search_cursor p < total_pages p) \<and> total_pages p * PAGE_SIZE \<le> 2 ^ 64"

definition page_free :: "pmm_state \<Rightarrow> nat \<Rightarrow> bool" where
  "page_free p i \<longleftrightarrow> i < total_pages p \<and> \<not> bitmap_test p i"

text \<open>What an allocation of the run \<open>i, \<dots>, i + n - 1\<close> does to the set of free pages.\<close>

definition took_run :: "pmm_state \<Rightarrow> nat \<Rightarrow> nat \<Rightarrow> pmm_state \<Rightarrow> bool" where
  "took_run p i n p' \<longleftrightarrow> i + n \<le> total_pages p \<and> total_pages p' = total_pages p \<and>
     (\<forall>j. i \<le> j \<and> j < i + n \<longrightarrow> page_free p j) \<and>
     (\<forall>j. page_free p' j = (page_free p j \<and> \<not> (i \<le> j \<and> j < i + n))) \<and>
     used_pages p' = used_pages p + n"

definition free_run :: "pmm_state \<Rightarrow> nat \<Rightarrow> nat \<Rightarrow> bool" where
  "free_run p i n \<longleftrightarrow> (\<forall>j. i \<le> j \<and> j < i + n \<longrightarrow> page_free p j)"

lemma bitmap_set_frame [simp]:
  "total_pages (bitmap_set p i) = total_pages p" "used_pages (bitmap_set p i) = used_pages p"
  "bitmap_size (bitmap_set p i) = bitmap_size p" "bitmap (bitmap_set p i) = bm_set (bitmap p) i"
  by (simp_all add: bitmap_set_def)

lemma bitmap_clear_frame [simp]:
  "total_pages (bitmap_clear p i) = total_pages p" "used_pages (bitmap_clear p i) = used_pages p"
  "bitmap_size (bitmap_clear p i) = bitmap_size p" "bitmap (bitmap_clear p i) = bm_clear (bitmap p) i"
  "search_cursor (bitmap_clear p i) = search_cursor p"
  by (simp_all add: bitmap_clear_def)

lemma fold_bitmap_set:
  "fold (\<lambda>j q. bitmap_set q (idx + j)) [0..<n] p =
   p\<lparr>bitmap := fold (\<lambda>j m. bm_set m (idx + j)) [0..<n] (bitmap p)\<rparr>"
  by (induction n) (auto simp: bitmap_set_def)

lemma wf_cap: "pmm_wf p \<Longrightarrow> total_pages p \<le> 8 * length (bitmap p)"
  by (auto simp: pmm_wf_def)

lemma took_run_intro:
  assumes wf: "pmm_wf p" and run: "i + n \<le> total_pages p" "free_run p i n"
    and p': "p' = (fold (\<lambda>j q. bitmap_set q (i + j)) [0..<n] p)
               \<lparr>used_pages := used_pages p + n, search_cursor := c\<rparr>"
    and c: "total_pages p = 0 \<or> c < total_pages p"
  shows "took_run p i n p' \<and> pmm_wf p'"
proof -
  let ?m = "fold (\<lambda>j m. bm_set m (i + j)) [0..<n] (bitmap p)"
  have cap: "i + n \<le> 8 * length (bitmap p)" using run wf_cap [OF wf] by simp
  have free: "\<And>j. i \<le> j \<Longrightarrow> j < i + n \<Longrightarrow> \<not> bm_test (bitmap p) j"
    using run by (auto simp: free_run_def page_free_def bitmap_test_def)
  have test: "bm_test ?m j = ((i \<le> j \<and> j < i + n) \<or> bm_test (bitmap p) j)"
    if "j < total_pages p" for j
    using that wf_cap [OF wf] cap by (intro bm.test_set_run) auto
  have len: "length ?m = length (bitmap p)" using bm.cap_set_run [OF cap] by simp
  have used: "bm.used ?m (total_pages p) = bm.used (bitmap p) (total_pages p) + n"
    using run wf_cap [OF wf] free by (intro bm.used_set_run) auto
  have eq: "p' = p\<lparr>bitmap := ?m, used_pages := used_pages p + n, search_cursor := c\<rparr>"
    by (simp add: p' fold_bitmap_set)
  show ?thesis
    using wf run test len used c unfolding eq
    by (auto simp: took_run_def pmm_wf_def page_free_def bitmap_test_def free_run_def)
qed

lemma took_free_run: "took_run p i n p' \<Longrightarrow> free_run p i n"
  by (simp add: took_run_def free_run_def)

lemma took_one_intro:
  assumes wf: "pmm_wf p" and i: "i < total_pages p" "\<not> bitmap_test p i" and c: "c < total_pages p"
  shows "took_run p i 1 ((bitmap_set p i)\<lparr>used_pages := used_pages p + 1, search_cursor := c\<rparr>) \<and>
    pmm_wf ((bitmap_set p i)\<lparr>used_pages := used_pages p + 1, search_cursor := c\<rparr>)"
proof -
  have "free_run p i 1" using i by (auto simp: free_run_def page_free_def le_less_Suc_eq)
  then show ?thesis using took_run_intro [OF wf _ _ refl, of i 1 c] i(1) c by simp
qed

section \<open>Allocation of a run\<close>

lemma run_length_from_spec:
  assumes "r \<le> count" "\<forall>j. idx \<le> j \<and> j < idx + r \<longrightarrow> \<not> bitmap_test p j"
    "l = run_length_from p idx stop count r" "idx + r \<le> stop"
  shows "r \<le> l \<and> l \<le> count \<and> idx + l \<le> stop \<and>
    (\<forall>j. idx \<le> j \<and> j < idx + l \<longrightarrow> \<not> bitmap_test p j) \<and>
    (l < count \<longrightarrow> idx + l = stop \<or> bitmap_test p (idx + l))"
  using assms
proof (induction p idx stop count r rule: run_length_from.induct)
  case (1 p idx stop count r)
  show ?case
  proof (cases "idx + r < stop \<and> r < count \<and> \<not> bitmap_test p (idx + r)")
    case True
    have "\<forall>j. idx \<le> j \<and> j < idx + (r + 1) \<longrightarrow> \<not> bitmap_test p j"
      using 1(3) True by (auto simp: less_Suc_eq)
    moreover have "l = run_length_from p idx stop count (r + 1)"
      using 1(4) True by (simp add: run_length_from.simps [of p idx stop count r])
    ultimately show ?thesis using 1(1) [OF True] True by auto
  next
    case False
    then have "l = r"
      using 1(4) unfolding run_length_from.simps [of p idx stop count r] if_not_P [OF False] by simp
    then show ?thesis using 1 False by auto
  qed
qed

lemma run_length_from_0:
  assumes "idx \<le> stop"
  shows "run_length_from p idx stop count 0 \<le> count"
    "idx \<le> j \<Longrightarrow> j < idx + run_length_from p idx stop count 0 \<Longrightarrow> \<not> bitmap_test p j"
    "run_length_from p idx stop count 0 < count \<Longrightarrow>
       idx + run_length_from p idx stop count 0 = stop \<or>
       bitmap_test p (idx + run_length_from p idx stop count 0)"
proof -
  let ?l = "run_length_from p idx stop count 0"
  have "0 \<le> ?l \<and> ?l \<le> count \<and> idx + ?l \<le> stop \<and>
    (\<forall>j. idx \<le> j \<and> j < idx + ?l \<longrightarrow> \<not> bitmap_test p j) \<and>
    (?l < count \<longrightarrow> idx + ?l = stop \<or> bitmap_test p (idx + ?l))"
    by (rule run_length_from_spec [OF _ _ refl]) (use assms in auto)
  then show "?l \<le> count"
    "idx \<le> j \<Longrightarrow> j < idx + ?l \<Longrightarrow> \<not> bitmap_test p j"
    "?l < count \<Longrightarrow> idx + ?l = stop \<or> bitmap_test p (idx + ?l)" by auto
qed

text \<open>The lowest run of \<open>count\<close> free pages in the window is taken, or there is none.\<close>

definition no_run_in :: "pmm_state \<Rightarrow> nat \<Rightarrow> nat \<Rightarrow> nat \<Rightarrow> bool" where
  "no_run_in p start stop n \<longleftrightarrow> (\<forall>i. start \<le> i \<and> i + n \<le> stop \<longrightarrow> \<not> free_run p i n)"

lemma allocate_run_from_spec:
  assumes "pmm_wf p" "0 < count" "stop \<le> total_pages p" "allocate_run_from p idx stop count = (a, p')"
  shows "(\<exists>i. idx \<le> i \<and> i + count \<le> stop \<and> a = i * PAGE_SIZE \<and> took_run p i count p' \<and> pmm_wf p' \<and>
           search_cursor p' = (i + count) mod total_pages p \<and> (\<forall>k. idx \<le> k \<and> k < i \<longrightarrow> \<not> free_run p k count))
         \<or> (a = 0 \<and> p' = p \<and> no_run_in p idx stop count)"
  using assms
proof (induction p idx stop count rule: allocate_run_from.induct)
  case (1 p idx stop count)
  let ?l = "run_length_from p idx stop count 0"
  show ?case
  proof (cases "idx + count \<le> stop")
    case False
    then show ?thesis using 1(5)
      by (auto simp: allocate_run_from.simps [of p idx] no_run_in_def)
  next
    case in_window: True
    then have "idx \<le> stop" by simp
    note l = run_length_from_0 [OF this, where p = p and count = count]
    show ?thesis
    proof (cases "?l = count")
      case True
      have "free_run p idx count"
        using l True 1(4) in_window by (auto simp: free_run_def page_free_def)
      moreover have "(idx + count) mod total_pages p < total_pages p"
        using 1(3,4) in_window by (intro mod_less_divisor) auto
      ultimately have "took_run p idx count p' \<and> pmm_wf p'"
        using 1(4,5) True in_window
        by (intro took_run_intro [OF 1(2)]) (auto simp: allocate_run_from.simps [of p idx])
      moreover have "a = idx * PAGE_SIZE" "search_cursor p' = (idx + count) mod total_pages p"
        using 1(5) True in_window by (auto simp: allocate_run_from.simps [of p idx])
      ultimately show ?thesis using in_window by (intro disjI1 exI [of _ idx]) auto
    next
      case False
      with l have l_less: "?l < count" by simp
      have rec: "allocate_run_from p (idx + ?l + 1) stop count = (a, p')"
        using 1(5) False in_window by (simp add: allocate_run_from.simps [of p idx])
      have skip: "\<not> free_run p k count" if "idx \<le> k" "k < idx + ?l + 1" for k
      proof
        assume fr: "free_run p k count"
        have "k \<le> idx + ?l" "idx + ?l < k + count" using that l_less by auto
        with fr have "page_free p (idx + ?l)" by (auto simp: free_run_def)
        then have "\<not> bitmap_test p (idx + ?l)" by (simp add: page_free_def)
        with l(3) l_less in_window show False by auto
      qed
      have skip': "\<And>k. idx \<le> k \<Longrightarrow> free_run p k count \<Longrightarrow> idx + ?l + 1 \<le> k"
        using skip by (meson not_le)
      from 1(1) [OF in_window refl False 1(2-4) rec] show ?thesis
      proof (elim disjE exE conjE)
        fix i assume i: "idx + ?l + 1 \<le> i" "i + count \<le> stop" "a = i * PAGE_SIZE"
          "took_run p i count p'" "pmm_wf p'" "search_cursor p' = (i + count) mod total_pages p"
          "\<forall>k. idx + ?l + 1 \<le> k \<and> k < i \<longrightarrow> \<not> free_run p k count"
        then have "\<forall>k. idx \<le> k \<and> k < i \<longrightarrow> \<not> free_run p k count" using skip' by blast
        with i show ?thesis by (intro disjI1 exI [of _ i]) auto
      next
        assume "a = 0" "p' = p" "no_run_in p (idx + ?l + 1) stop count"
        then show ?thesis using skip' unfolding no_run_in_def by blast
      qed
    qed
  qed
qed

section \<open>Allocation of single pages\<close>

lemma pmm_alloc_scan_spec:
  assumes "pmm_wf p" "pmm_alloc_scan p scanned = (a, p')" "total_pages p \<noteq> 0"
    "\<forall>k. k < scanned \<longrightarrow> bitmap_test p ((search_cursor p + k) mod total_pages p)"
  shows "(\<exists>i. a = i * PAGE_SIZE \<and> took_run p i 1 p' \<and> pmm_wf p') \<or>
    (a = 0 \<and> p' = p \<and> (\<forall>k. k < total_pages p \<longrightarrow> bitmap_test p ((search_cursor p + k) mod total_pages p)))"
  using assms
proof (induction p scanned rule: pmm_alloc_scan.induct)
  case (1 p scanned)
  let ?idx = "(search_cursor p + scanned) mod total_pages p"
  show ?case
  proof (cases "scanned < total_pages p")
    case False
    then show ?thesis using 1 by (auto simp: pmm_alloc_scan.simps [of p])
  next
    case True
    show ?thesis
    proof (cases "bitmap_test p ?idx")
      case used: True
      have "pmm_alloc_scan p (scanned + 1) = (a, p')"
        using 1(3) True used by (simp add: pmm_alloc_scan.simps [of p scanned])
      moreover have "\<forall>k. k < scanned + 1 \<longrightarrow> bitmap_test p ((search_cursor p + k) mod total_pages p)"
        using 1(5) used by (auto simp: less_Suc_eq)
      ultimately show ?thesis using 1(1) [OF True refl] used 1(2,4) by blast
    next
      case free: False
      have lt: "?idx < total_pages p" using 1(4) by simp
      have p': "p' = (bitmap_set p ?idx)\<lparr>used_pages := used_pages p + 1,
          search_cursor := (?idx + 1) mod total_pages p\<rparr>" and a: "a = ?idx * PAGE_SIZE"
        using 1(3) True free by (auto simp: pmm_alloc_scan.simps [of p scanned] Let_def)
      have "took_run p ?idx 1 p' \<and> pmm_wf p'"
        unfolding p' using lt free 1(4) by (intro took_one_intro [OF 1(2)]) simp_all
      with a show ?thesis by blast
    qed
  qed
qed

lemma cursor_covers:
  assumes "c < n" "(i :: nat) < n"
  shows "\<exists>k<n. (c + k) mod n = i"
proof (cases "c \<le> i")
  case True
  then show ?thesis using assms by (intro exI [of _ "i - c"]) auto
next
  case False
  then have "(c + (n - c + i)) mod n = i" using assms by simp
  then show ?thesis using False assms by (intro exI [of _ "n - c + i"]) auto
qed

lemma pmm_alloc_spec:
  assumes wf: "pmm_wf p" and al: "pmm_alloc p = (a, p')"
  shows "(\<exists>i. a = i * PAGE_SIZE \<and> took_run p i 1 p' \<and> pmm_wf p') \<or>
         (a = 0 \<and> p' = p \<and> (\<forall>i. \<not> page_free p i))"
proof (cases "total_pages p = 0")
  case True
  then show ?thesis using al by (simp add: pmm_alloc_def page_free_def)
next
  case False
  then have c: "search_cursor p < total_pages p" using wf by (simp add: pmm_wf_def)
  have "pmm_alloc_scan p 0 = (a, p')" using al False by (simp add: pmm_alloc_def)
  from pmm_alloc_scan_spec [OF wf this False, simplified] show ?thesis
  proof (elim disjE)
    assume "a = 0 \<and> p' = p \<and>
      (\<forall>k. k < total_pages p \<longrightarrow> bitmap_test p ((search_cursor p + k) mod total_pages p))"
    then show ?thesis using cursor_covers [OF c] by (metis page_free_def)
  qed auto
qed

section \<open>The public allocation functions\<close>

lemma pmm_alloc_pages_spec:
  assumes wf: "pmm_wf p" and al: "pmm_alloc_pages n p = (a, p')" and n: "0 < n" "n \<le> total_pages p"
  shows "(\<exists>i. a = i * PAGE_SIZE \<and> took_run p i n p' \<and> pmm_wf p') \<or>
         (a = 0 \<and> p' = p \<and> no_run_in p (search_cursor p) (total_pages p) n \<and>
          no_run_in p 0 (search_cursor p) n)"
proof (cases "n = 1")
  case True
  then have "pmm_alloc p = (a, p')" using al n by (simp add: pmm_alloc_pages_def)
  from pmm_alloc_spec [OF wf this] show ?thesis
    unfolding True by (auto simp: no_run_in_def free_run_def)
next
  case False
  obtain a1 p1 where r1: "allocate_run_from p (search_cursor p) (total_pages p) n = (a1, p1)"
    by fastforce
  have cur: "search_cursor p < total_pages p" using wf n by (auto simp: pmm_wf_def)
  note spec1 = allocate_run_from_spec [OF wf n(1) order_refl r1]
  show ?thesis
  proof (cases "a1 = 0 \<and> search_cursor p1 > 0")
    case retry: True
    then have r2: "allocate_run_from p1 0 (search_cursor p1) n = (a, p')"
      using al r1 n False by (simp add: pmm_alloc_pages_def)
    from spec1 show ?thesis
    proof (elim disjE exE conjE)
      assume p1: "p1 = p" and none: "no_run_in p (search_cursor p) (total_pages p) n"
      from allocate_run_from_spec [OF wf n(1) _ r2 [unfolded p1]] cur none show ?thesis
        by (auto simp: no_run_in_def)
    next
      fix i assume i: "a1 = i * PAGE_SIZE" "took_run p i n p1" "pmm_wf p1"
        "search_cursor p1 = (i + n) mod total_pages p"
      then have i0: "i = 0" using retry by simp
      have c1: "search_cursor p1 \<le> n" using i(4) i0 by simp
      have no: "\<not> free_run p1 k n" if "k + n \<le> search_cursor p1" for k
        using i(2) i0 c1 that n(1) by (auto simp: free_run_def took_run_def)
      have c2: "search_cursor p1 \<le> total_pages p1" using i(2) c1 n by (simp add: took_run_def)
      have "a = 0 \<and> p' = p1"
        using allocate_run_from_spec [OF i(3) n(1) c2 r2] no took_free_run by blast
      then show ?thesis using i i0 by (intro disjI1 exI [of _ 0]) auto
    qed
  next
    case done_: False
    then have "a = a1" "p' = p1" using al r1 n False by (auto simp: pmm_alloc_pages_def)
    with spec1 done_ show ?thesis by (auto simp: no_run_in_def free_run_def)
  qed
qed

lemma pmm_alloc_pages_trivial: "n = 0 \<or> n > total_pages p \<Longrightarrow> pmm_alloc_pages n p = (0, p)"
  by (auto simp: pmm_alloc_pages_def)

lemma pmm_alloc_pages_cases:
  assumes "pmm_wf p" "pmm_alloc_pages n p = (a, p')"
  shows "(\<exists>i. a = i * PAGE_SIZE \<and> took_run p i n p' \<and> pmm_wf p') \<or> (a = 0 \<and> p' = p)"
  using pmm_alloc_pages_spec [OF assms] pmm_alloc_pages_trivial [of n p] assms
  by (cases "n = 0 \<or> n > total_pages p") auto

lemma no_run_one: "no_run_in p s t 1 \<longleftrightarrow> (\<forall>i. s \<le> i \<and> i < t \<longrightarrow> \<not> page_free p i)"
proof -
  have "free_run p i 1 = page_free p i" for i by (auto simp: free_run_def le_less_Suc_eq)
  then show ?thesis by (simp add: no_run_in_def Suc_le_eq)
qed

lemma pmm_alloc_below_spec:
  assumes wf: "pmm_wf p" and al: "pmm_alloc_below limit p = (a, p')"
  shows "(\<exists>i. a = i * PAGE_SIZE \<and> took_run p i 1 p' \<and> pmm_wf p' \<and> (i + 1) * PAGE_SIZE \<le> limit) \<or>
         (a = 0 \<and> p' = p \<and> (limit \<le> PAGE_SIZE \<or> (\<forall>i. (i + 1) * PAGE_SIZE \<le> limit \<longrightarrow> \<not> page_free p i)))"
proof (cases "total_pages p = 0 \<or> limit \<le> PAGE_SIZE")
  case True
  then show ?thesis using al by (auto simp: pmm_alloc_below_def page_free_def)
next
  case False
  define stop where "stop = min (total_pages p) (limit div PAGE_SIZE)"
  define start where "start = (if search_cursor p < stop then search_cursor p else 0)"
  obtain a1 p1 where r1: "allocate_run_from p start stop 1 = (a1, p1)" by fastforce
  have stop: "stop \<noteq> 0" "stop \<le> total_pages p" "start \<le> stop" "stop * PAGE_SIZE \<le> limit"
    using False by (auto simp: stop_def start_def min_def)
  have al': "(if a1 = 0 \<and> start > 0 then allocate_run_from p1 0 start 1 else (a1, p1)) = (a, p')"
  proof -
    have eq: "(if limit div PAGE_SIZE > total_pages p then total_pages p else limit div PAGE_SIZE) = stop"
      by (simp add: stop_def min_def)
    show ?thesis
      using al False stop(1) r1 unfolding pmm_alloc_below_def Let_def eq start_def [symmetric] by simp
  qed
  have below: "(i + 1) * PAGE_SIZE \<le> limit" if "i + 1 \<le> stop" for i
    using that stop(4) mult_le_mono1 [OF that, of PAGE_SIZE] by linarith
  have upto: "i < stop" if "(i + 1) * PAGE_SIZE \<le> limit" "page_free p i" for i
    using that by (auto simp: stop_def page_free_def)
  note spec1 = allocate_run_from_spec [OF wf zero_less_one stop(2) r1]
  show ?thesis
  proof (cases "a1 = 0 \<and> start > 0")
    case True
    then have r2: "allocate_run_from p1 0 start 1 = (a, p')" using al' by simp
    from spec1 True have p1: "p1 = p" "no_run_in p start stop 1" by auto
    have "start \<le> total_pages p" using stop by simp
    from allocate_run_from_spec [OF wf zero_less_one this r2 [unfolded p1(1)]] show ?thesis
    proof (elim disjE exE conjE)
      assume "a = 0" "p' = p" "no_run_in p 0 start 1"
      then show ?thesis using p1(2) upto unfolding no_run_one by (meson not_le zero_le)
    next
      fix i assume "a = i * PAGE_SIZE" "took_run p i 1 p'" "pmm_wf p'" "i + 1 \<le> start"
      then show ?thesis using below stop(3) by (intro disjI1 exI [of _ i]) auto
    qed
  next
    case False
    then have "a = a1" "p' = p1" using al' by auto
    with False have "a = 0 \<Longrightarrow> start = 0" by simp
    from spec1 [folded \<open>a = a1\<close> \<open>p' = p1\<close>] show ?thesis
    proof (elim disjE exE conjE)
      assume "a = 0" "p' = p" "no_run_in p start stop 1"
      then show ?thesis using upto \<open>a = 0 \<Longrightarrow> start = 0\<close> unfolding no_run_one by (metis zero_le)
    next
      fix i assume "a = i * PAGE_SIZE" "took_run p i 1 p'" "pmm_wf p'" "i + 1 \<le> stop"
      then show ?thesis using below by (intro disjI1 exI [of _ i]) auto
    qed
  qed
qed

section \<open>Freeing\<close>

text \<open>What freeing page \<open>i\<close> does; a page that is already free is left alone.\<close>

definition released :: "pmm_state \<Rightarrow> nat set \<Rightarrow> pmm_state \<Rightarrow> bool" where
  "released p S p' \<longleftrightarrow> total_pages p' = total_pages p \<and>
     (\<forall>j. page_free p' j = (page_free p j \<or> (j \<in> S \<and> j < total_pages p)))"

lemma released_trans: "released p S p1 \<Longrightarrow> released p1 T p2 \<Longrightarrow> released p (S \<union> T) p2"
  by (auto simp: released_def)

lemma released_same: "(\<And>j. j \<in> S \<Longrightarrow> j < total_pages p \<Longrightarrow> page_free p j) \<Longrightarrow> released p S p"
  by (auto simp: released_def)

text \<open>The part of the invariant that holds while \<open>pmm_init\<close> is still working.\<close>

definition pmm_counted :: "pmm_state \<Rightarrow> bool" where
  "pmm_counted p \<longleftrightarrow> length (bitmap p) = bitmap_size p \<and> bitmap_size p = (total_pages p + 7) div 8 \<and>
     used_pages p = bm.used (bitmap p) (total_pages p)"

lemma pmm_wf_counted: "pmm_wf p \<longleftrightarrow> pmm_counted p \<and>
     (total_pages p = 0 \<or> search_cursor p < total_pages p) \<and> total_pages p * PAGE_SIZE \<le> 2 ^ 64"
  by (auto simp: pmm_wf_def pmm_counted_def)

lemma clear_page_spec:
  assumes wf: "pmm_counted p" and i: "i < total_pages p" "bitmap_test p i"
  defines "p' \<equiv> (bitmap_clear p i)\<lparr>used_pages := used_pages p - 1\<rparr>"
  shows "pmm_counted p'" "released p {i} p'"
proof -
  have cap: "total_pages p \<le> 8 * length (bitmap p)" using wf by (auto simp: pmm_counted_def)
  have test: "bm_test (bm_clear (bitmap p) i) j = (j \<noteq> i \<and> bm_test (bitmap p) j)"
    if "j < total_pages p" for j
    using that i cap by (intro bm.test_clear) auto
  have "Suc (bm.used (bm_clear (bitmap p) i) (total_pages p)) = bm.used (bitmap p) (total_pages p)"
    using i cap by (intro bm.used_clear) (auto simp: bitmap_test_def)
  then show "pmm_counted p'" "released p {i} p'"
    using wf i test
    by (auto simp: p'_def pmm_counted_def released_def page_free_def bitmap_test_def)
qed

lemma pmm_free_spec:
  assumes wf: "pmm_wf p" and a: "addr \<noteq> 0"
  shows "pmm_wf (pmm_free addr p) \<and> released p {addr div PAGE_SIZE} (pmm_free addr p)"
proof (cases "addr div PAGE_SIZE \<ge> total_pages p \<or> \<not> bitmap_test p (addr div PAGE_SIZE)")
  case True
  then have "pmm_free addr p = p" by (auto simp: pmm_free_def Let_def)
  then show ?thesis using wf True by (auto simp: released_def page_free_def)
next
  case False
  then show ?thesis
    using clear_page_spec [of p "addr div PAGE_SIZE"] wf a
    by (auto simp: pmm_free_def Let_def pmm_wf_counted released_def page_free_def pmm_counted_def
        bitmap_test_def)
qed

lemma pmm_free_loop_spec:
  "pmm_wf p \<Longrightarrow> pmm_wf (pmm_free_loop i n p) \<and> released p {i..<i + n} (pmm_free_loop i n p)"
proof (induction n arbitrary: i p)
  case 0
  then show ?case by (simp add: released_def)
next
  case (Suc n)
  have split: "{i..<i + Suc n} = {i} \<union> {i + 1..<i + 1 + n}" by auto
  consider "i \<ge> total_pages p" | "i < total_pages p" "\<not> bitmap_test p i"
    | "i < total_pages p" "bitmap_test p i" by linarith
  then show ?case
  proof cases
    case 1
    then show ?thesis using Suc.prems by (auto simp: released_def)
  next
    case 2
    then have "released p {i} p" by (auto simp: released_def page_free_def)
    moreover have "pmm_free_loop i (Suc n) p = pmm_free_loop (i + 1) n p" using 2 by simp
    ultimately show ?thesis
      using Suc.IH [OF Suc.prems, of "i + 1"] released_trans unfolding split by metis
  next
    case 3
    let ?q = "(bitmap_clear p i)\<lparr>used_pages := used_pages p - 1\<rparr>"
    let ?r = "if i < search_cursor ?q then ?q\<lparr>search_cursor := i\<rparr> else ?q"
    have "pmm_wf ?r" "released p {i} ?r"
      using clear_page_spec [of p i] 3 Suc.prems
      by (auto simp: pmm_wf_counted released_def page_free_def pmm_counted_def bitmap_test_def)
    moreover have "pmm_free_loop i (Suc n) p = pmm_free_loop (i + 1) n ?r"
      using 3 by (simp add: Let_def)
    ultimately show ?thesis
      using Suc.IH [of ?r "i + 1"] released_trans unfolding split by metis
  qed
qed

lemma pmm_free_pages_spec:
  assumes "pmm_wf p" "addr \<noteq> 0"
  shows "pmm_wf (pmm_free_pages addr n p) \<and>
    released p {addr div PAGE_SIZE..<addr div PAGE_SIZE + n} (pmm_free_pages addr n p)"
  using pmm_free_loop_spec [OF assms(1)] assms
  by (cases "n = 0") (auto simp: pmm_free_pages_def released_def)

section \<open>Initialisation\<close>

text \<open>The pages a usable region covers, counted the way the loop of \<open>pmm_init\<close> walks them.\<close>

definition region_pages :: "nat \<Rightarrow> nat \<Rightarrow> nat set" where
  "region_pages base hi = {j. base div PAGE_SIZE \<le> j \<and> base + (j - base div PAGE_SIZE) * PAGE_SIZE < hi}"

lemma region_pages_step:
  assumes "addr < hi"
  shows "region_pages addr hi = {addr div PAGE_SIZE} \<union> region_pages (addr + PAGE_SIZE) hi"
proof -
  have "(addr + PAGE_SIZE) div PAGE_SIZE = Suc (addr div PAGE_SIZE)" by simp
  moreover have "j = addr div PAGE_SIZE \<or> j - addr div PAGE_SIZE = Suc (j - Suc (addr div PAGE_SIZE))"
    if "addr div PAGE_SIZE \<le> j" for j using that by linarith
  ultimately show ?thesis using assms by (fastforce simp: region_pages_def Suc_le_eq le_less)
qed

lemma pmm_mark_free_spec:
  "pmm_counted p \<Longrightarrow> pmm_counted (pmm_mark_free addr hi p) \<and>
     released p (region_pages addr hi) (pmm_mark_free addr hi p)"
proof (induction addr hi p rule: pmm_mark_free.induct)
  case (1 addr hi p)
  show ?case
  proof (cases "addr < hi")
    case False
    then show ?thesis
      using 1(2) by (auto simp: pmm_mark_free.simps [of addr] released_def region_pages_def)
  next
    case True
    let ?i = "addr div PAGE_SIZE"
    let ?q = "if ?i < total_pages p \<and> bitmap_test p ?i
              then (bitmap_clear p ?i)\<lparr>used_pages := used_pages p - 1\<rparr> else p"
    have q: "pmm_counted ?q" "released p {?i} ?q"
      using clear_page_spec [of p ?i] 1(2) by (auto simp: released_def page_free_def)
    have "pmm_mark_free addr hi p = pmm_mark_free (addr + PAGE_SIZE) hi ?q"
      using True by (simp add: pmm_mark_free.simps [of addr] Let_def)
    then show ?thesis
      using 1(1) [OF True refl q(1)] released_trans [OF q(2)] region_pages_step [OF True] by simp
  qed
qed

definition usable_pages :: "memmap_entry \<Rightarrow> nat set" where
  "usable_pages e = (if me_type e = LIMINE_MEMMAP_USABLE
     then region_pages (me_base e) (me_base e + me_length e) else {})"

lemma region_top_id: "me_base e + me_length e + PAGE_SIZE \<le> 2 ^ 64 \<Longrightarrow> region_top e = me_base e + me_length e"
  by (simp add: region_top_def)

lemma pmm_mark_region_spec:
  "pmm_counted p \<Longrightarrow> region_top e = me_base e + me_length e \<Longrightarrow>
     pmm_counted (pmm_mark_region e p) \<and> released p (usable_pages e) (pmm_mark_region e p)"
  using pmm_mark_free_spec [of p] by (auto simp: pmm_mark_region_def usable_pages_def released_def)

lemma mark_free_regions_spec:
  "pmm_counted p \<Longrightarrow> (\<And>e. e \<in> set es \<Longrightarrow> region_top e = me_base e + me_length e) \<Longrightarrow>
     pmm_counted (fold pmm_mark_region es p) \<and>
     released p (\<Union>e \<in> set es. usable_pages e) (fold pmm_mark_region es p)"
proof (induction es arbitrary: p)
  case Nil
  then show ?case by (simp add: released_def)
next
  case (Cons e es)
  from pmm_mark_region_spec [OF Cons.prems(1), of e] Cons.IH [of "pmm_mark_region e p"] Cons.prems(2)
  show ?case using released_trans [of p "usable_pages e" "pmm_mark_region e p"] by simp
qed

text \<open>The pages of the bitmap itself are taken back.\<close>

definition claimed :: "pmm_state \<Rightarrow> nat set \<Rightarrow> pmm_state \<Rightarrow> bool" where
  "claimed p S p' \<longleftrightarrow> total_pages p' = total_pages p \<and> (\<forall>j. page_free p' j = (page_free p j \<and> j \<notin> S))"

lemma pmm_mark_used_spec:
  assumes wf: "pmm_counted p"
  shows "pmm_counted (pmm_mark_used i p) \<and> claimed p {i} (pmm_mark_used i p)"
proof (cases "i < total_pages p \<and> \<not> bitmap_test p i")
  case False
  then show ?thesis using wf by (auto simp: pmm_mark_used_def claimed_def page_free_def)
next
  case True
  have cap: "total_pages p \<le> 8 * length (bitmap p)" using wf by (auto simp: pmm_counted_def)
  have "bm_test (bm_set (bitmap p) i) j = (j = i \<or> bm_test (bitmap p) j)" if "j < total_pages p" for j
    using that True cap by (intro bm.test_set) auto
  moreover have "bm.used (bm_set (bitmap p) i) (total_pages p) = Suc (bm.used (bitmap p) (total_pages p))"
    using True cap by (intro bm.used_set) (auto simp: bitmap_test_def)
  ultimately show ?thesis
    using True wf by (auto simp: pmm_mark_used_def pmm_counted_def claimed_def page_free_def bitmap_test_def)
qed

lemma mark_used_pages_spec:
  "pmm_counted p \<Longrightarrow> pmm_counted (fold (\<lambda>i. pmm_mark_used (f i)) is p) \<and>
     claimed p (f ` set is) (fold (\<lambda>i. pmm_mark_used (f i)) is p)"
proof (induction "is" arbitrary: p)
  case Nil
  then show ?case by (simp add: claimed_def)
next
  case (Cons i "is")
  then show ?case using Cons.IH [of "pmm_mark_used (f i) p"] pmm_mark_used_spec [OF Cons.prems, of "f i"]
    by (auto simp: claimed_def)
qed

definition bitmap_region :: "memmap_entry list \<Rightarrow> nat \<Rightarrow> memmap_entry option" where
  "bitmap_region es bsize =
     List.find (\<lambda>e. me_type e = LIMINE_MEMMAP_USABLE \<and> me_length e \<ge> bsize) es"

definition bitmap_pages_at :: "nat \<Rightarrow> nat \<Rightarrow> nat set" where
  "bitmap_pages_at base bsize = {base div PAGE_SIZE..<base div PAGE_SIZE + (bsize + PAGE_SIZE - 1) div PAGE_SIZE}"

lemma bitmap_pages_image:
  "(\<lambda>i. (base + i * PAGE_SIZE) div PAGE_SIZE) ` set [0..<(bsize + PAGE_SIZE - 1) div PAGE_SIZE] =
   bitmap_pages_at base bsize"
  by (simp add: bitmap_pages_at_def image_add_atLeastLessThan add.commute flip: image_image)

lemma pmm_highest_Max:
  "(\<And>e. e \<in> set es \<Longrightarrow> region_top e = me_base e + me_length e) \<Longrightarrow>
     pmm_highest es h = Max (insert h ((\<lambda>e. me_base e + me_length e) ` set es))"
proof (induction es arbitrary: h)
  case (Cons e es)
  let ?t = "\<lambda>e. me_base e + me_length e"
  have "pmm_highest (e # es) h = pmm_highest es (max h (?t e))"
    using Cons.prems [of e] by (simp add: pmm_highest_def max_def)
  also have "\<dots> = Max (insert (max h (?t e)) (?t ` set es))" using Cons.prems by (intro Cons.IH) simp
  also have "\<dots> = Max (insert h (?t ` set (e # es)))"
    by (cases "set es = {}") (simp_all add: max.assoc)
  finally show ?case .
qed (simp add: pmm_highest_def)

lemma pmm_highest_bound:
  assumes "\<And>e. e \<in> set es \<Longrightarrow> region_top e = me_base e + me_length e" "\<And>e. e \<in> set es \<Longrightarrow> me_base e + me_length e \<le> B" "h \<le> B"
  shows "pmm_highest es h \<le> B"
  using assms(2,3) by (auto simp: pmm_highest_Max [OF assms(1)])

lemma pmm_init_spec:
  assumes p0: "highest_addr p = 0"
    and mm: "\<And>e. e \<in> set es \<Longrightarrow> me_base e + me_length e + PAGE_SIZE \<le> 2 ^ 64"
    and tp: "tp = pmm_highest es 0 div PAGE_SIZE"
    and r: "bitmap_region es ((tp + 7) div 8) = Some r"
  shows "pmm_wf (pmm_init (Some es) p) \<and> total_pages (pmm_init (Some es) p) = tp \<and>
    (\<forall>j. page_free (pmm_init (Some es) p) j \<longleftrightarrow> j < tp \<and> (\<exists>e\<in>set es. j \<in> usable_pages e) \<and>
        j \<notin> bitmap_pages_at (me_base r) ((tp + 7) div 8))"
proof -
  have top: "\<And>e. e \<in> set es \<Longrightarrow> region_top e = me_base e + me_length e" using mm by (intro region_top_id)
  define bsize where "bsize = (tp + 7) div 8"
  define p2 where "p2 = p\<lparr>highest_addr := pmm_highest es 0, total_pages := tp, bitmap_size := bsize,
    bitmap := replicate bsize 255, used_pages := tp\<rparr>"
  define p3 where "p3 = fold pmm_mark_region es p2"
  define p4 where "p4 = fold (\<lambda>i. pmm_mark_used ((me_base r + i * PAGE_SIZE) div PAGE_SIZE))
    [0..<(bsize + PAGE_SIZE - 1) div PAGE_SIZE] p3"
  have init: "pmm_init (Some es) p = p4\<lparr>search_cursor := 0\<rparr>"
    using r [unfolded bitmap_region_def] p0 unfolding pmm_init_def Let_def p4_def p3_def p2_def bsize_def tp
    by simp
  have full: "\<And>j. j < tp \<Longrightarrow> bm_test (replicate bsize 255) j"
    by (intro bm_test_replicate_full) (auto simp: bsize_def)
  have c2: "pmm_counted p2"
    using full bm.used_full [of "replicate bsize 255" tp] by (simp add: pmm_counted_def p2_def bsize_def)
  have none: "\<not> page_free p2 j" for j using full by (simp add: p2_def page_free_def bitmap_test_def)
  have t2: "total_pages p2 = tp" by (simp add: p2_def)
  note c3 = mark_free_regions_spec [OF c2 top, of es, folded p3_def]
  have c4: "pmm_counted p4" "claimed p3 (bitmap_pages_at (me_base r) bsize) p4"
    using mark_used_pages_spec [OF conjunct1 [OF c3], of "\<lambda>i. (me_base r + i * PAGE_SIZE) div PAGE_SIZE"]
    unfolding p4_def bitmap_pages_image [symmetric] by blast+
  have "pmm_highest es 0 \<le> 2 ^ 64" using mm by (intro pmm_highest_bound top) force+
  then have "tp * PAGE_SIZE \<le> 2 ^ 64" unfolding tp by (meson div_times_less_eq_dividend order_trans)
  moreover have "page_free (p4\<lparr>search_cursor := 0\<rparr>) j = page_free p4 j" for j
    by (simp add: page_free_def bitmap_test_def)
  ultimately show ?thesis
    using c3 c4 t2 none unfolding init bsize_def [symmetric]
    by (auto simp: pmm_wf_counted released_def claimed_def pmm_counted_def)
qed

section \<open>The allocator as an interface\<close>

text \<open>A client's calls on a page allocator, and the runs it is given.\<close>

datatype page_op = Alloc nat | Release nat nat

fun exec_page_ops ::
  "(nat \<Rightarrow> 's \<Rightarrow> nat \<times> 's) \<Rightarrow> (nat \<Rightarrow> nat \<Rightarrow> 's \<Rightarrow> 's) \<Rightarrow> page_op list \<Rightarrow> 's \<Rightarrow> (nat \<times> nat) list \<times> 's" where
  "exec_page_ops alloc release [] s = ([], s)"
| "exec_page_ops alloc release (Alloc n # ops) s =
     (let (a, s1) = alloc n s; (rs, s2) = exec_page_ops alloc release ops s1
      in (if a = 0 then rs else (a, n) # rs, s2))"
| "exec_page_ops alloc release (Release a n # ops) s = exec_page_ops alloc release ops (release a n s)"

definition run_pages :: "nat \<times> nat \<Rightarrow> nat set" where
  "run_pages r = {fst r div PAGE_SIZE..<fst r div PAGE_SIZE + snd r}"

definition released_pages :: "page_op list \<Rightarrow> nat set" where
  "released_pages ops = (\<Union>op \<in> set ops. case op of Alloc n \<Rightarrow> {} | Release a n \<Rightarrow> run_pages (a, n))"

text \<open>
  What the heap, the page tables and the loader rely on: a run that is handed out was free and is
  free no more, and only a release frees pages, those of its run. The lemmas of the locale are the
  clients' side: a page that is in use stays in use, and is in no run handed out, until it is
  released.
\<close>

locale page_allocator =
  fixes wf :: "'s \<Rightarrow> bool" and free_page :: "'s \<Rightarrow> nat \<Rightarrow> bool"
    and alloc :: "nat \<Rightarrow> 's \<Rightarrow> nat \<times> 's" and release :: "nat \<Rightarrow> nat \<Rightarrow> 's \<Rightarrow> 's"
  assumes alloc_wf: "wf s \<Longrightarrow> alloc n s = (a, s') \<Longrightarrow> wf s'"
    and alloc_run: "wf s \<Longrightarrow> alloc n s = (a, s') \<Longrightarrow> a \<noteq> 0 \<Longrightarrow> j \<in> run_pages (a, n) \<Longrightarrow>
      free_page s j \<and> \<not> free_page s' j"
    and alloc_keeps: "wf s \<Longrightarrow> alloc n s = (a, s') \<Longrightarrow> free_page s' j \<Longrightarrow> free_page s j"
    and release_wf: "wf s \<Longrightarrow> wf (release a n s)"
    and release_keeps: "wf s \<Longrightarrow> j \<notin> run_pages (a, n) \<Longrightarrow> free_page (release a n s) j = free_page s j"
begin

lemma exec_wf: "wf s \<Longrightarrow> wf (snd (exec_page_ops alloc release ops s))"
proof (induction ops arbitrary: s)
  case (Cons op ops)
  then show ?case
    by (cases op) (auto intro: Cons.IH release_wf alloc_wf simp: case_prod_unfold Let_def
        dest: alloc_wf [OF _ prod.collapse [symmetric]])
qed simp

lemma in_use_until_released:
  "wf s \<Longrightarrow> \<not> free_page s j \<Longrightarrow> j \<notin> released_pages ops \<Longrightarrow>
   exec_page_ops alloc release ops s = (rs, s') \<Longrightarrow>
   \<not> free_page s' j \<and> (\<forall>r \<in> set rs. j \<notin> run_pages r)"
proof (induction ops arbitrary: s rs)
  case (Cons op ops)
  show ?case
  proof (cases op)
    case (Alloc n)
    obtain a s1 where al: "alloc n s = (a, s1)" by fastforce
    obtain rs1 where ex: "exec_page_ops alloc release ops s1 = (rs1, s')"
      "rs = (if a = 0 then rs1 else (a, n) # rs1)"
      using Cons.prems(4) Alloc al by (auto split: prod.splits)
    have "\<not> free_page s1 j" using alloc_keeps [OF Cons.prems(1) al] Cons.prems(2) by blast
    moreover have "j \<notin> released_pages ops" using Cons.prems(3) by (simp add: released_pages_def)
    ultimately have "\<not> free_page s' j \<and> (\<forall>r \<in> set rs1. j \<notin> run_pages r)"
      using Cons.IH [OF alloc_wf [OF Cons.prems(1) al]] ex(1) by blast
    then show ?thesis using alloc_run [OF Cons.prems(1) al] Cons.prems(2) ex(2) by auto
  next
    case (Release a n)
    have "j \<notin> run_pages (a, n)" "j \<notin> released_pages ops"
      using Cons.prems(3) Release by (simp_all add: released_pages_def)
    moreover have "exec_page_ops alloc release ops (release a n s) = (rs, s')"
      using Cons.prems(4) Release by simp
    ultimately show ?thesis
      using Cons.IH [OF release_wf [OF Cons.prems(1)]] release_keeps [OF Cons.prems(1)] Cons.prems(2)
      by blast
  qed
qed simp

lemma granted_run_is_exclusive:
  assumes "wf s" "alloc n s = (a, s1)" "a \<noteq> 0" "run_pages (a, n) \<inter> released_pages ops = {}"
    "exec_page_ops alloc release ops s1 = (rs, s')" "r \<in> set rs"
  shows "run_pages (a, n) \<inter> run_pages r = {}"
  using in_use_until_released [OF alloc_wf [OF assms(1,2)] _ _ assms(5)] alloc_run [OF assms(1-3)] assms(4,6)
  by blast

end

lemma pmm_release_wf: "pmm_wf p \<Longrightarrow> pmm_wf (pmm_free_pages a n p)"
  using pmm_free_pages_spec [of p a n] by (cases "a = 0") (auto simp: pmm_free_pages_def)

interpretation pm: page_allocator pmm_wf page_free pmm_alloc_pages pmm_free_pages
proof
  fix s n a s' j
  assume "pmm_wf s" "pmm_alloc_pages n s = (a, s')"
  note spec = pmm_alloc_pages_cases [OF this]
  show "pmm_wf s'" using spec \<open>pmm_wf s\<close> by auto
  show "a \<noteq> 0 \<Longrightarrow> j \<in> run_pages (a, n) \<Longrightarrow> page_free s j \<and> \<not> page_free s' j"
    using spec by (auto simp: took_run_def run_pages_def)
  show "page_free s' j \<Longrightarrow> page_free s j" using spec by (auto simp: took_run_def)
next
  fix s j a n
  assume "pmm_wf s"
  then show "pmm_wf (pmm_free_pages a n s)" by (rule pmm_release_wf)
  show "j \<notin> run_pages (a, n) \<Longrightarrow> page_free (pmm_free_pages a n s) j = page_free s j"
    using pmm_free_pages_spec [OF \<open>pmm_wf s\<close>, of a n]
    by (cases "a = 0") (auto simp: pmm_free_pages_def released_def run_pages_def)
qed

section \<open>Properties\<close>

definition example_map :: "memmap_entry list" where
  "example_map = [\<lparr>me_base = 0, me_length = 4096, me_type = 1\<rparr>, \<lparr>me_base = 4096, me_length = 28672, me_type = 0\<rparr>]"

definition pmm_boot :: pmm_state where
  "pmm_boot = \<lparr>bitmap = [], bitmap_size = 0, total_pages = 0, used_pages = 0, search_cursor = 0, highest_addr = 0\<rparr>"

definition example_pmm :: pmm_state where
  "example_pmm = \<lparr>bitmap = [3], bitmap_size = 1, total_pages = 8, used_pages = 2, search_cursor = 0,
     highest_addr = 32768\<rparr>"

text \<open>C33: after \<open>pmm_init\<close> finds a region for its bitmap, the invariant holds and the free pages are
  exactly the pages of the usable regions without the pages of the bitmap, where the number of pages is that of the highest
  end of a region. No region of the memory map reaches into the last page of the 64-bit address space.\<close>

theorem pmm_init_free_pages:
  assumes "highest_addr p = 0"
    and "\<forall>e \<in> set es. me_base e + me_length e + PAGE_SIZE \<le> 2 ^ 64"
    and "bitmap_region es ((pmm_highest es 0 div PAGE_SIZE + 7) div 8) = Some r"
  shows "pmm_wf (pmm_init (Some es) p) \<and>
    pmm_highest es 0 = Max (insert 0 ((\<lambda>e. me_base e + me_length e) ` set es)) \<and>
    (\<forall>j. page_free (pmm_init (Some es) p) j \<longleftrightarrow> j < pmm_highest es 0 div PAGE_SIZE \<and>
        (\<exists>e\<in>set es. j \<in> usable_pages e) \<and>
        j \<notin> bitmap_pages_at (me_base r) ((pmm_highest es 0 div PAGE_SIZE + 7) div 8))"
  using pmm_init_spec [OF assms(1) _ refl assms(3)] assms(2) pmm_highest_Max [of es 0, OF region_top_id] by auto

theorem pmm_init_free_pages_witness:
  "pmm_wf (pmm_init (Some example_map) pmm_boot) \<and> page_free (pmm_init (Some example_map) pmm_boot) 7 \<and>
   \<not> page_free (pmm_init (Some example_map) pmm_boot) 1"
proof -
  have h: "pmm_highest example_map 0 = 32768" by (simp add: pmm_highest_def example_map_def region_top_def)
  have r: "bitmap_region example_map ((pmm_highest example_map 0 div PAGE_SIZE + 7) div 8) =
      Some \<lparr>me_base = 4096, me_length = 28672, me_type = 0\<rparr>"
    unfolding h by (simp add: bitmap_region_def example_map_def LIMINE_MEMMAP_USABLE_def)
  show ?thesis
    using pmm_init_free_pages [OF _ _ r, of pmm_boot] unfolding h
    by (simp add: pmm_boot_def example_map_def bitmap_pages_at_def usable_pages_def region_pages_def
        LIMINE_MEMMAP_USABLE_def)
qed

lemma example_pmm_bits: "i < 8 \<Longrightarrow> bm_test [3] i = (i < 2)"
proof -
  have "\<forall>i \<in> set [0..<8]. bm_test [3] i = (i < 2)" by code_simp
  then show "i < 8 \<Longrightarrow> bm_test [3] i = (i < 2)" by simp
qed

lemmas example_pmm_eval = pmm_alloc_pages_def pmm_alloc_below_def pmm_alloc_def allocate_run_from.simps
  run_length_from.simps pmm_alloc_scan.simps bitmap_test_def bitmap_set_def example_pmm_def

lemma example_pmm_wf: "pmm_wf example_pmm"
proof -
  have "{i. i < 8 \<and> bm_test [3] i} = {0, 1}" using example_pmm_bits by auto
  then show ?thesis by (simp add: pmm_wf_def example_pmm_def bm.used_def)
qed

text \<open>C31: \<open>pmm_alloc_pages\<close> hands out a run of pages that were all free, takes exactly these, counts
  them, and keeps the invariant; if it changes nothing it returns the null pointer, and then there
  is no free run of that length on either side of the search cursor.\<close>

theorem pmm_alloc_pages_correct:
  assumes "pmm_wf p" and "pmm_alloc_pages n p = (a, p')" and "0 < n" and "n \<le> total_pages p"
  shows "(\<exists>i. a = i * PAGE_SIZE \<and> took_run p i n p' \<and> pmm_wf p') \<or>
         (a = 0 \<and> p' = p \<and> no_run_in p (search_cursor p) (total_pages p) n \<and>
          no_run_in p 0 (search_cursor p) n)"
  by (rule pmm_alloc_pages_spec [OF assms])

theorem pmm_alloc_pages_correct_witness:
  "fst (pmm_alloc_pages 3 example_pmm) = 8192 \<and> took_run example_pmm 2 3 (snd (pmm_alloc_pages 3 example_pmm))"
proof -
  have a: "fst (pmm_alloc_pages 3 example_pmm) = 8192" by (simp add: example_pmm_eval example_pmm_bits)
  have "3 \<le> total_pages example_pmm" by (simp add: example_pmm_def)
  from pmm_alloc_pages_correct [OF example_pmm_wf prod.collapse [symmetric] _ this] a show ?thesis by auto
qed

text \<open>C32: a run handed out by \<open>pmm_alloc_pages\<close> is exclusive: whatever the kernel allocates and frees
  afterwards, as long as it does not free pages of that run no later allocation overlaps it.\<close>

theorem pmm_runs_exclusive:
  assumes "pmm_wf p" and "pmm_alloc_pages n p = (a, p1)" and "a \<noteq> 0"
    and "run_pages (a, n) \<inter> released_pages ops = {}"
    and "exec_page_ops pmm_alloc_pages pmm_free_pages ops p1 = (rs, p2)" and "r \<in> set rs"
  shows "run_pages (a, n) \<inter> run_pages r = {}"
  by (rule pm.granted_run_is_exclusive [OF assms])

lemma example_pmm_three:
  "pmm_alloc_pages 3 example_pmm =
   (8192, example_pmm\<lparr>bitmap := [31], used_pages := 5, search_cursor := 5\<rparr>)"
proof -
  have "bm_set (bm_set (bm_set [3] (Suc (Suc 0))) (Suc (Suc (Suc 0)))) 4 = [31]" by code_simp
  moreover have "[0..<3] = [0, 1, 2 :: nat]" by code_simp
  ultimately show ?thesis by (simp add: example_pmm_eval example_pmm_bits)
qed

theorem pmm_runs_exclusive_witness: "run_pages (8192, 3) \<inter> run_pages (20480, 1) = {}"
proof -
  have "\<not> bm_test [31] 5" "\<not> bm_test [31] 7" by code_simp+
  then have ex: "fst (exec_page_ops pmm_alloc_pages pmm_free_pages [Release 28672 1, Alloc 1]
    (example_pmm\<lparr>bitmap := [31], used_pages := 5, search_cursor := 5\<rparr>)) = [(20480, 1)]"
    by (simp add: example_pmm_eval pmm_free_pages_def)
  have "run_pages (8192, 3) \<inter> released_pages [Release 28672 1, Alloc 1] = {}"
    by (simp add: run_pages_def released_pages_def)
  then show ?thesis
    using pmm_runs_exclusive [OF example_pmm_wf example_pmm_three _ _ prod.collapse [symmetric],
      of "[Release 28672 1, Alloc 1]" "(20480, 1)"] ex by simp
qed

text \<open>\<open>pmm_alloc_below\<close> hands out a free page that lies wholly below the limit, or changes nothing
  because every page below the limit is in use (or the limit is at most one page).\<close>

theorem pmm_alloc_below_correct:
  assumes "pmm_wf p" and "pmm_alloc_below limit p = (a, p')"
  shows "(\<exists>i. a = i * PAGE_SIZE \<and> took_run p i 1 p' \<and> pmm_wf p' \<and> (i + 1) * PAGE_SIZE \<le> limit) \<or>
         (a = 0 \<and> p' = p \<and>
          (limit \<le> PAGE_SIZE \<or> (\<forall>i. (i + 1) * PAGE_SIZE \<le> limit \<longrightarrow> \<not> page_free p i)))"
  by (rule pmm_alloc_below_spec [OF assms])

theorem pmm_alloc_below_correct_witness:
  "fst (pmm_alloc_below 16384 example_pmm) = 8192 \<and> pmm_wf (snd (pmm_alloc_below 16384 example_pmm))"
proof -
  have a: "fst (pmm_alloc_below 16384 example_pmm) = 8192" by (simp add: example_pmm_eval example_pmm_bits)
  from pmm_alloc_below_correct [OF example_pmm_wf prod.collapse [symmetric], of 16384] a show ?thesis by auto
qed

end
