(* ===== verification/Heap.thy ===== *)
theory Heap
  imports Pmm
begin

text \<open>
  The kernel heap, \<open>src/src/memory/heap.c\<close>. A block header lives in memory in front of its payload,
  so the state has a memory of headers indexed by address, a memory of payload bytes, and the
  file's static variables; \<open>next\<close> and \<open>prev\<close> are addresses, 0 being the null pointer. Sizes and
  addresses are 64-bit and wrap (\<open>add64\<close>, \<open>sub64\<close>). The two loops over the block list are partial
  functions: \<open>None\<close> is a loop that does not end, and the invariant \<open>heap_inv\<close> shows that they do.
  Proved: the pointer operations refine operations on a list of blocks; under the invariant every
  allocation is aligned, large enough, and disjoint from all live allocations, which it leaves
  alone; \<open>kfree\<close> removes exactly one live allocation.
\<close>

section \<open>State and operations\<close>

definition add64 :: "nat \<Rightarrow> nat \<Rightarrow> nat" where
  "add64 x y = (x + y) mod 2 ^ 64"

definition sub64 :: "nat \<Rightarrow> nat \<Rightarrow> nat" where
  "sub64 x y = (if y \<le> x then x - y else 2 ^ 64 + x - y)"

record heap_block =
  hb_size :: nat
  hb_free :: bool
  hb_next :: nat
  hb_prev :: nat

abbreviation BLOCK_HEADER_SIZE :: nat where "BLOCK_HEADER_SIZE \<equiv> 32"
abbreviation MIN_ALLOC_SIZE :: nat where "MIN_ALLOC_SIZE \<equiv> 16"

type_synonym header_mem = "nat \<Rightarrow> heap_block"

record heap_state =
  hmem :: header_mem
  hdata :: "nat \<Rightarrow> u8"
  heap_start :: nat
  total_heap_size :: nat
  total_allocated :: nat
  num_allocations :: nat
  hpmm :: pmm_state
  hhdm_offset :: nat

definition align_size :: "nat \<Rightarrow> nat" where
  "align_size sz = add64 sz 15 div 16 * 16"

definition expand_heap :: "nat \<Rightarrow> heap_state \<Rightarrow> nat \<times> heap_state" where
  "expand_heap sz h =
     (let total_needed = add64 sz BLOCK_HEADER_SIZE;
          pages_needed = add64 total_needed (PAGE_SIZE - 1) div PAGE_SIZE;
          (new_mem, p) = pmm_alloc_pages pages_needed (hpmm h);
          h1 = h\<lparr>hpmm := p\<rparr> in
      if new_mem = 0 then (0, h1) else
      let block = add64 new_mem (hhdm_offset h);
          b = \<lparr>hb_size = sub64 (pages_needed * PAGE_SIZE) BLOCK_HEADER_SIZE, hb_free = True,
               hb_next = 0, hb_prev = 0\<rparr> in
      (block, h1\<lparr>hmem := (hmem h1)(block := b),
                 total_heap_size := add64 (total_heap_size h) (pages_needed * PAGE_SIZE)\<rparr>))"

text \<open>\<open>if (x) x->prev = p\<close>\<close>

definition relink :: "nat \<Rightarrow> nat \<Rightarrow> header_mem \<Rightarrow> header_mem" where
  "relink x p m = (if x \<noteq> 0 then m(x := (m x)\<lparr>hb_prev := p\<rparr>) else m)"

definition split_block :: "nat \<Rightarrow> nat \<Rightarrow> header_mem \<Rightarrow> header_mem" where
  "split_block block sz m =
     (if hb_size (m block) \<ge> add64 (add64 sz BLOCK_HEADER_SIZE) MIN_ALLOC_SIZE then
        let new_block = add64 (add64 block BLOCK_HEADER_SIZE) sz;
            m1 = m(new_block := \<lparr>hb_size = sub64 (sub64 (hb_size (m block)) sz) BLOCK_HEADER_SIZE,
                     hb_free = True, hb_next = hb_next (m block), hb_prev = block\<rparr>);
            m2 = relink (hb_next (m1 block)) new_block m1
        in m2(block := (m2 block)\<lparr>hb_next := new_block, hb_size := sz\<rparr>)
      else m)"

definition merge_next :: "nat \<Rightarrow> header_mem \<Rightarrow> header_mem" where
  "merge_next block m =
     (let nxt = hb_next (m block) in
      if nxt \<noteq> 0 \<and> add64 (add64 block BLOCK_HEADER_SIZE) (hb_size (m block)) = nxt \<and> hb_free (m nxt) then
        let m1 = m(block := (m block)\<lparr>hb_size := add64 (hb_size (m block))
                    (add64 BLOCK_HEADER_SIZE (hb_size (m nxt))), hb_next := hb_next (m nxt)\<rparr>)
        in relink (hb_next (m1 block)) block m1
      else m)"

definition merge_prev :: "nat \<Rightarrow> header_mem \<Rightarrow> header_mem" where
  "merge_prev block m =
     (let prev = hb_prev (m block) in
      if prev \<noteq> 0 \<and> add64 (add64 prev BLOCK_HEADER_SIZE) (hb_size (m prev)) = block \<and> hb_free (m prev) then
        let m1 = m(prev := (m prev)\<lparr>hb_size := add64 (hb_size (m prev))
                    (add64 BLOCK_HEADER_SIZE (hb_size (m block))), hb_next := hb_next (m block)\<rparr>)
        in relink (hb_next (m1 block)) (hb_prev (m1 block)) m1
      else m)"

definition merge_free_blocks :: "nat \<Rightarrow> header_mem \<Rightarrow> header_mem" where
  "merge_free_blocks block m = (if block = 0 then m else merge_prev block (merge_next block m))"

definition heap_init :: "heap_state \<Rightarrow> heap_state" where
  "heap_init h = (let (b, h') = expand_heap (PAGE_SIZE * 4) h in h'\<lparr>heap_start := b\<rparr>)"

text \<open>The search loop of \<open>kmalloc\<close>, and its walk to the end of the list.\<close>

partial_function (option) find_fit :: "header_mem \<Rightarrow> nat \<Rightarrow> nat \<Rightarrow> nat option" where
  "find_fit m sz current =
     (if current = 0 then Some 0
      else if hb_free (m current) \<and> hb_size (m current) \<ge> sz then Some current
      else find_fit m sz (hb_next (m current)))"

partial_function (option) find_last :: "header_mem \<Rightarrow> nat \<Rightarrow> nat option" where
  "find_last m lst =
     (if hb_next (m lst) \<noteq> 0 then find_last m (hb_next (m lst)) else Some lst)"

definition claim_block :: "nat \<Rightarrow> nat \<Rightarrow> heap_state \<Rightarrow> nat \<times> heap_state" where
  "claim_block block sz h =
     (let m1 = split_block block sz (hmem h);
          m2 = m1(block := (m1 block)\<lparr>hb_free := False\<rparr>) in
      (add64 block BLOCK_HEADER_SIZE,
       h\<lparr>hmem := m2, total_allocated := add64 (total_allocated h) (hb_size (m2 block)),
         num_allocations := add64 (num_allocations h) 1\<rparr>))"

definition append_block :: "nat \<Rightarrow> heap_state \<Rightarrow> heap_state option" where
  "append_block new_block h =
     (if heap_start h = 0 then Some (h\<lparr>heap_start := new_block\<rparr>)
      else case find_last (hmem h) (heap_start h) of
        None \<Rightarrow> None
      | Some lst \<Rightarrow>
        let m1 = (hmem h)(lst := (hmem h lst)\<lparr>hb_next := new_block\<rparr>)
        in Some (h\<lparr>hmem := m1(new_block := (m1 new_block)\<lparr>hb_prev := lst\<rparr>)\<rparr>))"

definition kmalloc :: "nat \<Rightarrow> heap_state \<Rightarrow> (nat \<times> heap_state) option" where
  "kmalloc sz0 h =
     (if sz0 = 0 then Some (0, h) else
      let sz = align_size sz0 in
      case find_fit (hmem h) sz (heap_start h) of
        None \<Rightarrow> None
      | Some current \<Rightarrow>
        if current \<noteq> 0 then Some (claim_block current sz h)
        else
          let (new_block, h1) = expand_heap sz h in
          if new_block = 0 then Some (0, h1)
          else (case append_block new_block h1 of
                  None \<Rightarrow> None
                | Some h2 \<Rightarrow> Some (claim_block new_block sz h2)))"

definition kfree :: "nat \<Rightarrow> heap_state \<Rightarrow> heap_state" where
  "kfree ptr h =
     (if ptr = 0 then h else
      let block = sub64 ptr BLOCK_HEADER_SIZE in
      if hb_free (hmem h block) then h
      else
        let m1 = (hmem h)(block := (hmem h block)\<lparr>hb_free := True\<rparr>) in
        h\<lparr>hmem := merge_free_blocks block m1,
          total_allocated := sub64 (total_allocated h) (hb_size (m1 block)),
          num_allocations := sub64 (num_allocations h) 1\<rparr>)"

definition memset_data :: "nat \<Rightarrow> u8 \<Rightarrow> nat \<Rightarrow> (nat \<Rightarrow> u8) \<Rightarrow> nat \<Rightarrow> u8" where
  "memset_data ptr v n d = (\<lambda>a. if ptr \<le> a \<and> a < ptr + n then v else d a)"

definition memcpy_data :: "nat \<Rightarrow> nat \<Rightarrow> nat \<Rightarrow> (nat \<Rightarrow> u8) \<Rightarrow> nat \<Rightarrow> u8" where
  "memcpy_data dst src n d = (\<lambda>a. if dst \<le> a \<and> a < dst + n then d (src + (a - dst)) else d a)"

definition kcalloc :: "nat \<Rightarrow> nat \<Rightarrow> heap_state \<Rightarrow> (nat \<times> heap_state) option" where
  "kcalloc num sz h =
     (if num \<noteq> 0 \<and> sz > (2 ^ 64 - 1) div num then Some (0, h) else
      let tot = (num * sz) mod 2 ^ 64 in
      case kmalloc tot h of
        None \<Rightarrow> None
      | Some (ptr, h1) \<Rightarrow>
        Some (ptr, if ptr \<noteq> 0 then h1\<lparr>hdata := memset_data ptr 0 tot (hdata h1)\<rparr> else h1))"

definition krealloc :: "nat \<Rightarrow> nat \<Rightarrow> heap_state \<Rightarrow> (nat \<times> heap_state) option" where
  "krealloc ptr new_size h =
     (if ptr = 0 then kmalloc new_size h
      else if new_size = 0 then Some (0, kfree ptr h)
      else
        let old_size = hb_size (hmem h (sub64 ptr BLOCK_HEADER_SIZE)) in
        if align_size new_size \<le> old_size then Some (ptr, h)
        else case kmalloc new_size h of
          None \<Rightarrow> None
        | Some (new_ptr, h1) \<Rightarrow>
          if new_ptr = 0 then Some (0, h1)
          else Some (new_ptr, kfree ptr (h1\<lparr>hdata := memcpy_data new_ptr ptr
                 (if old_size < new_size then old_size else new_size) (hdata h1)\<rparr>)))"

definition heap_get_stats :: "heap_state \<Rightarrow> nat \<times> nat \<times> nat" where
  "heap_get_stats h =
     (total_allocated h, sub64 (total_heap_size h) (total_allocated h), num_allocations h)"

section \<open>The block list\<close>

text \<open>
  \<open>dseg m pv a bs nx l\<close>: from address \<open>a\<close>, with \<open>pv\<close> before it, the headers in \<open>m\<close> form the doubly
  linked list of blocks \<open>bs\<close>, given as (address, size, free), ending at \<open>nx\<close> after the block \<open>l\<close>.
\<close>

type_synonym block = "nat \<times> nat \<times> bool"

fun dseg :: "header_mem \<Rightarrow> nat \<Rightarrow> nat \<Rightarrow> block list \<Rightarrow> nat \<Rightarrow> nat \<Rightarrow> bool" where
  "dseg m pv a [] nx l = (a = nx \<and> pv = l)"
| "dseg m pv a ((b, s, f) # bs) nx l =
     (a = b \<and> b \<noteq> 0 \<and> hb_size (m b) = s \<and> hb_free (m b) = f \<and> hb_prev (m b) = pv \<and>
      dseg m b (hb_next (m b)) bs nx l)"

lemma dseg_append:
  "dseg m pv a (xs @ ys) nx l \<longleftrightarrow> (\<exists>c k. dseg m pv a xs c k \<and> dseg m k c ys nx l)"
  by (induction xs arbitrary: pv a) (auto, blast)

lemma dseg_cong:
  "(\<And>b. b \<in> fst ` set bs \<Longrightarrow> m' b = m b) \<Longrightarrow> dseg m' pv a bs nx l = dseg m pv a bs nx l"
  by (induction bs arbitrary: pv a) auto

lemma dseg_upd [simp]: "b \<notin> fst ` set bs \<Longrightarrow> dseg (m(b := v)) pv a bs nx l = dseg m pv a bs nx l"
  by (rule dseg_cong) auto

lemma dseg_head: "dseg m pv a bs nx l \<Longrightarrow> bs \<noteq> [] \<Longrightarrow> a = fst (hd bs) \<and> a \<noteq> 0"
  by (cases bs) auto

lemma dseg_in: "dseg m pv a bs nx l \<Longrightarrow> (b, s, f) \<in> set bs \<Longrightarrow> hb_size (m b) = s \<and> hb_free (m b) = f \<and> b \<noteq> 0"
  by (induction bs arbitrary: pv a) auto

lemma dseg_relink:
  assumes "dseg m pv a ys 0 l" "distinct (map fst ys)"
  shows "\<exists>l'. dseg (relink a p m) p a ys 0 l'"
proof (cases ys)
  case Nil
  then show ?thesis using assms by (simp add: relink_def)
next
  case (Cons y ys')
  obtain b s f where y: "y = (b, s, f)" by (cases y) auto
  have "b \<notin> fst ` set ys'" using assms(2) Cons y by auto
  then show ?thesis using assms(1) unfolding Cons y by (auto simp: relink_def)
qed

lemma dseg_mark:
  assumes "dseg m pv a (xs @ (b, s, f) # ys) nx l" "distinct (map fst (xs @ (b, s, f) # ys))"
  shows "dseg (m(b := (m b)\<lparr>hb_free := f'\<rparr>)) pv a (xs @ (b, s, f') # ys) nx l"
  using assms by (auto simp: dseg_append)

lemma dseg_set_next:
  assumes "dseg m pv a bs nx l" "bs \<noteq> []" "distinct (map fst bs)"
  shows "dseg (m(l := (m l)\<lparr>hb_next := x\<rparr>)) pv a bs x l"
proof -
  obtain xs b s f where bs: "bs = xs @ [(b, s, f)]" using assms(2) by (metis rev_exhaust prod_cases3)
  show ?thesis using assms(1,3) unfolding bs by (auto simp: dseg_append)
qed

lemma dseg_first: "dseg m pv a ys 0 l \<Longrightarrow> a = 0 \<or> a \<in> fst ` set ys"
  by (cases ys) auto

lemma dseg_nonzero: "dseg m pv a ys nx l \<Longrightarrow> 0 \<notin> fst ` set ys"
  using dseg_in by fastforce

lemma relink_other: "b \<noteq> x \<Longrightarrow> relink x p m b = m b"
  by (simp add: relink_def)

lemma dseg_last: "dseg m pv a bs nx l \<Longrightarrow> l = (if bs = [] then pv else fst (last bs))"
  by (induction bs arbitrary: pv a) auto

section \<open>Operations on block lists\<close>

definition region :: "block \<Rightarrow> nat set" where
  "region x = {fst x..<fst x + BLOCK_HEADER_SIZE + fst (snd x)}"

definition block_ok :: "block \<Rightarrow> bool" where
  "block_ok x \<longleftrightarrow> fst x mod 16 = 0 \<and> fst (snd x) mod 16 = 0 \<and> fst x + BLOCK_HEADER_SIZE + fst (snd x) < 2 ^ 64"

definition blocks_ok :: "block list \<Rightarrow> bool" where
  "blocks_ok bs \<longleftrightarrow> sorted_wrt (\<lambda>x y. region x \<inter> region y = {}) bs \<and> (\<forall>x \<in> set bs. block_ok x)"

lemma region_start: "b \<in> region (b, s, f)"
  by (simp add: region_def)

lemma region_disjoint_fst: "region x \<inter> region y = {} \<Longrightarrow> fst x \<noteq> fst y"
  by (cases x; cases y) (auto simp: region_def)

lemma blocks_ok_distinct: "blocks_ok bs \<Longrightarrow> distinct (map fst bs)"
  unfolding blocks_ok_def
  by (induction bs) (auto dest: region_disjoint_fst)

definition split_abs :: "block \<Rightarrow> nat \<Rightarrow> block list" where
  "split_abs x sz = (case x of (b, s, f) \<Rightarrow>
     if s \<ge> sz + BLOCK_HEADER_SIZE + MIN_ALLOC_SIZE
     then [(b, sz, f), (b + BLOCK_HEADER_SIZE + sz, s - sz - BLOCK_HEADER_SIZE, True)] else [(b, s, f)])"

lemma blocks_ok_middle:
  assumes "blocks_ok (xs @ x # ys)"
  shows "blocks_ok xs" "blocks_ok ys" "\<And>z. z \<in> set xs \<union> set ys \<Longrightarrow> region x \<inter> region z = {}"
  using assms by (auto simp: blocks_ok_def sorted_wrt_append)

lemma addr_not_in:
  assumes "a \<in> region x" "\<And>z. z \<in> set zs \<Longrightarrow> region x \<inter> region z = {}"
  shows "a \<notin> fst ` set zs"
proof
  assume "a \<in> fst ` set zs"
  then obtain z where z: "z \<in> set zs" "a = fst z" by auto
  then have "a \<in> region z" by (simp add: region_def)
  with assms z show False by blast
qed

lemma split_block_refines:
  assumes d: "dseg m pv a (xs @ (b, s, f) # ys) 0 l" and ok: "blocks_ok (xs @ (b, s, f) # ys)"
    and sz: "sz \<le> s"
  shows "\<exists>l'. dseg (split_block b sz m) pv a (xs @ split_abs (b, s, f) sz @ ys) 0 l'"
proof -
  let ?n = "b + BLOCK_HEADER_SIZE + sz"
  obtain k where xs: "dseg m pv a xs b k" and b: "b \<noteq> 0" "hb_size (m b) = s" "hb_free (m b) = f"
    "hb_prev (m b) = k" and ys: "dseg m b (hb_next (m b)) ys 0 l"
    using d by (auto simp: dseg_append)
  have lt: "b + BLOCK_HEADER_SIZE + s < 2 ^ 64" using ok by (simp add: blocks_ok_def block_ok_def)
  have "b mod 16 = 0" using ok by (simp add: blocks_ok_def block_ok_def)
  then have "b \<ge> 16" using b(1) by (meson dvd_imp_le mod_eq_0_iff_dvd neq0_conv)
  then have guard: "add64 (add64 sz BLOCK_HEADER_SIZE) MIN_ALLOC_SIZE = sz + BLOCK_HEADER_SIZE + MIN_ALLOC_SIZE"
    using lt sz by (simp add: add64_def)
  note mid = blocks_ok_middle [OF ok]
  have bfresh: "b \<notin> fst ` set xs" "b \<notin> fst ` set ys"
    using addr_not_in [OF region_start [of b s f]] mid(3) by blast+
  show ?thesis
  proof (cases "s \<ge> sz + BLOCK_HEADER_SIZE + MIN_ALLOC_SIZE")
    case False
    then show ?thesis using d b unfolding split_block_def guard by (auto simp: split_abs_def)
  next
    case True
    have n: "?n \<in> region (b, s, f)" using True by (simp add: region_def)
    have nfresh: "?n \<notin> fst ` set xs" "?n \<notin> fst ` set ys" "?n \<noteq> b"
      using addr_not_in [OF n] mid(3) by auto
    let ?m1 = "m(?n := \<lparr>hb_size = s - sz - BLOCK_HEADER_SIZE, hb_free = True, hb_next = hb_next (m b), hb_prev = b\<rparr>)"
    let ?m2 = "relink (hb_next (m b)) ?n ?m1"
    let ?m3 = "?m2(b := (?m2 b)\<lparr>hb_next := ?n, hb_size := sz\<rparr>)"
    have "sub64 (sub64 s sz) BLOCK_HEADER_SIZE = s - sz - BLOCK_HEADER_SIZE" using True by (simp add: sub64_def)
    then have split: "split_block b sz m = ?m3"
      using True b lt nfresh unfolding split_block_def guard by (simp add: add64_def Let_def)
    have nx: "hb_next (m b) \<notin> fst ` set xs" "hb_next (m b) \<noteq> b" "hb_next (m b) \<noteq> ?n"
      using dseg_first [OF ys] dseg_nonzero [OF xs] blocks_ok_distinct [OF ok] b(1) nfresh
      by (auto simp: image_iff)
    have "\<exists>l'. dseg ?m2 ?n (hb_next (m b)) ys 0 l'"
      using ys nfresh blocks_ok_distinct [OF mid(2)] by (intro dseg_relink [where pv = b]) auto
    then obtain l' where "dseg ?m3 ?n (hb_next (m b)) ys 0 l'" using bfresh by auto
    moreover have "dseg ?m3 pv a xs b k"
      using xs bfresh nfresh nx by (subst dseg_cong [where m = m]) (auto simp: relink_def image_iff)
    ultimately show ?thesis
      using True b nfresh nx unfolding split
      by (auto simp: split_abs_def dseg_append relink_other)
  qed
qed

definition merge_abs :: "block \<Rightarrow> block list \<Rightarrow> block list" where
  "merge_abs x ys = (case x of (b, s, f) \<Rightarrow> case ys of
       (n, t, True) # zs \<Rightarrow> (if b + BLOCK_HEADER_SIZE + s = n then (b, s + BLOCK_HEADER_SIZE + t, f) # zs else x # ys)
     | _ \<Rightarrow> x # ys)"

lemma merge_next_refines:
  assumes d: "dseg m pv a (xs @ (b, s, f) # ys) 0 l" and ok: "blocks_ok (xs @ (b, s, f) # ys)"
  shows "\<exists>l'. dseg (merge_next b m) pv a (xs @ merge_abs (b, s, f) ys) 0 l'"
proof -
  obtain k where xs: "dseg m pv a xs b k" and b: "b \<noteq> 0" "hb_size (m b) = s" "hb_free (m b) = f"
    "hb_prev (m b) = k" and ys: "dseg m b (hb_next (m b)) ys 0 l"
    using d by (auto simp: dseg_append)
  have lt: "add64 (add64 b BLOCK_HEADER_SIZE) s = b + BLOCK_HEADER_SIZE + s" using ok by (simp add: blocks_ok_def block_ok_def add64_def)
  have dist: "distinct (map fst (xs @ (b, s, f) # ys))" by (rule blocks_ok_distinct [OF ok])
  show ?thesis
  proof (cases "\<exists>t zs. ys = (b + BLOCK_HEADER_SIZE + s, t, True) # zs")
    case False
    have "merge_next b m = m"
      using False ys b lt by (cases ys) (auto simp: merge_next_def Let_def)
    moreover have "merge_abs (b, s, f) ys = (b, s, f) # ys"
      using False by (auto simp: merge_abs_def split: list.splits bool.splits)
    ultimately show ?thesis using d by auto
  next
    case True
    then obtain t zs where yeq: "ys = (b + BLOCK_HEADER_SIZE + s, t, True) # zs" by auto
    let ?n = "b + BLOCK_HEADER_SIZE + s"
    have n: "hb_next (m b) = ?n" "hb_size (m ?n) = t" "hb_free (m ?n)" and zs: "dseg m ?n (hb_next (m ?n)) zs 0 l"
      using ys yeq by auto
    have "?n + BLOCK_HEADER_SIZE + t < 2 ^ 64" using ok yeq by (simp add: blocks_ok_def block_ok_def)
    then have add: "add64 s (add64 BLOCK_HEADER_SIZE t) = s + BLOCK_HEADER_SIZE + t" by (simp add: add64_def)
    let ?m1 = "m(b := (m b)\<lparr>hb_size := s + BLOCK_HEADER_SIZE + t, hb_next := hb_next (m ?n)\<rparr>)"
    have eq: "merge_next b m = relink (hb_next (m ?n)) b ?m1"
      using n b lt add by (simp add: merge_next_def Let_def)
    have fresh: "b \<notin> fst ` set xs" "b \<notin> fst ` set zs" "distinct (map fst zs)" using dist yeq by auto
    have nx: "hb_next (m ?n) \<notin> fst ` set xs" "hb_next (m ?n) \<noteq> b"
      using dseg_first [OF zs] dseg_nonzero [OF xs] dist yeq b(1) by (auto simp: image_iff)
    obtain l' where "dseg (relink (hb_next (m ?n)) b ?m1) b (hb_next (m ?n)) zs 0 l'"
      using dseg_relink [of ?m1 ?n "hb_next (m ?n)" zs l b] zs fresh by auto
    moreover have "dseg (relink (hb_next (m ?n)) b ?m1) pv a xs b k"
      using xs fresh nx by (subst dseg_cong [where m = m]) (auto simp: relink_def image_iff)
    ultimately show ?thesis
      using b nx unfolding eq yeq by (auto simp: merge_abs_def dseg_append relink_other)
  qed
qed

lemma merge_prev_next:
  assumes "hb_prev (m b) = p" "p \<noteq> 0" "b \<noteq> 0" "p \<noteq> b" "hb_next (m p) = b" "hb_free (m b)"
  shows "merge_prev b m = (if hb_free (m p) then merge_next p m else m)"
  using assms by (auto simp: merge_prev_def merge_next_def Let_def)

lemma merge_prev_first: "hb_prev (m b) = 0 \<Longrightarrow> merge_prev b m = m"
  by (simp add: merge_prev_def)

text \<open>Freeing the block between \<open>xs\<close> and \<open>ys\<close>: merge with the right neighbour, then with the left.\<close>

definition free_abs :: "block list \<Rightarrow> block \<Rightarrow> block list \<Rightarrow> block list" where
  "free_abs xs x ys =
     (let ys' = merge_abs x ys in
      if xs = [] \<or> \<not> snd (snd (last xs)) then xs @ ys' else butlast xs @ merge_abs (last xs) ys')"

lemma merge_abs_head: "\<exists>t zs. merge_abs (b, s, f) ys = (b, t, f) # zs"
  by (auto simp: merge_abs_def split: list.splits bool.splits)

section \<open>Regions and counters\<close>

definition span :: "block list \<Rightarrow> nat set" where
  "span bs = (\<Union>x \<in> set bs. region x)"

lemma span_simps [simp]:
  "span [] = {}" "span (x # bs) = region x \<union> span bs" "span (xs @ ys) = span xs \<union> span ys"
  by (auto simp: span_def)

lemma blocks_ok_append:
  "blocks_ok (xs @ ys) \<longleftrightarrow> blocks_ok xs \<and> blocks_ok ys \<and> span xs \<inter> span ys = {}"
  by (auto simp: blocks_ok_def sorted_wrt_append span_def)

lemma blocks_ok_Cons:
  "blocks_ok ((b, s, f) # ys) \<longleftrightarrow> b mod 16 = 0 \<and> s mod 16 = 0 \<and> b + BLOCK_HEADER_SIZE + s < 2 ^ 64 \<and>
     blocks_ok ys \<and> region (b, s, f) \<inter> span ys = {}"
  by (auto simp: blocks_ok_def block_ok_def span_def)

lemma blocks_ok_Nil [simp]: "blocks_ok []"
  by (simp add: blocks_ok_def)

lemma blocks_ok_replace:
  assumes "blocks_ok (xs @ ys @ zs)" "blocks_ok ys'" "span ys' \<subseteq> span ys"
  shows "blocks_ok (xs @ ys' @ zs)"
  using assms unfolding blocks_ok_append span_simps by blast

lemma split_abs_ok:
  assumes "blocks_ok [(b, s, f)]" "sz mod 16 = 0"
  shows "blocks_ok (split_abs (b, s, f) sz) \<and> span (split_abs (b, s, f) sz) = region (b, s, f)"
proof (cases "s \<ge> sz + BLOCK_HEADER_SIZE + MIN_ALLOC_SIZE")
  case True
  then have "(s - sz - BLOCK_HEADER_SIZE) mod 16 = 0"
    using assms by (auto simp: blocks_ok_Cons mod_eq_0_iff_dvd)
  moreover have "(b + BLOCK_HEADER_SIZE + sz) mod 16 = 0"
    using assms by (auto simp: blocks_ok_Cons mod_eq_0_iff_dvd)
  ultimately show ?thesis using True assms by (auto simp: split_abs_def blocks_ok_Cons region_def)
qed (use assms in \<open>auto simp: split_abs_def\<close>)

lemma merge_abs_ok:
  assumes "blocks_ok ((b, s, f) # ys)"
  shows "blocks_ok (merge_abs (b, s, f) ys) \<and> span (merge_abs (b, s, f) ys) = span ((b, s, f) # ys)"
proof (cases "\<exists>t zs. ys = (b + BLOCK_HEADER_SIZE + s, t, True) # zs")
  case True
  then obtain t zs where ys: "ys = (b + BLOCK_HEADER_SIZE + s, t, True) # zs" by auto
  have r: "region (b, s + BLOCK_HEADER_SIZE + t, f) = region (b, s, f) \<union> region (b + BLOCK_HEADER_SIZE + s, t, True)"
    by (auto simp: region_def)
  have "(s + BLOCK_HEADER_SIZE + t) mod 16 = 0"
    using assms unfolding ys by (auto simp: blocks_ok_Cons mod_eq_0_iff_dvd)
  then show ?thesis using assms unfolding ys by (auto simp: merge_abs_def blocks_ok_Cons r)
next
  case False
  then have "merge_abs (b, s, f) ys = (b, s, f) # ys"
    by (auto simp: merge_abs_def split: list.splits bool.splits)
  then show ?thesis using assms by simp
qed

definition heap_total :: "block list \<Rightarrow> nat" where
  "heap_total bs = sum_list (map (\<lambda>x. BLOCK_HEADER_SIZE + fst (snd x)) bs)"

definition alloc_total :: "block list \<Rightarrow> nat" where
  "alloc_total bs = sum_list (map (\<lambda>x. if snd (snd x) then 0 else fst (snd x)) bs)"

definition alloc_count :: "block list \<Rightarrow> nat" where
  "alloc_count bs = length (filter (\<lambda>x. \<not> snd (snd x)) bs)"

lemmas counter_defs = heap_total_def alloc_total_def alloc_count_def

text \<open>The allocations a client holds: payload address and payload size.\<close>

definition live :: "block list \<Rightarrow> (nat \<times> nat) set" where
  "live bs = {(b + BLOCK_HEADER_SIZE, s) | b s. (b, s, False) \<in> set bs}"

lemma live_simps [simp]:
  "live [] = {}" "live (xs @ ys) = live xs \<union> live ys"
  "live ((b, s, f) # ys) = (if f then {} else {(b + BLOCK_HEADER_SIZE, s)}) \<union> live ys"
  by (auto simp: live_def)

lemma card_span: "blocks_ok bs \<Longrightarrow> card (span bs) = heap_total bs"
proof (induction bs)
  case (Cons x bs)
  obtain b s f where x: "x = (b, s, f)" by (cases x) auto
  have "finite (span bs)" by (auto simp: span_def region_def)
  moreover have "blocks_ok bs" "region x \<inter> span bs = {}" using Cons.prems unfolding x blocks_ok_Cons by auto
  ultimately show ?case
    using Cons.IH by (simp add: card_Un_disjoint region_def counter_defs)
qed (simp add: counter_defs)

lemma alloc_total_le: "alloc_total bs \<le> heap_total bs" "alloc_count bs \<le> heap_total bs"
  by (induction bs) (auto simp: counter_defs)

lemma split_abs_counters:
  "sz \<le> s \<Longrightarrow> \<exists>t rest. split_abs (b, s, f) sz = (b, t, f) # rest \<and> sz \<le> t \<and> live rest = {} \<and>
     alloc_total rest = 0 \<and> alloc_count rest = 0 \<and> heap_total ((b, t, f) # rest) = BLOCK_HEADER_SIZE + s"
  by (auto simp: split_abs_def counter_defs)

lemma merge_abs_counters:
  "heap_total (merge_abs (b, s, True) ys) = BLOCK_HEADER_SIZE + s + heap_total ys \<and>
   alloc_total (merge_abs (b, s, True) ys) = alloc_total ys \<and>
   alloc_count (merge_abs (b, s, True) ys) = alloc_count ys \<and> live (merge_abs (b, s, True) ys) = live ys"
  by (auto simp: merge_abs_def counter_defs split: list.splits bool.splits)

lemma free_abs_counters:
  "heap_total (free_abs xs (b, s, True) ys) = heap_total xs + BLOCK_HEADER_SIZE + s + heap_total ys \<and>
   alloc_total (free_abs xs (b, s, True) ys) = alloc_total xs + alloc_total ys \<and>
   alloc_count (free_abs xs (b, s, True) ys) = alloc_count xs + alloc_count ys \<and>
   live (free_abs xs (b, s, True) ys) = live xs \<union> live ys"
proof (cases "xs = [] \<or> \<not> snd (snd (last xs))")
  case True
  then show ?thesis using merge_abs_counters [of b s ys] by (auto simp: free_abs_def counter_defs)
next
  case False
  then obtain xs' p t where xs: "xs = xs' @ [(p, t, True)]"
    by (metis append_butlast_last_id prod.collapse)
  show ?thesis
    using merge_abs_counters [of b s ys] merge_abs_counters [of p t "merge_abs (b, s, True) ys"]
    unfolding xs by (auto simp: free_abs_def counter_defs)
qed

lemma free_abs_ok:
  assumes "blocks_ok (xs @ (b, s, True) # ys)"
  shows "blocks_ok (free_abs xs (b, s, True) ys) \<and> span (free_abs xs (b, s, True) ys) = span (xs @ (b, s, True) # ys)"
proof -
  have m: "blocks_ok (merge_abs (b, s, True) ys)" "span (merge_abs (b, s, True) ys) = span ((b, s, True) # ys)"
    using merge_abs_ok [of b s True ys] assms unfolding blocks_ok_append by auto
  show ?thesis
  proof (cases "xs = [] \<or> \<not> snd (snd (last xs))")
    case True
    then show ?thesis using m assms by (auto simp: free_abs_def blocks_ok_append)
  next
    case False
    then obtain xs' p t where xs: "xs = xs' @ [(p, t, True)]"
      by (metis append_butlast_last_id prod.collapse)
    have "blocks_ok ((p, t, True) # merge_abs (b, s, True) ys)"
      using m assms unfolding xs by (auto simp: blocks_ok_append blocks_ok_Cons)
    from merge_abs_ok [OF this] m assms show ?thesis
      unfolding xs by (auto simp: free_abs_def blocks_ok_append)
  qed
qed

section \<open>The invariant\<close>

text \<open>Every byte of a block lies in a page that the heap got from the page allocator.\<close>

definition page_owned :: "heap_state \<Rightarrow> nat \<Rightarrow> bool" where
  "page_owned h a \<longleftrightarrow> hhdm_offset h \<le> a \<and> (a - hhdm_offset h) div PAGE_SIZE < total_pages (hpmm h) \<and>
     \<not> page_free (hpmm h) ((a - hhdm_offset h) div PAGE_SIZE)"

definition heap_env :: "heap_state \<Rightarrow> bool" where
  "heap_env h \<longleftrightarrow> pmm_wf (hpmm h) \<and> hhdm_offset h mod PAGE_SIZE = 0 \<and>
     hhdm_offset h + total_pages (hpmm h) * PAGE_SIZE < 2 ^ 64"

definition heap_inv :: "heap_state \<Rightarrow> block list \<Rightarrow> bool" where
  "heap_inv h bs \<longleftrightarrow> heap_env h \<and> (\<exists>l. dseg (hmem h) 0 (heap_start h) bs 0 l) \<and> blocks_ok bs \<and>
     (\<forall>a \<in> span bs. page_owned h a) \<and> total_heap_size h = heap_total bs \<and>
     total_allocated h = alloc_total bs \<and> num_allocations h = alloc_count bs"

lemma owned_total_bound:
  assumes "heap_env h" "blocks_ok bs" "\<And>a. a \<in> span bs \<Longrightarrow> page_owned h a"
  shows "heap_total bs < 2 ^ 64"
proof -
  let ?o = "hhdm_offset h" and ?n = "total_pages (hpmm h) * PAGE_SIZE"
  have "span bs \<subseteq> {?o..<?o + ?n}"
  proof
    fix a assume "a \<in> span bs"
    then have "page_owned h a" by (rule assms(3))
    then show "a \<in> {?o..<?o + ?n}" by (auto simp: page_owned_def div_less_iff_less_mult)
  qed
  then have "card (span bs) \<le> card {?o..<?o + ?n}" by (intro card_mono) auto
  then show ?thesis using card_span [of bs] assms by (simp add: heap_env_def)
qed

lemma heap_total_bound: "heap_inv h bs \<Longrightarrow> heap_total bs < 2 ^ 64"
  using owned_total_bound [of h bs] by (simp add: heap_inv_def)

lemma find_fit_spec:
  "dseg m pv a bs 0 l \<Longrightarrow>
   find_fit m sz a = Some (case find (\<lambda>x. snd (snd x) \<and> fst (snd x) \<ge> sz) bs of None \<Rightarrow> 0 | Some x \<Rightarrow> fst x)"
  by (induction m pv a bs "0 :: nat" l rule: dseg.induct) (auto simp: find_fit.simps [of m sz for m])

lemma find_last_spec: "dseg m pv a bs 0 l \<Longrightarrow> bs \<noteq> [] \<Longrightarrow> find_last m a = Some l"
proof (induction m pv a bs "0 :: nat" l rule: dseg.induct)
  case (2 m pv a b s f bs l)
  then show ?case by (subst find_last.simps, cases bs) auto
qed simp

section \<open>Claiming, appending and freeing a block\<close>

lemma claim_block_spec:
  assumes inv: "heap_inv h (xs @ (b, s, True) # ys)" and sz: "sz \<le> s" "sz mod 16 = 0"
  shows "\<exists>n rest h'. claim_block b sz h = (b + BLOCK_HEADER_SIZE, h') \<and> sz \<le> n \<and> live rest = {} \<and>
    heap_inv h' (xs @ (b, n, False) # rest @ ys)"
proof -
  obtain l where d: "dseg (hmem h) 0 (heap_start h) (xs @ (b, s, True) # ys) 0 l"
    and ok: "blocks_ok (xs @ (b, s, True) # ys)"
    using inv by (auto simp: heap_inv_def)
  obtain n rest where sp: "split_abs (b, s, True) sz = (b, n, True) # rest" "sz \<le> n" "live rest = {}"
    "alloc_total rest = 0" "alloc_count rest = 0" "heap_total ((b, n, True) # rest) = BLOCK_HEADER_SIZE + s"
    using split_abs_counters [OF sz(1)] by blast
  define m where "m = split_block b sz (hmem h)"
  obtain l' where d': "dseg m 0 (heap_start h) (xs @ (b, n, True) # rest @ ys) 0 l'"
    using split_block_refines [OF d ok sz(1)] unfolding sp m_def by auto
  have "blocks_ok [(b, s, True)]" using ok by (auto simp: blocks_ok_append blocks_ok_Cons)
  note spl = split_abs_ok [OF this sz(2), unfolded sp]
  have ok': "blocks_ok (xs @ (b, n, True) # rest @ ys)"
    using blocks_ok_replace [of xs "[(b, s, True)]" ys "(b, n, True) # rest"] ok spl by auto
  then have okF: "blocks_ok (xs @ (b, n, False) # rest @ ys)"
    by (auto simp: blocks_ok_append blocks_ok_Cons region_def)
  have span: "span (xs @ (b, n, False) # rest @ ys) = span (xs @ (b, s, True) # ys)"
    using spl by (auto simp: region_def)
  have dF: "dseg (m(b := (m b)\<lparr>hb_free := False\<rparr>)) 0 (heap_start h) (xs @ (b, n, False) # rest @ ys) 0 l'"
    by (rule dseg_mark [OF d' blocks_ok_distinct [OF ok']])
  have "hb_size (m b) = n" using d' by (auto simp: dseg_append)
  moreover have "heap_total (xs @ (b, n, False) # rest @ ys) = heap_total (xs @ (b, s, True) # ys)"
    using sp(6) by (simp add: counter_defs)
  moreover have "alloc_total (xs @ (b, n, False) # rest @ ys) = alloc_total (xs @ (b, s, True) # ys) + n"
    "alloc_count (xs @ (b, n, False) # rest @ ys) = alloc_count (xs @ (b, s, True) # ys) + 1"
    using sp(4,5) by (simp_all add: counter_defs)
  moreover have "add64 b BLOCK_HEADER_SIZE = b + BLOCK_HEADER_SIZE"
    using ok by (simp add: blocks_ok_append blocks_ok_Cons add64_def)
  moreover have "heap_total (xs @ (b, s, True) # ys) < 2 ^ 64"
    by (rule heap_total_bound [OF inv])
  ultimately show ?thesis
    using inv sp(2,3) okF span dF alloc_total_le [of "xs @ (b, n, False) # rest @ ys"]
    unfolding claim_block_def m_def [symmetric] Let_def
    by (intro exI [of _ n] exI [of _ rest])
      (simp add: heap_inv_def heap_env_def page_owned_def add64_def, blast)
qed

text \<open>\<open>expand_heap\<close> gets pages no block lies in.\<close>

lemma page_of_run:
  assumes "(i :: nat) * PAGE_SIZE + off \<le> a" "a < i * PAGE_SIZE + off + n * PAGE_SIZE"
  shows "off \<le> a \<and> i \<le> (a - off) div PAGE_SIZE \<and> (a - off) div PAGE_SIZE < i + n"
proof -
  have "i * PAGE_SIZE \<le> a - off" "a - off < (i + n) * PAGE_SIZE" "off \<le> a"
    using assms by (simp_all add: add_mult_distrib)
  then show ?thesis by (simp add: div_less_iff_less_mult less_eq_div_iff_mult_less_eq)
qed

lemma expand_heap_spec:
  assumes env: "heap_env h" and sz: "sz + BLOCK_HEADER_SIZE + PAGE_SIZE \<le> 2 ^ 64"
    and ex: "expand_heap sz h = (b, h1)"
  shows "heap_env h1" "\<And>a. page_owned h a \<Longrightarrow> page_owned h1 a" "hhdm_offset h1 = hhdm_offset h"
    "b = 0 \<Longrightarrow> h1 = h\<lparr>hpmm := hpmm h1\<rparr>"
    "b \<noteq> 0 \<Longrightarrow> \<exists>n \<ge> sz. blocks_ok [(b, n, True)] \<and>
       (\<forall>a \<in> region (b, n, True). page_owned h1 a \<and> \<not> page_owned h a) \<and>
       h1 = h\<lparr>hpmm := hpmm h1, hmem := (hmem h)(b := \<lparr>hb_size = n, hb_free = True, hb_next = 0, hb_prev = 0\<rparr>),
              total_heap_size := add64 (total_heap_size h) (n + BLOCK_HEADER_SIZE)\<rparr>"
proof -
  define k where "k = (sz + BLOCK_HEADER_SIZE + (PAGE_SIZE - 1)) div PAGE_SIZE"
  obtain a0 p where al: "pmm_alloc_pages k (hpmm h) = (a0, p)" by fastforce
  have wf: "pmm_wf (hpmm h)" using env by (simp add: heap_env_def)
  note cs = pmm_alloc_pages_cases [OF wf al]
  have pw: "pmm_wf p" "total_pages p = total_pages (hpmm h)" "\<And>j. page_free p j \<Longrightarrow> page_free (hpmm h) j"
    using cs wf by (auto simp: took_run_def)
  have kk: "add64 (add64 sz BLOCK_HEADER_SIZE) (PAGE_SIZE - 1) div PAGE_SIZE = k"
    using sz by (simp add: k_def add64_def)
  note ex' = ex [unfolded expand_heap_def kk Let_def al prod.case]
  have pm: "hpmm h1 = p" "hhdm_offset h1 = hhdm_offset h" using ex' by (auto split: if_splits)
  then show "heap_env h1" "\<And>a. page_owned h a \<Longrightarrow> page_owned h1 a" "hhdm_offset h1 = hhdm_offset h"
    using env pw by (auto simp: heap_env_def page_owned_def)
  have nz: "a0 \<noteq> 0 \<Longrightarrow> add64 a0 (hhdm_offset h) = a0 + hhdm_offset h \<and>
      a0 + hhdm_offset h + k * PAGE_SIZE < 2 ^ 64"
    using cs env by (auto simp: took_run_def heap_env_def add64_def)
  show "b = 0 \<Longrightarrow> h1 = h\<lparr>hpmm := hpmm h1\<rparr>" using ex' nz by (auto split: if_splits)
  assume "b \<noteq> 0"
  then have a0: "a0 \<noteq> 0" using ex' by (auto split: if_splits)
  then obtain i where i: "a0 = i * PAGE_SIZE" "took_run (hpmm h) i k p" using cs by auto
  have b: "b = i * PAGE_SIZE + hhdm_offset h" using ex' a0 nz i by auto
  have k: "sz + BLOCK_HEADER_SIZE \<le> k * PAGE_SIZE" unfolding k_def by simp
  define n where "n = k * PAGE_SIZE - BLOCK_HEADER_SIZE"
  have n: "n + BLOCK_HEADER_SIZE = k * PAGE_SIZE" "sz \<le> n" using k by (simp_all add: n_def)
  have sub: "sub64 (k * PAGE_SIZE) BLOCK_HEADER_SIZE = n" using k by (simp add: n_def sub64_def)
  have h1: "h1 = h\<lparr>hpmm := p, hmem := (hmem h)(b := \<lparr>hb_size = n, hb_free = True, hb_next = 0, hb_prev = 0\<rparr>),
              total_heap_size := add64 (total_heap_size h) (n + BLOCK_HEADER_SIZE)\<rparr>"
    using ex' a0 sub n(1) by auto
  have "(16 :: nat) dvd hhdm_offset h" using env by (auto simp: heap_env_def intro: dvd_trans [of _ PAGE_SIZE])
  then have "b mod 16 = 0" "n mod 16 = 0" by (auto simp: b n_def mod_eq_0_iff_dvd intro!: dvd_diff_nat)
  then have ok: "blocks_ok [(b, n, True)]" using nz a0 i n(1) b by (simp add: blocks_ok_Cons)
  have "page_owned h1 a \<and> \<not> page_owned h a" if "a \<in> region (b, n, True)" for a
  proof -
    have "hhdm_offset h \<le> a \<and> i \<le> (a - hhdm_offset h) div PAGE_SIZE \<and> (a - hhdm_offset h) div PAGE_SIZE < i + k"
      using that n(1) b by (intro page_of_run) (auto simp: region_def)
    then show ?thesis using i(2) pm by (auto simp: page_owned_def took_run_def)
  qed
  with ok n(2) h1 pm show "\<exists>n \<ge> sz. blocks_ok [(b, n, True)] \<and>
       (\<forall>a \<in> region (b, n, True). page_owned h1 a \<and> \<not> page_owned h a) \<and>
       h1 = h\<lparr>hpmm := hpmm h1, hmem := (hmem h)(b := \<lparr>hb_size = n, hb_free = True, hb_next = 0, hb_prev = 0\<rparr>),
              total_heap_size := add64 (total_heap_size h) (n + BLOCK_HEADER_SIZE)\<rparr>"
    by (intro exI [of _ n]) simp
qed

lemma expand_fail:
  assumes inv: "heap_inv h bs" and sz: "sz + BLOCK_HEADER_SIZE + PAGE_SIZE \<le> 2 ^ 64"
    and ex: "expand_heap sz h = (0, h1)"
  shows "heap_inv h1 bs"
proof -
  note sp = expand_heap_spec [OF _ sz ex]
  have env: "heap_env h" using inv by (simp add: heap_inv_def)
  obtain p where h1: "h1 = h\<lparr>hpmm := p\<rparr>" using sp(4) [OF env] by auto
  show ?thesis using inv sp(1,2) [OF env] by (auto simp: heap_inv_def h1)
qed

lemma expand_append:
  assumes inv: "heap_inv h bs" and sz: "sz + BLOCK_HEADER_SIZE + PAGE_SIZE \<le> 2 ^ 64"
    and ex: "expand_heap sz h = (b, h1)" and b: "b \<noteq> 0"
  shows "\<exists>n h2. sz \<le> n \<and> append_block b h1 = Some h2 \<and> heap_inv h2 (bs @ [(b, n, True)])"
proof -
  have env: "heap_env h" using inv by (simp add: heap_inv_def)
  note sp = expand_heap_spec [OF env sz ex]
  obtain n where n: "sz \<le> n" "blocks_ok [(b, n, True)]"
    "\<And>a. a \<in> region (b, n, True) \<Longrightarrow> page_owned h1 a \<and> \<not> page_owned h a"
    "h1 = h\<lparr>hpmm := hpmm h1, hmem := (hmem h)(b := \<lparr>hb_size = n, hb_free = True, hb_next = 0, hb_prev = 0\<rparr>),
              total_heap_size := add64 (total_heap_size h) (n + BLOCK_HEADER_SIZE)\<rparr>"
    using sp(5) [OF b] by blast
  obtain l where d: "dseg (hmem h) 0 (heap_start h) bs 0 l" using inv by (auto simp: heap_inv_def)
  have disj: "span bs \<inter> region (b, n, True) = {}" using n(3) inv by (auto simp: heap_inv_def)
  have ok: "blocks_ok (bs @ [(b, n, True)])" using n(2) disj inv by (simp add: blocks_ok_append heap_inv_def)
  have fresh: "b \<notin> fst ` set bs" "distinct (map fst bs)" using blocks_ok_distinct [OF ok] by auto
  have owned: "page_owned h1 a" if "a \<in> span (bs @ [(b, n, True)])" for a
    using that n(3) sp(2) inv by (auto simp: heap_inv_def)
  have total: "add64 (total_heap_size h) (n + BLOCK_HEADER_SIZE) = heap_total (bs @ [(b, n, True)])"
    using owned_total_bound [OF sp(1) ok owned] inv by (simp add: counter_defs heap_inv_def add64_def)
  have d1: "dseg (hmem h1) 0 (heap_start h) bs 0 l" using d fresh by (subst n(4)) simp
  have hb: "hmem h1 b = \<lparr>hb_size = n, hb_free = True, hb_next = 0, hb_prev = 0\<rparr>" by (subst n(4)) simp
  have "\<exists>m s l'. append_block b h1 = Some (h1\<lparr>hmem := m, heap_start := s\<rparr>) \<and> dseg m 0 s (bs @ [(b, n, True)]) 0 l'"
  proof (cases "bs = []")
    case True
    then have "heap_start h1 = 0" using d by (subst n(4)) simp
    then show ?thesis
      using b True hb by (intro exI [of _ "hmem h1"] exI [of _ b]) (simp add: append_block_def)
  next
    case False
    let ?m = "(hmem h1)(l := (hmem h1 l)\<lparr>hb_next := b\<rparr>)"
    have l: "l \<in> fst ` set bs" using dseg_last [OF d] False by simp
    have "heap_start h1 = heap_start h" by (subst n(4)) simp
    moreover have "heap_start h \<noteq> 0" using dseg_head [OF d False] by simp
    moreover have "dseg ?m 0 (heap_start h) bs b l" by (rule dseg_set_next [OF d1 False fresh(2)])
    ultimately show ?thesis
      using find_last_spec [OF d1 False] fresh l b hb
      by - (rule exI [of _ "?m(b := (?m b)\<lparr>hb_prev := l\<rparr>)"], rule exI [of _ "heap_start h"], rule exI [of _ b],
          auto simp: append_block_def dseg_append)
  qed
  then obtain m s l' where ap: "append_block b h1 = Some (h1\<lparr>hmem := m, heap_start := s\<rparr>)"
    "dseg m 0 s (bs @ [(b, n, True)]) 0 l'" by blast
  have "heap_inv (h1\<lparr>hmem := m, heap_start := s\<rparr>) (bs @ [(b, n, True)])"
  proof -
    have "total_heap_size h1 = heap_total (bs @ [(b, n, True)])" by (subst n(4)) (simp add: total)
    moreover have "total_allocated h1 = alloc_total (bs @ [(b, n, True)])"
      "num_allocations h1 = alloc_count (bs @ [(b, n, True)])"
      using inv by (subst n(4), simp add: heap_inv_def counter_defs)+
    ultimately show ?thesis
      using ok owned sp(1) ap(2) by (auto simp: heap_inv_def heap_env_def page_owned_def)
  qed
  then show ?thesis using n(1) ap(1) by blast
qed

section \<open>The public functions\<close>

lemma align_size_spec:
  assumes "sz + 15 < 2 ^ 64"
  shows "sz \<le> align_size sz" "align_size sz \<le> sz + 15" "align_size sz mod 16 = 0"
  using assms by (auto simp: align_size_def add64_def)

lemma live_payload: "(q, k) \<in> live bs \<Longrightarrow> {q..<q + k} \<subseteq> span bs"
  by (auto simp: live_def span_def region_def)

text \<open>What a successful allocation gives: an aligned payload of at least the size asked for, apart from
  all allocations there were.\<close>

definition granted :: "nat \<Rightarrow> nat \<Rightarrow> block list \<Rightarrow> block list \<Rightarrow> bool" where
  "granted sz ptr bs bs' \<longleftrightarrow> (\<exists>n \<ge> sz. ptr mod 16 = 0 \<and> live bs' = insert (ptr, n) (live bs) \<and>
     (\<forall>(q, k) \<in> live bs. {ptr..<ptr + n} \<inter> {q..<q + k} = {}))"

lemma granted_intro:
  assumes ok: "blocks_ok (xs @ (b, n, False) # rest @ ys)" and sz: "sz \<le> n" and rest: "live rest = {}"
    and bs: "live bs = live xs \<union> live ys"
  shows "granted sz (b + BLOCK_HEADER_SIZE) bs (xs @ (b, n, False) # rest @ ys)"
proof -
  have r: "{b + BLOCK_HEADER_SIZE..<b + BLOCK_HEADER_SIZE + n} \<subseteq> region (b, n, False)" by (auto simp: region_def)
  have dis: "region (b, n, False) \<inter> span (xs @ ys) = {}"
    using ok unfolding blocks_ok_append blocks_ok_Cons span_simps by blast
  have "{b + BLOCK_HEADER_SIZE..<b + BLOCK_HEADER_SIZE + n} \<inter> {q..<q + k} = {}" if "(q, k) \<in> live bs" for q k
  proof -
    have "(q, k) \<in> live (xs @ ys)" using that bs by simp
    with live_payload [of q k "xs @ ys"] r dis show ?thesis by blast
  qed
  moreover have "(b + BLOCK_HEADER_SIZE) mod 16 = 0"
    using ok unfolding blocks_ok_append blocks_ok_Cons by (auto simp: mod_eq_0_iff_dvd)
  ultimately show ?thesis using sz bs rest by (auto simp: granted_def)
qed

lemma kmalloc_spec:
  assumes inv: "heap_inv h bs" and sz0: "sz0 + 2 * PAGE_SIZE \<le> 2 ^ 64"
  shows "\<exists>ptr h' bs'. kmalloc sz0 h = Some (ptr, h') \<and> heap_inv h' bs' \<and> hdata h' = hdata h \<and>
    (if ptr = 0 then bs' = bs \<and> (sz0 = 0 \<or> (\<forall>(b, s, f) \<in> set bs. f \<longrightarrow> s < align_size sz0))
     else sz0 \<noteq> 0 \<and> granted sz0 ptr bs bs')"
proof (cases "sz0 = 0")
  case True
  then show ?thesis using inv by (auto simp: kmalloc_def)
next
  case False
  define sz where "sz = align_size sz0"
  have sz: "sz0 \<le> sz" "sz + BLOCK_HEADER_SIZE + PAGE_SIZE \<le> 2 ^ 64" "sz mod 16 = 0"
    using align_size_spec [of sz0] sz0 by (auto simp: sz_def)
  obtain l where d: "dseg (hmem h) 0 (heap_start h) bs 0 l" using inv by (auto simp: heap_inv_def)
  let ?fit = "\<lambda>x. snd (snd x) \<and> fst (snd x) \<ge> sz"
  note ff = find_fit_spec [OF d, of sz]
  show ?thesis
  proof (cases "find ?fit bs")
    case (Some x)
    obtain b s f where x: "x = (b, s, f)" by (cases x) auto
    have "?fit x \<and> x \<in> set bs" using Some by (auto simp: find_Some_iff)
    then have f: "f" "sz \<le> s" "(b, s, f) \<in> set bs" unfolding x by auto
    then obtain xs ys where bs: "bs = xs @ (b, s, True) # ys" by (metis (full_types) split_list)
    have b: "b \<noteq> 0" using dseg_in [OF d f(3)] by simp
    obtain n rest h' where c: "claim_block b sz h = (b + BLOCK_HEADER_SIZE, h')" "sz \<le> n" "live rest = {}"
      "heap_inv h' (xs @ (b, n, False) # rest @ ys)"
      using claim_block_spec [OF inv [unfolded bs] f(2) sz(3)] by blast
    have "hdata h' = hdata h" using c(1) by (auto simp: claim_block_def Let_def)
    moreover have "granted sz0 (b + BLOCK_HEADER_SIZE) bs (xs @ (b, n, False) # rest @ ys)"
      using c sz(1) by (intro granted_intro) (auto simp: heap_inv_def bs)
    moreover have "kmalloc sz0 h = Some (b + BLOCK_HEADER_SIZE, h')"
      using False ff Some x b c(1) by (simp add: kmalloc_def sz_def [symmetric] Let_def)
    ultimately show ?thesis using c(4) False by (intro exI [of _ "b + BLOCK_HEADER_SIZE"]) auto
  next
    case None
    then have none: "\<forall>(b, s, f) \<in> set bs. f \<longrightarrow> s < sz" by (force simp: find_None_iff)
    obtain b h1 where ex: "expand_heap sz h = (b, h1)" by fastforce
    have hd1: "hdata h1 = hdata h" using ex by (auto simp: expand_heap_def Let_def split: prod.splits if_splits)
    have km: "kmalloc sz0 h = (if b = 0 then Some (0, h1) else case append_block b h1 of None \<Rightarrow> None
        | Some h2 \<Rightarrow> Some (claim_block b sz h2))"
      using False ff None ex by (simp add: kmalloc_def sz_def [symmetric] Let_def)
    show ?thesis
    proof (cases "b = 0")
      case True
      then show ?thesis using expand_fail [OF inv sz(2)] ex km none hd1 by (auto simp: sz_def)
    next
      case b: False
      obtain n h2 where ap: "sz \<le> n" "append_block b h1 = Some h2" "heap_inv h2 (bs @ [(b, n, True)])"
        using expand_append [OF inv sz(2) ex b] by blast
      obtain k rest h' where c: "claim_block b sz h2 = (b + BLOCK_HEADER_SIZE, h')" "sz \<le> k" "live rest = {}"
        "heap_inv h' (bs @ (b, k, False) # rest @ [])"
        using claim_block_spec [OF ap(3) ap(1) sz(3)] by blast
      have "granted sz0 (b + BLOCK_HEADER_SIZE) bs (bs @ (b, k, False) # rest @ [])"
        using c sz(1) by (intro granted_intro) (auto simp: heap_inv_def)
      moreover have "hdata h' = hdata h"
        using c(1) ap(2) hd1 by (auto simp: claim_block_def append_block_def Let_def split: option.splits if_splits)
      ultimately show ?thesis using km b ap(2) c False by (intro exI [of _ "b + BLOCK_HEADER_SIZE"]) auto
    qed
  qed
qed

lemma merge_free_blocks_refines:
  assumes d: "dseg m 0 st (xs @ (b, s, True) # ys) 0 l" and ok: "blocks_ok (xs @ (b, s, True) # ys)"
  shows "\<exists>l'. dseg (merge_free_blocks b m) 0 st (free_abs xs (b, s, True) ys) 0 l'"
proof -
  have b: "b \<noteq> 0" using d by (auto simp: dseg_append)
  define m1 where "m1 = merge_next b m"
  obtain t zs where mz: "merge_abs (b, s, True) ys = (b, t, True) # zs" using merge_abs_head by blast
  obtain l1 where d1: "dseg m1 0 st (xs @ (b, t, True) # zs) 0 l1"
    using merge_next_refines [OF d ok] unfolding m1_def mz by blast
  have ok1: "blocks_ok (xs @ (b, t, True) # zs)"
    using merge_abs_ok [of b s True ys] ok unfolding mz blocks_ok_append by auto
  have eq: "merge_free_blocks b m = merge_prev b m1" using b by (simp add: merge_free_blocks_def m1_def)
  show ?thesis
  proof (cases xs rule: rev_cases)
    case Nil
    then have "hb_prev (m1 b) = 0" using d1 by simp
    then show ?thesis using d1 Nil unfolding eq by (auto simp: merge_prev_first free_abs_def mz)
  next
    case (snoc xs' x)
    obtain p tp fp where x: "x = (p, tp, fp)" by (cases x) auto
    have link: "hb_prev (m1 b) = p" "hb_next (m1 p) = b" "hb_free (m1 b)" "hb_free (m1 p) = fp" "p \<noteq> 0"
      using d1 unfolding snoc x by (auto simp: dseg_append)
    have "p \<noteq> b" using blocks_ok_distinct [OF ok1] unfolding snoc x by auto
    then have mp: "merge_prev b m1 = (if fp then merge_next p m1 else m1)"
      using merge_prev_next [of m1 b p] link b by simp
    show ?thesis
    proof (cases fp)
      case True
      have "\<exists>l'. dseg (merge_next p m1) 0 st (xs' @ merge_abs (p, tp, fp) ((b, t, True) # zs)) 0 l'"
        by (rule merge_next_refines) (use d1 ok1 snoc x in auto)
      then show ?thesis using True snoc x unfolding eq mp by (simp add: free_abs_def mz)
    next
      case False
      then show ?thesis using d1 snoc x unfolding eq mp by (auto simp: free_abs_def mz)
    qed
  qed
qed

lemma kfree_spec:
  assumes inv: "heap_inv h (xs @ (b, s, False) # ys)"
  shows "heap_inv (kfree (b + BLOCK_HEADER_SIZE) h) (free_abs xs (b, s, True) ys)"
proof -
  obtain l where d: "dseg (hmem h) 0 (heap_start h) (xs @ (b, s, False) # ys) 0 l"
    and ok: "blocks_ok (xs @ (b, s, False) # ys)"
    using inv by (auto simp: heap_inv_def)
  let ?m = "(hmem h)(b := (hmem h b)\<lparr>hb_free := True\<rparr>)"
  have hb: "hb_size (hmem h b) = s" "\<not> hb_free (hmem h b)" using dseg_in [OF d, of b s False] by auto
  have d1: "dseg ?m 0 (heap_start h) (xs @ (b, s, True) # ys) 0 l"
    by (rule dseg_mark [OF d blocks_ok_distinct [OF ok]])
  have ok1: "blocks_ok (xs @ (b, s, True) # ys)"
    using ok by (auto simp: blocks_ok_append blocks_ok_Cons region_def)
  obtain l' where d2: "dseg (merge_free_blocks b ?m) 0 (heap_start h) (free_abs xs (b, s, True) ys) 0 l'"
    using merge_free_blocks_refines [OF d1 ok1] by blast
  have "region (b, s, True) = region (b, s, False)" by (simp add: region_def)
  then have sp: "blocks_ok (free_abs xs (b, s, True) ys)"
    "span (free_abs xs (b, s, True) ys) = span (xs @ (b, s, False) # ys)"
    using free_abs_ok [OF ok1] by simp_all
  have kf: "kfree (b + BLOCK_HEADER_SIZE) h = h\<lparr>hmem := merge_free_blocks b ?m,
      total_allocated := sub64 (total_allocated h) s, num_allocations := sub64 (num_allocations h) 1\<rparr>"
    using hb by (simp add: kfree_def sub64_def Let_def)
  have "total_allocated h = alloc_total xs + s + alloc_total ys" "num_allocations h = alloc_count xs + 1 + alloc_count ys"
    "total_heap_size h = heap_total xs + BLOCK_HEADER_SIZE + s + heap_total ys"
    using inv by (simp_all add: heap_inv_def counter_defs)
  then show ?thesis
    using inv d2 sp free_abs_counters [of xs b s ys] unfolding kf
    by (auto simp: heap_inv_def heap_env_def page_owned_def sub64_def)
qed

lemma live_obtain:
  assumes "(ptr, n) \<in> live bs"
  obtains xs b ys where "bs = xs @ (b, n, False) # ys" "ptr = b + BLOCK_HEADER_SIZE"
proof -
  obtain b where "ptr = b + BLOCK_HEADER_SIZE" "(b, n, False) \<in> set bs" using assms by (auto simp: live_def)
  then show ?thesis using that by (metis split_list)
qed

lemma kfree_live:
  assumes inv: "heap_inv h bs" and live: "(ptr, n) \<in> live bs"
  shows "\<exists>bs'. heap_inv (kfree ptr h) bs' \<and> live bs' = live bs - {(ptr, n)}"
proof -
  obtain xs b ys where bs: "bs = xs @ (b, n, False) # ys" "ptr = b + BLOCK_HEADER_SIZE"
    using live_obtain [OF live] .
  have "distinct (map fst bs)" using inv by (auto simp: heap_inv_def blocks_ok_distinct)
  then have "(ptr, n) \<notin> live xs \<union> live ys" unfolding bs by (force simp: live_def)
  then show ?thesis
    using kfree_spec [OF inv [unfolded bs(1)]] free_abs_counters [of xs b n ys] unfolding bs by auto
qed

lemma heap_init_spec:
  assumes env: "heap_env h" and h: "total_heap_size h = 0" "total_allocated h = 0" "num_allocations h = 0"
  shows "\<exists>bs. heap_inv (heap_init h) bs \<and> live bs = {}"
proof -
  let ?h = "h\<lparr>heap_start := 0\<rparr>"
  have inv: "heap_inv ?h []" using env h by (auto simp: heap_inv_def heap_env_def counter_defs)
  obtain b h1 where ex: "expand_heap (PAGE_SIZE * 4) ?h = (b, h1)" by fastforce
  have init: "heap_init h = h1\<lparr>heap_start := b\<rparr>"
    using ex by (auto simp: heap_init_def expand_heap_def Let_def split: prod.splits if_splits)
  show ?thesis
  proof (cases "b = 0")
    case True
    then have "heap_inv h1 []" using expand_fail [OF inv, of "PAGE_SIZE * 4" h1] ex by simp
    moreover have "h1\<lparr>heap_start := 0\<rparr> = h1" using calculation by (auto simp: heap_inv_def)
    ultimately show ?thesis unfolding init True by (intro exI [of _ "[]"]) simp
  next
    case False
    obtain n h2 where "append_block b h1 = Some h2" "heap_inv h2 [(b, n, True)]"
      using expand_append [OF inv _ ex False] by fastforce
    moreover have "heap_start h1 = 0"
      using ex by (auto simp: expand_heap_def Let_def split: prod.splits if_splits)
    ultimately show ?thesis unfolding init by (intro exI [of _ "[(b, n, True)]"]) (auto simp: append_block_def)
  qed
qed

lemma krealloc_spec:
  assumes inv: "heap_inv h bs" and live: "(ptr, n) \<in> live bs" and sz: "0 < sz" "sz + 2 * PAGE_SIZE \<le> 2 ^ 64"
  shows "\<exists>ptr' h' bs'. krealloc ptr sz h = Some (ptr', h') \<and> heap_inv h' bs' \<and>
    (if ptr' = 0 then live bs' = live bs \<and> hdata h' = hdata h
     else (\<exists>n' \<ge> sz. live bs' = insert (ptr', n') (live bs - {(ptr, n)})) \<and>
          (\<forall>i < min n sz. hdata h' (ptr' + i) = hdata h (ptr + i)) \<and>
          (\<forall>(q, k) \<in> live bs - {(ptr, n)}. \<forall>i < k. hdata h' (q + i) = hdata h (q + i)))"
proof -
  obtain xs b ys where bs: "bs = xs @ (b, n, False) # ys" "ptr = b + BLOCK_HEADER_SIZE"
    using live_obtain [OF live] .
  obtain l where "dseg (hmem h) 0 (heap_start h) bs 0 l" using inv by (auto simp: heap_inv_def)
  from dseg_in [OF this] have hb: "hb_size (hmem h b) = n" by (auto simp: bs)
  have old: "hb_size (hmem h (sub64 ptr BLOCK_HEADER_SIZE)) = n" "ptr \<noteq> 0" using hb bs by (auto simp: sub64_def)
  obtain np h1 bs1 where km: "kmalloc sz h = Some (np, h1)" "heap_inv h1 bs1" "hdata h1 = hdata h"
    and res: "if np = 0 then bs1 = bs else granted sz np bs bs1"
    using kmalloc_spec [OF inv sz(2)] by metis
  show ?thesis
  proof (cases "align_size sz \<le> n")
    case True
    then have "krealloc ptr sz h = Some (ptr, h)" using old sz by (simp add: krealloc_def)
    moreover have "sz \<le> n" using True align_size_spec(1) [of sz] sz(2) by simp
    ultimately show ?thesis using inv live old(2)
      by (intro exI [of _ ptr] exI [of _ h] exI [of _ bs]) auto
  next
    case False
    show ?thesis
    proof (cases "np = 0")
      case True
      then have "krealloc ptr sz h = Some (0, h1)" using False old sz km by (simp add: krealloc_def)
      then show ?thesis using True km res by (intro exI [of _ 0] exI [of _ h1] exI [of _ bs]) auto
    next
      case np: False
      then obtain n' where g: "n' \<ge> sz" "live bs1 = insert (np, n') (live bs)"
        and dis: "\<And>q k. (q, k) \<in> live bs \<Longrightarrow> {np..<np + n'} \<inter> {q..<q + k} = {}"
        using res by (fastforce simp: granted_def)
      let ?c = "min n sz"
      let ?h2 = "h1\<lparr>hdata := memcpy_data np ptr ?c (hdata h1)\<rparr>"
      have "heap_inv ?h2 bs1" using km(2) by (simp add: heap_inv_def heap_env_def page_owned_def)
      moreover have "(ptr, n) \<in> live bs1" using g live by simp
      ultimately obtain bs2 where f: "heap_inv (kfree ptr ?h2) bs2" "live bs2 = live bs1 - {(ptr, n)}"
        using kfree_live by blast
      have data: "hdata (kfree ptr ?h2) = memcpy_data np ptr ?c (hdata h)"
        using km(3) by (simp add: kfree_def Let_def)
      have kr: "krealloc ptr sz h = Some (np, kfree ptr ?h2)"
        using False old sz km np by (simp add: krealloc_def min_def Let_def)
      have "(np, n') \<noteq> (ptr, n)"
        using dis [OF live] False g(1) sz by auto
      then have "live bs2 = insert (np, n') (live bs - {(ptr, n)})" using f(2) g(2) by auto
      moreover have "hdata (kfree ptr ?h2) (q + i) = hdata h (q + i)"
        if "(q, k) \<in> live bs - {(ptr, n)}" "i < k" for q k i
      proof -
        have "q + i \<notin> {np..<np + n'}" using dis [of q k] that by auto
        then show ?thesis using g(1) unfolding data by (auto simp: memcpy_data_def)
      qed
      moreover have "hdata (kfree ptr ?h2) (np + i) = hdata h (ptr + i)" if "i < ?c" for i
        using that unfolding data by (simp add: memcpy_data_def)
      ultimately show ?thesis using kr f(1) g(1) np
        by (intro exI [of _ np] exI [of _ "kfree ptr ?h2"] exI [of _ bs2]) auto
    qed
  qed
qed

section \<open>The heap as an interface\<close>

text \<open>A client that keeps the pointers it is given and frees them by position.\<close>

datatype heap_op = Malloc nat | Free nat

fun heap_session :: "(nat \<Rightarrow> 's \<Rightarrow> (nat \<times> 's) option) \<Rightarrow> (nat \<Rightarrow> 's \<Rightarrow> 's) \<Rightarrow> heap_op list \<Rightarrow>
    's \<times> nat list \<Rightarrow> ('s \<times> nat list) option" where
  "heap_session malloc free [] c = Some c"
| "heap_session malloc free (Malloc n # ops) c =
     (case malloc n (fst c) of None \<Rightarrow> None
      | Some (p, s) \<Rightarrow> heap_session malloc free ops (s, if p = 0 then snd c else snd c @ [p]))"
| "heap_session malloc free (Free i # ops) c =
     (if i < length (snd c)
      then heap_session malloc free ops (free (snd c ! i) (fst c), take i (snd c) @ drop (Suc i) (snd c))
      else heap_session malloc free ops c)"

definition apart :: "(nat \<times> nat) set \<Rightarrow> bool" where
  "apart L \<longleftrightarrow> (\<forall>(p, n) \<in> L. \<forall>(q, k) \<in> L. p \<noteq> q \<longrightarrow> {p..<p + n} \<inter> {q..<q + k} = {})"

lemma remove_nth:
  assumes "i < length ps" "distinct ps"
  shows "set (take i ps @ drop (Suc i) ps) = set ps - {ps ! i} \<and> distinct (take i ps @ drop (Suc i) ps)"
proof -
  obtain us x vs where ps: "ps = us @ x # vs" "length us = i"
    using id_take_nth_drop [OF assms(1)] assms(1) by (metis length_take min.absorb4)
  show ?thesis using assms(2) unfolding ps(1) ps(2) [symmetric] by auto
qed

locale block_allocator =
  fixes holds :: "'s \<Rightarrow> (nat \<times> nat) set \<Rightarrow> bool"
    and malloc :: "nat \<Rightarrow> 's \<Rightarrow> (nat \<times> 's) option" and free :: "nat \<Rightarrow> 's \<Rightarrow> 's" and limit :: nat
  assumes malloc_ok: "holds s L \<Longrightarrow> n \<le> limit \<Longrightarrow> \<exists>p s' L'. malloc n s = Some (p, s') \<and> holds s' L' \<and>
      (if p = 0 then L' = L else (\<exists>k \<ge> n. L' = insert (p, k) L) \<and> p \<notin> fst ` L)"
    and free_ok: "holds s L \<Longrightarrow> (p, n) \<in> L \<Longrightarrow> holds (free p s) (L - {(p, n)})"
    and holds_apart: "holds s L \<Longrightarrow> apart L"
    and holds_inj: "holds s L \<Longrightarrow> inj_on fst L"
begin

lemma session_safe:
  assumes "holds s L" "fst ` L = set ps" "distinct ps" "\<forall>n. Malloc n \<in> set ops \<longrightarrow> n \<le> limit"
  shows "\<exists>s' ps' L'. heap_session malloc free ops (s, ps) = Some (s', ps') \<and> holds s' L' \<and>
    fst ` L' = set ps' \<and> distinct ps' \<and> apart L'"
  using assms
proof (induction ops arbitrary: s L ps)
  case Nil
  then show ?case using holds_apart by auto
next
  case (Cons op ops)
  show ?case
  proof (cases op)
    case (Malloc n)
    have "n \<le> limit" using Cons.prems(4) Malloc by simp
    from malloc_ok [OF Cons.prems(1) this] obtain p s1 L1 where m: "malloc n s = Some (p, s1)" "holds s1 L1"
      "if p = 0 then L1 = L else (\<exists>k \<ge> n. L1 = insert (p, k) L) \<and> p \<notin> fst ` L" by (elim exE conjE)
    let ?q = "if p = 0 then ps else ps @ [p]"
    have q: "fst ` L1 = set ?q" "distinct ?q" using m(3) Cons.prems(2,3) by (auto split: if_splits)
    have "heap_session malloc free (op # ops) (s, ps) = heap_session malloc free ops (s1, ?q)"
      using m(1) Malloc by simp
    then show ?thesis using Cons.IH [OF m(2) q] Cons.prems(4) by simp
  next
    case (Free i)
    show ?thesis
    proof (cases "i < length ps")
      case True
      then have "ps ! i \<in> fst ` L" unfolding Cons.prems(2) by (rule nth_mem)
      then obtain n where n: "(ps ! i, n) \<in> L" by auto
      let ?q = "take i ps @ drop (Suc i) ps"
      have "fst ` (L - {(ps ! i, n)}) = fst ` L - {ps ! i}"
        using inj_on_image_set_diff [OF holds_inj [OF Cons.prems(1)], of L "{(ps ! i, n)}"] n by simp
      then have "fst ` (L - {(ps ! i, n)}) = set ?q" "distinct ?q"
        using remove_nth [OF True Cons.prems(3)] Cons.prems(2) by simp_all
      note IH = Cons.IH [OF free_ok [OF Cons.prems(1) n] this]
      have "heap_session malloc free (op # ops) (s, ps) = heap_session malloc free ops (free (ps ! i) s, ?q)"
        using True Free by simp
      then show ?thesis using IH Cons.prems(4) by simp
    next
      case False
      then have "heap_session malloc free (op # ops) (s, ps) = heap_session malloc free ops (s, ps)"
        using Free by simp
      then show ?thesis using Cons.IH [OF Cons.prems(1-3)] Cons.prems(4) by simp
    qed
  qed
qed

end

definition heap_holds :: "heap_state \<Rightarrow> (nat \<times> nat) set \<Rightarrow> bool" where
  "heap_holds h L \<longleftrightarrow> (\<exists>bs. heap_inv h bs \<and> L = live bs)"

lemma blocks_ok_pairs:
  "blocks_ok bs \<Longrightarrow> x \<in> set bs \<Longrightarrow> y \<in> set bs \<Longrightarrow> fst x \<noteq> fst y \<Longrightarrow> region x \<inter> region y = {}"
  by (induction bs) (auto simp: blocks_ok_def)

lemma live_apart: "blocks_ok bs \<Longrightarrow> apart (live bs)"
proof -
  assume ok: "blocks_ok bs"
  have "{b + BLOCK_HEADER_SIZE..<b + BLOCK_HEADER_SIZE + s} \<inter> {c + BLOCK_HEADER_SIZE..<c + BLOCK_HEADER_SIZE + t} = {}"
    if "(b, s, False) \<in> set bs" "(c, t, False) \<in> set bs" "b \<noteq> c" for b s c t
    using blocks_ok_pairs [OF ok that(1,2)] that(3) by (auto simp: region_def)
  then show "apart (live bs)" by (fastforce simp: apart_def live_def)
qed

lemma live_inj: "blocks_ok bs \<Longrightarrow> inj_on fst (live bs)"
  using blocks_ok_distinct [of bs] by (auto simp: inj_on_def live_def dest: eq_key_imp_eq_value)

interpretation kh: block_allocator heap_holds kmalloc kfree "2 ^ 64 - 2 * PAGE_SIZE"
proof
  fix s L n assume "heap_holds s L" and n: "n \<le> 2 ^ 64 - 2 * PAGE_SIZE"
  then obtain bs where bs: "heap_inv s bs" "L = live bs" by (auto simp: heap_holds_def)
  have "n + 2 * PAGE_SIZE \<le> 2 ^ 64" using n by simp
  from kmalloc_spec [OF bs(1) this] obtain p s' bs' where k: "kmalloc n s = Some (p, s')" "heap_inv s' bs'"
    "if p = 0 then bs' = bs else n \<noteq> 0 \<and> granted n p bs bs'" by metis
  have "p \<notin> fst ` live bs" if "granted n p bs bs'" "n \<noteq> 0"
  proof
    assume "p \<in> fst ` live bs"
    then obtain k where "(p, k) \<in> live bs" by auto
    with that live_inj [of bs'] k(2) show False by (fastforce simp: granted_def heap_inv_def inj_on_def)
  qed
  then show "\<exists>p s' L'. kmalloc n s = Some (p, s') \<and> heap_holds s' L' \<and>
      (if p = 0 then L' = L else (\<exists>k \<ge> n. L' = insert (p, k) L) \<and> p \<notin> fst ` L)"
    using k bs by (intro exI [of _ p] exI [of _ s'] exI [of _ "live bs'"])
      (auto simp: heap_holds_def granted_def split: if_splits)
next
  fix s L p n assume "heap_holds s L" "(p, n) \<in> L"
  then show "heap_holds (kfree p s) (L - {(p, n)})" using kfree_live by (fastforce simp: heap_holds_def)
next
  fix s L assume "heap_holds s L"
  then show "apart L" "inj_on fst L"
    using live_apart live_inj by (auto simp: heap_holds_def heap_inv_def)
qed

section \<open>Properties\<close>

definition heap_boot :: heap_state where
  "heap_boot = \<lparr>hmem = (\<lambda>_. \<lparr>hb_size = 0, hb_free = False, hb_next = 0, hb_prev = 0\<rparr>), hdata = (\<lambda>_. 0),
     heap_start = 0, total_heap_size = 0, total_allocated = 0, num_allocations = 0, hpmm = example_pmm,
     hhdm_offset = 0\<rparr>"

text \<open>One page, split into an allocation of 64 bytes and a free rest.\<close>

definition heap_example :: heap_state where
  "heap_example = heap_boot\<lparr>hmem := (hmem heap_boot)
       (4096 := \<lparr>hb_size = 64, hb_free = False, hb_next = 4192, hb_prev = 0\<rparr>,
        4192 := \<lparr>hb_size = 3968, hb_free = True, hb_next = 0, hb_prev = 4096\<rparr>),
     heap_start := 4096, total_heap_size := 4096, total_allocated := 64, num_allocations := 1\<rparr>"

lemma heap_env_boot: "heap_env heap_boot"
  using example_pmm_wf by (simp add: heap_env_def heap_boot_def example_pmm_def)

lemma heap_example_inv: "heap_inv heap_example [(4096, 64, False), (4192, 3968, True)]"
proof -
  have "page_owned heap_example a" if "4096 \<le> a" "a < 8192" for a
  proof -
    have "a div PAGE_SIZE = 1" using that by (intro div_nat_eqI) auto
    then show ?thesis
      using example_pmm_bits [of 1]
      by (simp add: page_owned_def heap_example_def heap_boot_def page_free_def example_pmm_def bitmap_test_def)
  qed
  moreover have "heap_env heap_example" using heap_env_boot by (simp add: heap_env_def heap_example_def)
  ultimately show ?thesis
    by (auto simp: heap_inv_def blocks_ok_Cons region_def counter_defs) (auto simp: heap_example_def heap_boot_def)
qed

text \<open>C26: on a well-formed heap, for a size of at most \<open>2 ^ 64 - 8192\<close>, \<open>kmalloc\<close> returns, keeps the invariant, and gives either
  the null pointer, with no free block large enough and nothing taken from any client, or a 16-byte aligned payload of at
  least the size asked for that overlaps no live allocation. The bound keeps the sums in \<open>align_size\<close>, \<open>expand_heap\<close> and
  \<open>split_block\<close> from wrapping around, which the code does not check.\<close>

theorem kmalloc_correct:
  assumes "heap_inv h bs" and "sz + 2 * PAGE_SIZE \<le> 2 ^ 64"
  shows "\<exists>ptr h' bs'. kmalloc sz h = Some (ptr, h') \<and> heap_inv h' bs' \<and> hdata h' = hdata h \<and>
    (if ptr = 0 then bs' = bs \<and> (sz = 0 \<or> (\<forall>(b, s, f) \<in> set bs. f \<longrightarrow> s < align_size sz))
     else sz \<noteq> 0 \<and> granted sz ptr bs bs')"
  by (rule kmalloc_spec [OF assms])

theorem kmalloc_correct_witness:
  "\<exists>ptr h' bs'. kmalloc 100 heap_example = Some (ptr, h') \<and> heap_inv h' bs' \<and> ptr \<noteq> 0 \<and>
     granted 100 ptr [(4096, 64, False), (4192, 3968, True)] bs'"
  using kmalloc_correct [OF heap_example_inv, of 100] by (auto simp: align_size_def add64_def split: if_splits)

text \<open>C27: \<open>kfree\<close> of a live allocation keeps the invariant, with its merging of neighbours, and ends
  exactly that allocation.\<close>

theorem kfree_correct:
  assumes "heap_inv h bs" and "(ptr, n) \<in> live bs"
  shows "\<exists>bs'. heap_inv (kfree ptr h) bs' \<and> live bs' = live bs - {(ptr, n)}"
  by (rule kfree_live [OF assms])

theorem kfree_correct_witness: "\<exists>bs'. heap_inv (kfree 4128 heap_example) bs' \<and> live bs' = {}"
  using kfree_correct [OF heap_example_inv, of 4128 64] by simp

text \<open>C28: \<open>krealloc\<close> of a live allocation to a size from 1 to \<open>2 ^ 64 - 8192\<close> returns, and unless it returns null it trades the
  allocation for one of at least the new size with the old contents, leaving the contents of all others alone. The upper
  bound is the one of \<open>kmalloc\<close>.\<close>

theorem krealloc_correct:
  assumes "heap_inv h bs" and "(ptr, n) \<in> live bs" and "0 < sz" and "sz + 2 * PAGE_SIZE \<le> 2 ^ 64"
  shows "\<exists>ptr' h' bs'. krealloc ptr sz h = Some (ptr', h') \<and> heap_inv h' bs' \<and>
    (if ptr' = 0 then live bs' = live bs \<and> hdata h' = hdata h
     else (\<exists>n' \<ge> sz. live bs' = insert (ptr', n') (live bs - {(ptr, n)})) \<and>
          (\<forall>i < min n sz. hdata h' (ptr' + i) = hdata h (ptr + i)) \<and>
          (\<forall>(q, k) \<in> live bs - {(ptr, n)}. \<forall>i < k. hdata h' (q + i) = hdata h (q + i)))"
  by (rule krealloc_spec [OF assms])

theorem krealloc_correct_witness:
  "\<exists>ptr' h' bs'. krealloc 4128 200 heap_example = Some (ptr', h') \<and> heap_inv h' bs'"
  using krealloc_correct [OF heap_example_inv, of 4128 64 200] by auto

text \<open>C29: from \<open>heap_init\<close> on, in whatever order a client allocates blocks of at most \<open>2 ^ 64 - 8192\<close> bytes and frees pointers it
  was given, no call fails to return and the allocations it holds never overlap. The bound is the one of \<open>kmalloc\<close>.\<close>

theorem heap_sessions_safe:
  assumes "heap_env h" and "total_heap_size h = 0" and "total_allocated h = 0" and "num_allocations h = 0"
    and "\<forall>n. Malloc n \<in> set ops \<longrightarrow> n \<le> 2 ^ 64 - 2 * PAGE_SIZE"
  shows "\<exists>h' ps' L'. heap_session kmalloc kfree ops (heap_init h, []) = Some (h', ps') \<and> heap_holds h' L' \<and>
    fst ` L' = set ps' \<and> distinct ps' \<and> apart L'"
proof -
  obtain bs where "heap_inv (heap_init h) bs" "live bs = {}" using heap_init_spec [OF assms(1-4)] by blast
  then have "heap_holds (heap_init h) {}" by (auto simp: heap_holds_def)
  then show ?thesis using kh.session_safe [of "heap_init h" "{}" "[]" ops] assms(5) by simp
qed

theorem heap_sessions_safe_witness:
  "\<exists>h' ps' L'. heap_session kmalloc kfree [Malloc 100, Malloc 5, Free 0, Malloc 70] (heap_init heap_boot, []) =
      Some (h', ps') \<and> heap_holds h' L' \<and> fst ` L' = set ps' \<and> distinct ps' \<and> apart L'"
  by (rule heap_sessions_safe) (use heap_env_boot in \<open>auto simp: heap_boot_def\<close>)

text \<open>C30: the size is aligned without an overflow check: a request for the largest \<open>size_t\<close> is not
  refused but answered with some free block of the heap.\<close>

theorem kmalloc_huge_succeeds:
  assumes "heap_inv h bs" and "(b, s, True) \<in> set bs"
  shows "\<exists>ptr h' bs' n. kmalloc (2 ^ 64 - 1) h = Some (ptr, h') \<and> ptr \<noteq> 0 \<and> heap_inv h' bs' \<and>
    (ptr, n) \<in> live bs' \<and> n < 2 ^ 64 - 1"
proof -
  obtain l where d: "dseg (hmem h) 0 (heap_start h) bs 0 l" using assms(1) by (auto simp: heap_inv_def)
  have sz: "align_size (2 ^ 64 - 1) = 0" by (simp add: align_size_def add64_def)
  obtain x where x: "find (\<lambda>x. snd (snd x) \<and> fst (snd x) \<ge> 0) bs = Some x"
    using assms(2) by (cases "find (\<lambda>x. snd (snd x) \<and> fst (snd x) \<ge> 0) bs") (force simp: find_None_iff)+
  then have "x \<in> set bs \<and> snd (snd x)" by (auto simp: find_Some_iff)
  then obtain c t where c: "x = (c, t, True)" "(c, t, True) \<in> set bs" by (metis (full_types) prod.collapse)
  then obtain xs ys where bs: "bs = xs @ (c, t, True) # ys" by (metis split_list)
  obtain n rest h' where cl: "claim_block c 0 h = (c + BLOCK_HEADER_SIZE, h')"
    "heap_inv h' (xs @ (c, n, False) # rest @ ys)"
    using claim_block_spec [OF assms(1) [unfolded bs], of 0] by auto
  have "kmalloc (2 ^ 64 - 1) h = Some (c + BLOCK_HEADER_SIZE, h')"
    using find_fit_spec [OF d, of 0] x c dseg_in [OF d c(2)] cl(1)
    unfolding kmalloc_def sz Let_def by simp
  moreover have "n < 2 ^ 64 - 1" using cl(2) by (auto simp: heap_inv_def blocks_ok_append blocks_ok_Cons)
  ultimately show ?thesis using cl(2)
    by (intro exI [of _ "c + BLOCK_HEADER_SIZE"] exI [of _ h'] exI [of _ "xs @ (c, n, False) # rest @ ys"] exI [of _ n])
      simp
qed

theorem kmalloc_huge_succeeds_witness: "\<exists>ptr h'. kmalloc (2 ^ 64 - 1) heap_example = Some (ptr, h') \<and> ptr \<noteq> 0"
  using kmalloc_huge_succeeds [OF heap_example_inv, of 4192 3968] by auto

end
