(* ===== verification/Kstring.thy ===== *)
theory Kstring
  imports Prelude
begin

text \<open>
  The memory and string functions of the kernel (\<open>src/src/libc/string.c\<close>) over a memory that maps
  addresses to bytes. The objects lie below the end of the address space, so pointers do not wrap. A loop
  that runs to a terminating zero is a partial function: it is None when there is no zero to stop at.
\<close>

type_synonym mem = "nat \<Rightarrow> 8 word"

section \<open>Memory\<close>

definition copy_byte :: "nat \<Rightarrow> nat \<Rightarrow> nat \<Rightarrow> mem \<Rightarrow> mem" where
  "copy_byte dst src i m = m(dst + i := m (src + i))"

definition memcpy :: "nat \<Rightarrow> nat \<Rightarrow> nat \<Rightarrow> mem \<Rightarrow> mem" where
  "memcpy dst src n m = fold (copy_byte dst src) [0..<n] m"

definition memmove :: "nat \<Rightarrow> nat \<Rightarrow> nat \<Rightarrow> mem \<Rightarrow> mem" where
  "memmove dst src n m =
     (if dst = src \<or> n = 0 then m
      else if dst < src then fold (copy_byte dst src) [0..<n] m
      else fold (copy_byte dst src) (rev [0..<n]) m)"

definition memset :: "nat \<Rightarrow> int \<Rightarrow> nat \<Rightarrow> mem \<Rightarrow> mem" where
  "memset dst c n m = fold (\<lambda>i m. m(dst + i := word_of_int c)) [0..<n] m"

fun memcmp_loop :: "nat \<Rightarrow> nat \<Rightarrow> nat list \<Rightarrow> mem \<Rightarrow> int" where
  "memcmp_loop a b [] m = 0"
| "memcmp_loop a b (i # is) m = (if m (a + i) \<noteq> m (b + i) then uint (m (a + i)) - uint (m (b + i)) else memcmp_loop a b is m)"

definition memcmp :: "nat \<Rightarrow> nat \<Rightarrow> nat \<Rightarrow> mem \<Rightarrow> int" where
  "memcmp a b n m = memcmp_loop a b [0..<n] m"

section \<open>Strings\<close>

partial_function (option) strlen_loop :: "nat \<Rightarrow> nat \<Rightarrow> mem \<Rightarrow> nat option" where
  "strlen_loop s n m = (if m (s + n) \<noteq> 0 then strlen_loop s (n + 1) m else Some n)"

definition strlen :: "nat \<Rightarrow> mem \<Rightarrow> nat option" where
  "strlen s m = strlen_loop s 0 m"

partial_function (option) strcmp :: "nat \<Rightarrow> nat \<Rightarrow> mem \<Rightarrow> int option" where
  "strcmp a b m = (if m a \<noteq> 0 \<and> m a = m b then strcmp (a + 1) (b + 1) m else Some (uint (m a) - uint (m b)))"

fun strncmp_loop :: "nat \<Rightarrow> nat \<Rightarrow> nat list \<Rightarrow> mem \<Rightarrow> int" where
  "strncmp_loop a b [] m = 0"
| "strncmp_loop a b (i # is) m =
     (let ca = m (a + i); cb = m (b + i)
      in if ca \<noteq> cb \<or> ca = 0 \<or> cb = 0 then uint ca - uint cb else strncmp_loop a b is m)"

definition strncmp :: "nat \<Rightarrow> nat \<Rightarrow> nat \<Rightarrow> mem \<Rightarrow> int" where
  "strncmp a b n m = strncmp_loop a b [0..<n] m"

partial_function (option) strcpy :: "nat \<Rightarrow> nat \<Rightarrow> mem \<Rightarrow> mem option" where
  "strcpy dst src m = (let c = m src; m' = m(dst := c) in if c \<noteq> 0 then strcpy (dst + 1) (src + 1) m' else Some m')"

text \<open>The address of the first occurrence; 0 for none.\<close>

partial_function (option) strchr_loop :: "nat \<Rightarrow> 8 word \<Rightarrow> mem \<Rightarrow> nat option" where
  "strchr_loop s ch m =
     (if m s \<noteq> 0 then if m s = ch then Some s else strchr_loop (s + 1) ch m
      else Some (if ch = 0 then s else 0))"

definition strchr :: "nat \<Rightarrow> int \<Rightarrow> mem \<Rightarrow> nat option" where
  "strchr s c m = strchr_loop s (word_of_int c) m"

section \<open>Copying\<close>

text \<open>The bytes of an object, and the memory with an object replaced.\<close>

definition read_mem :: "nat \<Rightarrow> nat \<Rightarrow> mem \<Rightarrow> bytes" where
  "read_mem a n m = map (\<lambda>i. m (a + i)) [0..<n]"

lemma copy_forward:
  assumes "dst \<le> src \<or> src + n \<le> dst"
  shows "fold (copy_byte dst src) [0..<n] m = (\<lambda>a. if dst \<le> a \<and> a < dst + n then m (src + (a - dst)) else m a)"
  using assms
proof (induction n)
  case (Suc n)
  have IH: "fold (copy_byte dst src) [0..<n] m = (\<lambda>a. if dst \<le> a \<and> a < dst + n then m (src + (a - dst)) else m a)"
    by (rule Suc.IH) (use Suc.prems in linarith)
  have eq: "fold (copy_byte dst src) [0..<Suc n] m =
      copy_byte dst src n (\<lambda>a. if dst \<le> a \<and> a < dst + n then m (src + (a - dst)) else m a)" by (simp add: IH)
  show ?case unfolding eq unfolding copy_byte_def using Suc.prems by (auto simp: fun_eq_iff)
qed (auto simp: fun_eq_iff)

lemma copy_backward:
  assumes "src \<le> dst"
  shows "fold (copy_byte dst src) (rev [0..<n]) m = (\<lambda>a. if dst \<le> a \<and> a < dst + n then m (src + (a - dst)) else m a)"
proof (induction n arbitrary: m)
  case (Suc n)
  have eq: "fold (copy_byte dst src) (rev [0..<Suc n]) m =
      (\<lambda>a. if dst \<le> a \<and> a < dst + n then copy_byte dst src n m (src + (a - dst)) else copy_byte dst src n m a)" by (simp add: Suc.IH)
  show ?case unfolding eq unfolding copy_byte_def using assms by (auto simp: fun_eq_iff)
qed (auto simp: fun_eq_iff)

section \<open>Comparing\<close>

definition string_at :: "mem \<Rightarrow> nat \<Rightarrow> bytes \<Rightarrow> bool" where
  "string_at m s xs \<longleftrightarrow> read_mem s (length xs) m = xs \<and> 0 \<notin> set xs \<and> m (s + length xs) = 0"

lemma string_at_Nil [simp]: "string_at m s [] \<longleftrightarrow> m s = 0"
  by (simp add: string_at_def read_mem_def)

lemma string_at_Cons [simp]: "string_at m s (x # xs) \<longleftrightarrow> m s = x \<and> x \<noteq> 0 \<and> string_at m (s + 1) xs"
proof -
  have "read_mem s (Suc (length xs)) m = m s # read_mem (s + 1) (length xs) m"
    by (simp add: read_mem_def upt_conv_Cons map_Suc_upt [symmetric] o_def del: upt_Suc)
  then show ?thesis by (auto simp: string_at_def)
qed

text \<open>The lexicographic comparison of two strings: the difference of the first bytes that differ, where the end counts as zero.\<close>

fun string_cmp :: "bytes \<Rightarrow> bytes \<Rightarrow> int" where
  "string_cmp [] [] = 0"
| "string_cmp [] (y # ys) = - uint y"
| "string_cmp (x # xs) [] = uint x"
| "string_cmp (x # xs) (y # ys) = (if x = y then string_cmp xs ys else uint x - uint y)"

lemma string_cmp_zero: "0 \<notin> set xs \<Longrightarrow> 0 \<notin> set ys \<Longrightarrow> string_cmp xs ys = 0 \<longleftrightarrow> xs = ys"
  by (induction xs ys rule: string_cmp.induct) (auto simp: uint_0_iff dest: unsigned_word_eqI)

lemma strlen_loop_string: "string_at m (s + n) xs \<Longrightarrow> strlen_loop s n m = Some (n + length xs)"
proof (induction xs arbitrary: n)
  case (Cons x xs)
  then show ?case by (subst strlen_loop.simps) (simp add: add.assoc)
qed (subst strlen_loop.simps, simp)

lemma strcmp_string: "string_at m a xs \<Longrightarrow> string_at m b ys \<Longrightarrow> strcmp a b m = Some (string_cmp xs ys)"
proof (induction xs ys arbitrary: a b rule: string_cmp.induct)
  case (4 x xs y ys)
  then show ?case by (subst strcmp.simps) auto
qed (subst strcmp.simps, auto)+

lemma strncmp_loop_string:
  "string_at m (a + k) xs \<Longrightarrow> string_at m (b + k) ys \<Longrightarrow>
   strncmp_loop a b [k..<k + n] m = string_cmp (take n xs) (take n ys)"
proof (induction n arbitrary: k xs ys)
  case (Suc n)
  have "[k..<k + Suc n] = k # [k + 1..<(k + 1) + n]" by (simp add: upt_conv_Cons)
  then show ?case using Suc.prems Suc.IH [of "k + 1"]
    by (cases xs; cases ys) (auto simp: Let_def add.assoc)
qed simp

lemma strlen_loop_stops:
  assumes "strlen_loop s n m = Some k"
  shows "n \<le> k \<and> m (s + k) = 0 \<and> (\<forall>i. n \<le> i \<and> i < k \<longrightarrow> m (s + i) \<noteq> 0)"
proof (rule strlen_loop.raw_induct [OF _ assms, where P = "\<lambda>s n m k. n \<le> k \<and> m (s + k) = 0 \<and> (\<forall>i. n \<le> i \<and> i < k \<longrightarrow> m (s + i) \<noteq> 0)"])
  fix loop :: "nat \<Rightarrow> nat \<Rightarrow> mem \<Rightarrow> nat option" and s n k :: nat and m :: mem
  assume IH: "\<And>s n m k. loop s n m = Some k \<Longrightarrow> n \<le> k \<and> m (s + k) = 0 \<and> (\<forall>i. n \<le> i \<and> i < k \<longrightarrow> m (s + i) \<noteq> 0)"
    and step: "(if m (s + n) \<noteq> 0 then loop s (n + 1) m else Some n) = Some k"
  show "n \<le> k \<and> m (s + k) = 0 \<and> (\<forall>i. n \<le> i \<and> i < k \<longrightarrow> m (s + i) \<noteq> 0)"
  proof (cases "m (s + n) = 0")
    case False
    then have "n + 1 \<le> k \<and> m (s + k) = 0 \<and> (\<forall>i. n + 1 \<le> i \<and> i < k \<longrightarrow> m (s + i) \<noteq> 0)" using IH step by simp
    moreover have "i = n \<or> n + 1 \<le> i" if "n \<le> i" for i using that by auto
    ultimately show ?thesis using False by auto
  qed (use step in auto)
qed

lemma first_zero: "m (s + k) = 0 \<Longrightarrow> \<exists>xs. string_at m s xs"
proof (induction k arbitrary: s)
  case (Suc k)
  have "m (s + 1 + k) = 0" using Suc.prems by simp
  from Suc.IH [OF this] obtain xs where "string_at m (s + 1) xs" by blast
  then show ?case by (cases "m s = 0") (auto intro: exI [of _ "[]"] exI [of _ "m s # xs"])
qed (auto intro: exI [of _ "[]"])

lemma memcmp_loop_read: "memcmp_loop a b is m = 0 \<longleftrightarrow> (\<forall>i \<in> set is. m (a + i) = m (b + i))"
  by (induction "is") (auto dest: unsigned_word_eqI)

lemma strcpy_string:
  assumes "string_at m src xs" "dst + length xs < src \<or> src + length xs < dst"
  shows "\<exists>m'. strcpy dst src m = Some m' \<and> string_at m' dst xs \<and> (\<forall>a. a < dst \<or> dst + length xs < a \<longrightarrow> m' a = m a)"
  using assms
proof (induction xs arbitrary: dst src m)
  case Nil
  then show ?case by (subst strcpy.simps) simp
next
  case (Cons x xs)
  let ?m = "m(dst := x)"
  have src: "m src = x" "x \<noteq> 0" "string_at m (src + 1) xs" using Cons.prems(1) by auto
  have "read_mem (src + 1) (length xs) ?m = read_mem (src + 1) (length xs) m" using Cons.prems(2) by (auto simp: read_mem_def)
  then have s1: "string_at ?m (src + 1) xs" using src(3) Cons.prems(2) by (auto simp: string_at_def)
  have "dst + 1 + length xs < src + 1 \<or> src + 1 + length xs < dst + 1" using Cons.prems(2) by auto
  from Cons.IH [OF s1 this] obtain m' where m': "strcpy (dst + 1) (src + 1) ?m = Some m'" "string_at m' (dst + 1) xs"
    "\<forall>a. a < dst + 1 \<or> dst + 1 + length xs < a \<longrightarrow> m' a = ?m a"
    by blast
  have "strcpy dst src m = Some m'" using m'(1) src by (subst strcpy.simps) simp
  moreover have "m' dst = x" using m'(3) by simp
  ultimately show ?case using m'(2,3) src(2) by (auto simp: fun_upd_apply)
qed

lemma strchr_string:
  assumes "string_at m s xs"
  shows "strchr_loop s ch m = Some (if ch = 0 then s + length xs else if ch \<in> set xs then s + length (takeWhile (\<lambda>c. c \<noteq> ch) xs) else 0)"
  using assms
proof (induction xs arbitrary: s)
  case (Cons x xs)
  then show ?case by (subst strchr_loop.simps) (auto split: list.splits)
qed (subst strchr_loop.simps, simp)

section \<open>What the functions promise\<close>

text \<open>C37: \<open>memmove\<close> is correct for every overlap of the two objects: afterwards the destination holds what the source
  held before, and nothing else has changed.\<close>

theorem memmove_correct:
  "read_mem dst n (memmove dst src n m) = read_mem src n m \<and> (\<forall>a. \<not> (dst \<le> a \<and> a < dst + n) \<longrightarrow> memmove dst src n m a = m a)"
proof (cases "dst = src \<or> n = 0")
  case False
  have "memmove dst src n m = (\<lambda>a. if dst \<le> a \<and> a < dst + n then m (src + (a - dst)) else m a)"
    using False copy_forward [of dst src n m] copy_backward [of src dst n m] by (auto simp: memmove_def)
  then show ?thesis by (simp add: read_mem_def)
qed (auto simp: memmove_def read_mem_def)

theorem memmove_correct_witness:
  "read_mem 1 3 (memmove 1 0 3 (\<lambda>a. of_nat a)) = [0, 1, 2] \<and> memmove 1 0 3 (\<lambda>a. of_nat a) 4 = 4"
  using memmove_correct [of 1 3 0 "\<lambda>a. of_nat a"] by (simp add: read_mem_def upt_rec)

text \<open>C38: \<open>strlen\<close> terminates exactly on memory that has a zero byte at or behind the pointer, and then returns the
  distance to the first one.\<close>

theorem strlen_terminates:
  "((\<exists>n. strlen s m = Some n) \<longleftrightarrow> (\<exists>i. m (s + i) = 0)) \<and> (\<forall>n. strlen s m = Some n \<longrightarrow> string_at m s (read_mem s n m))"
proof (intro conjI allI impI iffI)
  assume "\<exists>n. strlen s m = Some n"
  then obtain n where "strlen_loop s 0 m = Some n" by (auto simp: strlen_def)
  from strlen_loop_stops [OF this] show "\<exists>i. m (s + i) = 0" by blast
next
  assume "\<exists>i. m (s + i) = 0"
  then obtain xs where "string_at m s xs" using first_zero by blast
  then show "\<exists>n. strlen s m = Some n" using strlen_loop_string [of m s 0 xs] by (simp add: strlen_def)
next
  fix n
  assume "strlen s m = Some n"
  from strlen_loop_stops [OF this [unfolded strlen_def]] show "string_at m s (read_mem s n m)"
    by (auto simp: string_at_def read_mem_def)
qed

theorem strlen_terminates_witness:
  "\<exists>n. strlen 5 (\<lambda>a. if a = 9 then 0 else 1) = Some n \<and> string_at (\<lambda>a. if a = 9 then 0 else 1) 5 (read_mem 5 n (\<lambda>a. if a = 9 then 0 else 1))"
proof -
  have "(\<lambda>a. if a = 9 then 0 else 1 :: 8 word) (5 + 4) = 0" by simp
  then have "\<exists>i. (\<lambda>a. if a = 9 then 0 else 1 :: 8 word) (5 + i) = 0" by blast
  then show ?thesis using strlen_terminates [of 5 "\<lambda>a. if a = 9 then 0 else 1"] by blast
qed

text \<open>On terminated strings \<open>strcmp\<close> and \<open>strncmp\<close> return the lexicographic comparison of the strings and of their first
  n bytes; \<open>strcmp\<close> is zero exactly for equal strings.\<close>

theorem strcmp_correct:
  assumes "string_at m a xs" and "string_at m b ys"
  shows "strcmp a b m = Some (string_cmp xs ys) \<and> (string_cmp xs ys = 0 \<longleftrightarrow> xs = ys) \<and>
    strncmp a b n m = string_cmp (take n xs) (take n ys)"
  using strcmp_string [OF assms] string_cmp_zero [of xs ys] strncmp_loop_string [of m a 0 xs b ys n] assms
  by (auto simp: string_at_def strncmp_def)

theorem strcmp_correct_witness:
  "strcmp 10 20 (\<lambda>a. if a = 10 then 0x61 else if a = 20 then 0x62 else 0) = Some (- 1)"
  using strcmp_correct [of "\<lambda>a. if a = 10 then 0x61 else if a = 20 then 0x62 else 0" 10 "[0x61]" 20 "[0x62]" 0] by simp

end
