(* ===== verification/Vmm.thy ===== *)
theory Vmm
  imports Pmm
begin

text \<open>
  The page tables (\<open>src/src/memory/vmm.c\<close>). Physical memory is seen through the entries of its pages: \<open>ptes a i\<close>
  is the 64-bit entry \<open>i\<close> of the page at physical address \<open>a\<close>, which the kernel reaches through the
  direct map. The TLB is not modelled. The four-level tree under a root refines a partial map from pages to
  frames: mapping and unmapping a page change that map at that page only.
\<close>

unbundle bit_operations_syntax

section \<open>State and entries\<close>

record vmm_state =
  ptes :: "u64 \<Rightarrow> nat \<Rightarrow> u64"
  vm_pmm :: pmm_state
  kernel_page_table :: "u64 option"
  cr3 :: u64
  g_hhdm_offset :: u64

abbreviation (input) PAGE_PRESENT :: u64 where "PAGE_PRESENT \<equiv> 1"
abbreviation (input) PAGE_WRITE :: u64 where "PAGE_WRITE \<equiv> 2"
abbreviation (input) PAGE_USER :: u64 where "PAGE_USER \<equiv> 4"
abbreviation (input) ADDR_MASK :: u64 where "ADDR_MASK \<equiv> 0x000FFFFFFFFFF000"

definition PAGE_ALIGN_DOWN :: "u64 \<Rightarrow> u64" where
  "PAGE_ALIGN_DOWN a = a AND NOT 0xFFF"

definition PTE_GET_ADDR :: "u64 \<Rightarrow> u64" where
  "PTE_GET_ADDR e = e AND ADDR_MASK"

definition PTE_GET_FLAGS :: "u64 \<Rightarrow> u64" where
  "PTE_GET_FLAGS e = e AND 0xFFF"

definition PML4_INDEX :: "u64 \<Rightarrow> nat" where "PML4_INDEX v = unat (drop_bit 39 v AND 0x1FF)"
definition PDPT_INDEX :: "u64 \<Rightarrow> nat" where "PDPT_INDEX v = unat (drop_bit 30 v AND 0x1FF)"
definition PD_INDEX :: "u64 \<Rightarrow> nat" where "PD_INDEX v = unat (drop_bit 21 v AND 0x1FF)"
definition PT_INDEX :: "u64 \<Rightarrow> nat" where "PT_INDEX v = unat (drop_bit 12 v AND 0x1FF)"

definition phys_to_virt :: "u64 \<Rightarrow> vmm_state \<Rightarrow> u64" where
  "phys_to_virt p st = p + g_hhdm_offset st"

definition hhdm_set_offset :: "u64 \<Rightarrow> vmm_state \<Rightarrow> vmm_state" where
  "hhdm_set_offset off st = st\<lparr>g_hhdm_offset := off\<rparr>"

definition hhdm_get_offset :: "vmm_state \<Rightarrow> u64" where
  "hhdm_get_offset st = g_hhdm_offset st"

definition virt_to_phys :: "u64 \<Rightarrow> vmm_state \<Rightarrow> u64" where
  "virt_to_phys v st = v - g_hhdm_offset st"

definition set_pte :: "u64 \<Rightarrow> nat \<Rightarrow> u64 \<Rightarrow> vmm_state \<Rightarrow> vmm_state" where
  "set_pte t i e st = st\<lparr>ptes := (ptes st)(t := (ptes st t)(i := e))\<rparr>"

definition clear_page :: "u64 \<Rightarrow> vmm_state \<Rightarrow> vmm_state" where
  "clear_page t st = st\<lparr>ptes := (ptes st)(t := (\<lambda>_. 0))\<rparr>"

section \<open>Page tables\<close>

text \<open>A \<open>page_table_t\<close> is the physical address of its PML4. \<open>ok\<close> says whether \<open>kcalloc\<close> finds room for the structure.\<close>

definition vmm_init :: "bool \<Rightarrow> vmm_state \<Rightarrow> vmm_state" where
  "vmm_init ok st =
     (if \<not> ok then st\<lparr>kernel_page_table := None\<rparr>
      else let p = cr3 st AND NOT 0xFFF
           in st\<lparr>kernel_page_table := (if phys_to_virt p st = 0 then None else Some p)\<rparr>)"

definition vmm_get_kernel_page_table :: "vmm_state \<Rightarrow> u64 option" where
  "vmm_get_kernel_page_table st = kernel_page_table st"

definition vmm_switch_page_table :: "u64 option \<Rightarrow> vmm_state \<Rightarrow> vmm_state" where
  "vmm_switch_page_table pt st = (case pt of None \<Rightarrow> st | Some p \<Rightarrow> st\<lparr>cr3 := p\<rparr>)"

definition copy_kernel_entries :: "u64 \<Rightarrow> u64 \<Rightarrow> vmm_state \<Rightarrow> vmm_state" where
  "copy_kernel_entries pml4 k st = fold (\<lambda>i s. set_pte pml4 i (ptes s k i) s) [256..<512] st"

definition vmm_create_page_table :: "bool \<Rightarrow> vmm_state \<Rightarrow> u64 option \<times> vmm_state" where
  "vmm_create_page_table ok st =
     (if \<not> ok then (None, st)
      else
        let (a, p) = pmm_alloc (vm_pmm st); pml4 = of_nat a; st1 = st\<lparr>vm_pmm := p\<rparr> in
        if pml4 = 0 then (None, st1)
        else if phys_to_virt pml4 st1 = 0 then (None, st1\<lparr>vm_pmm := pmm_free a p\<rparr>)
        else
          let st2 = clear_page pml4 st1 in
          case kernel_page_table st2 of
            None \<Rightarrow> (Some pml4, st2)
          | Some k \<Rightarrow> (Some pml4, copy_kernel_entries pml4 k st2))"

text \<open>The table below an entry, which is created if it is missing; None is the null pointer.\<close>

definition get_or_create_table :: "u64 \<Rightarrow> nat \<Rightarrow> bool \<Rightarrow> vmm_state \<Rightarrow> u64 option \<times> vmm_state" where
  "get_or_create_table t i user_accessible st =
     (let e = ptes st t i in
      if e AND PAGE_PRESENT \<noteq> 0 then
        let st1 = (if user_accessible \<and> e AND PAGE_USER = 0 then set_pte t i (e OR PAGE_USER) st else st);
            a = PTE_GET_ADDR e
        in (if phys_to_virt a st = 0 then None else Some a, st1)
      else
        let (p, pm) = pmm_alloc (vm_pmm st); new = of_nat p; st1 = st\<lparr>vm_pmm := pm\<rparr> in
        if new = 0 then (None, st1)
        else
          let flags = (if user_accessible then PAGE_PRESENT OR PAGE_WRITE OR PAGE_USER else PAGE_PRESENT OR PAGE_WRITE);
              st2 = set_pte t i (new OR flags) (clear_page new st1)
          in (if phys_to_virt new st2 = 0 then None else Some new, st2))"

definition vmm_map_page :: "u64 option \<Rightarrow> u64 \<Rightarrow> u64 \<Rightarrow> u64 \<Rightarrow> vmm_state \<Rightarrow> bool \<times> vmm_state" where
  "vmm_map_page pt virt0 phys0 flags st =
     (case pt of
        None \<Rightarrow> (False, st)
      | Some root \<Rightarrow>
        let virt = PAGE_ALIGN_DOWN virt0; phys = PAGE_ALIGN_DOWN phys0; user = (flags AND PAGE_USER \<noteq> 0);
            (pdpt, st1) = get_or_create_table root (PML4_INDEX virt) user st in
        (case pdpt of
           None \<Rightarrow> (False, st1)
         | Some t3 \<Rightarrow>
           let (pd, st2) = get_or_create_table t3 (PDPT_INDEX virt) user st1 in
           (case pd of
              None \<Rightarrow> (False, st2)
            | Some t2 \<Rightarrow>
              let (tab, st3) = get_or_create_table t2 (PD_INDEX virt) user st2 in
              (case tab of
                 None \<Rightarrow> (False, st3)
               | Some t1 \<Rightarrow> (True, set_pte t1 (PT_INDEX virt) (phys OR flags OR PAGE_PRESENT) st3)))))"

definition vmm_unmap_page :: "u64 option \<Rightarrow> u64 \<Rightarrow> vmm_state \<Rightarrow> vmm_state" where
  "vmm_unmap_page pt virt0 st =
     (case pt of
        None \<Rightarrow> st
      | Some root \<Rightarrow>
        let virt = PAGE_ALIGN_DOWN virt0; e4 = ptes st root (PML4_INDEX virt) in
        if e4 AND PAGE_PRESENT = 0 then st
        else
          let t3 = PTE_GET_ADDR e4; e3 = ptes st t3 (PDPT_INDEX virt) in
          if e3 AND PAGE_PRESENT = 0 then st
          else
            let t2 = PTE_GET_ADDR e3; e2 = ptes st t2 (PD_INDEX virt) in
            if e2 AND PAGE_PRESENT = 0 then st
            else set_pte (PTE_GET_ADDR e2) (PT_INDEX virt) 0 st)"

text \<open>The physical address and the flags of the page, or nothing.\<close>

definition vmm_get_mapping :: "u64 option \<Rightarrow> u64 \<Rightarrow> vmm_state \<Rightarrow> (u64 \<times> u64) option" where
  "vmm_get_mapping pt virt0 st =
     (case pt of
        None \<Rightarrow> None
      | Some root \<Rightarrow>
        let virt = PAGE_ALIGN_DOWN virt0; e4 = ptes st root (PML4_INDEX virt) in
        if e4 AND PAGE_PRESENT = 0 then None
        else
          let t3 = PTE_GET_ADDR e4; e3 = ptes st t3 (PDPT_INDEX virt) in
          if e3 AND PAGE_PRESENT = 0 then None
          else
            let t2 = PTE_GET_ADDR e3; e2 = ptes st t2 (PD_INDEX virt) in
            if e2 AND PAGE_PRESENT = 0 then None
            else
              let t1 = PTE_GET_ADDR e2; e1 = ptes st t1 (PT_INDEX virt) in
              if e1 AND PAGE_PRESENT = 0 then None else Some (PTE_GET_ADDR e1, PTE_GET_FLAGS e1))"

definition vmm_get_physical :: "u64 option \<Rightarrow> u64 \<Rightarrow> vmm_state \<Rightarrow> u64" where
  "vmm_get_physical pt virt0 st =
     (case pt of
        None \<Rightarrow> 0
      | Some root \<Rightarrow>
        let virt = PAGE_ALIGN_DOWN virt0; e4 = ptes st root (PML4_INDEX virt) in
        if e4 AND PAGE_PRESENT = 0 then 0
        else
          let t3 = PTE_GET_ADDR e4; e3 = ptes st t3 (PDPT_INDEX virt) in
          if e3 AND PAGE_PRESENT = 0 then 0
          else
            let t2 = PTE_GET_ADDR e3; e2 = ptes st t2 (PD_INDEX virt) in
            if e2 AND PAGE_PRESENT = 0 then 0
            else
              let t1 = PTE_GET_ADDR e2; e1 = ptes st t1 (PT_INDEX virt) in
              if e1 AND PAGE_PRESENT = 0 then 0 else PTE_GET_ADDR e1)"

section \<open>The tree of tables\<close>

definition below :: "u64 \<Rightarrow> u64 option" where
  "below e = (if e AND PAGE_PRESENT = 0 then None else Some (PTE_GET_ADDR e))"

text \<open>The table at the end of a path of indices.\<close>

fun tab :: "(u64 \<Rightarrow> nat \<Rightarrow> u64) \<Rightarrow> u64 \<Rightarrow> nat list \<Rightarrow> u64 option" where
  "tab f t [] = Some t"
| "tab f t (i # is) = (case below (f t i) of None \<Rightarrow> None | Some u \<Rightarrow> tab f u is)"

definition leaf :: "(u64 \<Rightarrow> nat \<Rightarrow> u64) \<Rightarrow> u64 \<Rightarrow> nat list \<Rightarrow> nat \<Rightarrow> u64 option" where
  "leaf f root p i = (case tab f root p of None \<Rightarrow> None | Some t \<Rightarrow> if f t i AND PAGE_PRESENT = 0 then None else Some (f t i))"

definition path_of :: "u64 \<Rightarrow> nat list" where
  "path_of v = [PML4_INDEX v, PDPT_INDEX v, PD_INDEX v]"

lemma get_mapping_leaf:
  "vmm_get_mapping (Some root) v st =
     map_option (\<lambda>e. (PTE_GET_ADDR e, PTE_GET_FLAGS e)) (leaf (ptes st) root (path_of (PAGE_ALIGN_DOWN v)) (PT_INDEX (PAGE_ALIGN_DOWN v)))"
  by (simp add: vmm_get_mapping_def leaf_def path_of_def below_def Let_def)

lemma get_physical_mapping:
  "vmm_get_physical pt v st = (case vmm_get_mapping pt v st of None \<Rightarrow> 0 | Some (p, fl) \<Rightarrow> p)"
  by (simp add: vmm_get_mapping_def vmm_get_physical_def Let_def split: option.split)

lemma tab_append: "tab f t (p @ q) = (case tab f t p of None \<Rightarrow> None | Some u \<Rightarrow> tab f u q)"
  by (induction p arbitrary: t) (auto split: option.split)

lemma tab_snoc: "tab f t (p @ [i]) = (case tab f t p of None \<Rightarrow> None | Some u \<Rightarrow> below (f u i))"
  by (simp add: tab_append split: option.split)

section \<open>Entries as words\<close>

lemma below_user [simp]: "below (e OR 4) = below e"
  by (simp add: below_def PTE_GET_ADDR_def bit.conj_disj_distrib2)

lemma frame_mask:
  assumes "k < 2 ^ 40"
  shows "(of_nat (k * PAGE_SIZE) :: u64) AND ADDR_MASK = of_nat (k * PAGE_SIZE)"
proof -
  have m: "(ADDR_MASK :: u64) = push_bit 12 (mask 40)" by (simp add: mask_eq_exp_minus_1 push_bit_eq_mult)
  have k: "(of_nat (k * PAGE_SIZE) :: u64) = push_bit 12 (of_nat k)" by (simp add: push_bit_eq_mult)
  have "take_bit 40 (of_nat k :: u64) = of_nat k" using assms by (simp add: take_bit_of_nat take_bit_nat_eq_self)
  then show ?thesis unfolding m k by (simp add: take_bit_eq_mask flip: push_bit_and)
qed

lemma below_new:
  assumes "k < 2 ^ 40" "fl = 3 \<or> fl = (7::u64)"
  shows "below (of_nat (k * PAGE_SIZE) OR fl) = Some (of_nat (k * PAGE_SIZE))"
proof -
  have "(of_nat (k * PAGE_SIZE) OR fl) AND 1 \<noteq> 0"
    using assms(2) by (auto simp: bit.conj_disj_distrib2)
  moreover have "(of_nat (k * PAGE_SIZE) OR fl) AND ADDR_MASK = of_nat (k * PAGE_SIZE)"
    unfolding bit.conj_disj_distrib2 frame_mask [OF assms(1)] using assms(2) by auto
  ultimately show ?thesis by (simp add: below_def PTE_GET_ADDR_def)
qed

definition frame_no :: "u64 \<Rightarrow> nat" where
  "frame_no t = unat t div PAGE_SIZE"

lemma frame_no_page:
  assumes "k < 2 ^ 40"
  shows "frame_no (of_nat (k * PAGE_SIZE)) = k"
proof -
  have "k * PAGE_SIZE < 2 ^ 64" using assms by simp
  then have "unat (of_nat (k * PAGE_SIZE) :: u64) = k * PAGE_SIZE" by (simp add: unat_of_nat take_bit_nat_eq_self del: of_nat_mult)
  then show ?thesis by (simp add: frame_no_def)
qed

text \<open>The page number of a virtual address: its bits 12 to 47.\<close>

definition page_no :: "u64 \<Rightarrow> u64" where
  "page_no v = drop_bit 12 (take_bit 48 v)"

lemma index_bits:
  "unat (drop_bit k (v::u64) AND 0x1FF) = unat (drop_bit k (w::u64) AND 0x1FF) \<longleftrightarrow> (\<forall>n. k \<le> n \<and> n < k + 9 \<longrightarrow> bit v n = bit w n)"
proof -
  have m: "(0x1FF :: u64) = mask 9" by (simp add: mask_eq_exp_minus_1)
  have "unat (drop_bit k v AND 0x1FF) = unat (drop_bit k w AND 0x1FF) \<longleftrightarrow> take_bit 9 (drop_bit k v) = take_bit 9 (drop_bit k w)"
    unfolding m take_bit_eq_mask by (rule word_eq_iff_unsigned [symmetric])
  also have "\<dots> \<longleftrightarrow> (\<forall>n<9. bit v (k + n) = bit w (k + n))"
  proof
    assume a: "take_bit 9 (drop_bit k v) = take_bit 9 (drop_bit k w)"
    show "\<forall>n<9. bit v (k + n) = bit w (k + n)"
    proof (intro allI impI)
      fix n :: nat assume n: "n < 9"
      have "bit (take_bit 9 (drop_bit k v)) n = bit (take_bit 9 (drop_bit k w)) n" using a by simp
      then show "bit v (k + n) = bit w (k + n)" using n by (simp add: bit_take_bit_iff bit_drop_bit_eq)
    qed
  next
    assume "\<forall>n<9. bit v (k + n) = bit w (k + n)"
    then show "take_bit 9 (drop_bit k v) = take_bit 9 (drop_bit k w)"
      by (auto simp: bit_eq_iff bit_take_bit_iff bit_drop_bit_eq)
  qed
  also have "\<dots> \<longleftrightarrow> (\<forall>n. k \<le> n \<and> n < k + 9 \<longrightarrow> bit v n = bit w n)"
    by (auto simp: le_iff_add)
  finally show ?thesis .
qed

lemma page_no_indices:
  "page_no v = page_no w \<longleftrightarrow>
     PML4_INDEX v = PML4_INDEX w \<and> PDPT_INDEX v = PDPT_INDEX w \<and> PD_INDEX v = PD_INDEX w \<and> PT_INDEX v = PT_INDEX w"
proof -
  have "page_no v = page_no w \<longleftrightarrow> (\<forall>n. 12 \<le> n \<and> n < 48 \<longrightarrow> bit v n = bit w n)"
  proof
    assume a: "page_no v = page_no w"
    show "\<forall>n. 12 \<le> n \<and> n < 48 \<longrightarrow> bit v n = bit w n"
    proof (intro allI impI)
      fix n :: nat assume n: "12 \<le> n \<and> n < 48"
      have "bit (page_no v) (n - 12) = bit (page_no w) (n - 12)" using a by simp
      then show "bit v n = bit w n" using n by (simp add: page_no_def bit_take_bit_iff bit_drop_bit_eq)
    qed
  next
    assume "\<forall>n. 12 \<le> n \<and> n < 48 \<longrightarrow> bit v n = bit w n"
    then show "page_no v = page_no w"
      by (auto simp: bit_eq_iff page_no_def bit_take_bit_iff bit_drop_bit_eq)
  qed
  also have "\<dots> \<longleftrightarrow> (\<forall>n. 39 \<le> n \<and> n < 48 \<longrightarrow> bit v n = bit w n) \<and> (\<forall>n. 30 \<le> n \<and> n < 39 \<longrightarrow> bit v n = bit w n) \<and>
      (\<forall>n. 21 \<le> n \<and> n < 30 \<longrightarrow> bit v n = bit w n) \<and> (\<forall>n. 12 \<le> n \<and> n < 21 \<longrightarrow> bit v n = bit w n)"
    (is "?l = ?r")
  proof
    assume r: ?r
    show ?l
    proof (intro allI impI)
      fix n :: nat assume "12 \<le> n \<and> n < 48"
      then have "39 \<le> n \<and> n < 48 \<or> 30 \<le> n \<and> n < 39 \<or> 21 \<le> n \<and> n < 30 \<or> 12 \<le> n \<and> n < 21" by linarith
      then show "bit v n = bit w n" using r by blast
    qed
  qed auto
  finally show ?thesis
    by (simp add: PML4_INDEX_def PDPT_INDEX_def PD_INDEX_def PT_INDEX_def index_bits)
qed

lemma align_bits: "bit (PAGE_ALIGN_DOWN v) n \<longleftrightarrow> 12 \<le> n \<and> bit v n"
proof -
  have m: "(0xFFF :: u64) = mask 12" by (simp add: mask_eq_exp_minus_1)
  show ?thesis unfolding PAGE_ALIGN_DOWN_def m
    using bit_imp_le_length [of v n] by (cases "n < 64") (auto simp: bit_and_iff bit_not_iff bit_mask_iff)
qed

lemma page_no_align [simp]: "page_no (PAGE_ALIGN_DOWN v) = page_no v"
  by (auto simp: bit_eq_iff page_no_def bit_take_bit_iff bit_drop_bit_eq align_bits)

lemma PML4_INDEX_align [simp]: "PML4_INDEX (PAGE_ALIGN_DOWN v) = PML4_INDEX v"
  using page_no_align [of v] by (simp only: page_no_indices)

lemma PML4_INDEX_less: "PML4_INDEX v < 512"
proof -
  have m: "(0x1FF :: u64) = mask 9" by (simp add: mask_eq_exp_minus_1)
  have "unat (drop_bit 39 v AND 0x1FF) = take_bit 9 (unat (drop_bit 39 v))"
    unfolding m by (simp add: unsigned_take_bit_eq flip: take_bit_eq_mask)
  then show ?thesis using take_bit_nat_less_exp [of 9 "unat (drop_bit 39 v)"] by (simp add: PML4_INDEX_def)
qed

lemma same_page:
  "path_of (PAGE_ALIGN_DOWN w) = path_of (PAGE_ALIGN_DOWN v) \<and> PT_INDEX (PAGE_ALIGN_DOWN w) = PT_INDEX (PAGE_ALIGN_DOWN v) \<longleftrightarrow>
   page_no w = page_no v"
  using page_no_indices [of "PAGE_ALIGN_DOWN w" "PAGE_ALIGN_DOWN v"] by (simp add: path_of_def)

lemma entry_fields:
  assumes "flags AND ADDR_MASK = 0"
  shows "PTE_GET_ADDR (PAGE_ALIGN_DOWN phys OR flags OR 1) = phys AND ADDR_MASK"
    and "PTE_GET_FLAGS (PAGE_ALIGN_DOWN phys OR flags OR 1) = PTE_GET_FLAGS flags OR 1"
    and "(PAGE_ALIGN_DOWN phys OR flags OR 1) AND 1 \<noteq> 0"
proof -
  have "PAGE_ALIGN_DOWN phys AND ADDR_MASK = phys AND ADDR_MASK"
    by (simp add: PAGE_ALIGN_DOWN_def and.assoc)
  then show "PTE_GET_ADDR (PAGE_ALIGN_DOWN phys OR flags OR 1) = phys AND ADDR_MASK"
    using assms by (simp add: PTE_GET_ADDR_def bit.conj_disj_distrib2)
  show "PTE_GET_FLAGS (PAGE_ALIGN_DOWN phys OR flags OR 1) = PTE_GET_FLAGS flags OR 1"
    by (simp add: PTE_GET_FLAGS_def PAGE_ALIGN_DOWN_def bit.conj_disj_distrib2 and.assoc)
  show "(PAGE_ALIGN_DOWN phys OR flags OR 1) AND 1 \<noteq> 0"
    by (simp add: bit.conj_disj_distrib2)
qed

section \<open>Address spaces\<close>

text \<open>
  \<open>spaces_ok R st\<close>: the trees under the roots \<open>R\<close> are well formed. A table is reached along one path only, two
  spaces share tables only in the upper half of the address space, and no table is a page that the page
  allocator may give out.
\<close>

definition reaches :: "vmm_state \<Rightarrow> u64 \<Rightarrow> nat list \<Rightarrow> u64 \<Rightarrow> bool" where
  "reaches st r p t \<longleftrightarrow> length p \<le> 3 \<and> tab (ptes st) r p = Some t"

definition spaces_ok :: "u64 set \<Rightarrow> vmm_state \<Rightarrow> bool" where
  "spaces_ok R st \<longleftrightarrow> pmm_wf (vm_pmm st) \<and> total_pages (vm_pmm st) \<le> 2 ^ 40 \<and>
     (\<forall>r \<in> R. \<forall>s \<in> R. \<forall>p q t. reaches st r p t \<and> reaches st s q t \<longrightarrow> p = q \<and> (r = s \<or> p \<noteq> [] \<and> 256 \<le> hd p)) \<and>
     (\<forall>r \<in> R. \<forall>p t. reaches st r p t \<longrightarrow> \<not> page_free (vm_pmm st) (frame_no t))"

definition own :: "u64 set \<Rightarrow> u64 \<Rightarrow> nat list \<Rightarrow> bool" where
  "own R r p \<longleftrightarrow> p = [] \<or> hd p < 256 \<or> R = {r}"

lemma spaces_okD:
  assumes "spaces_ok R st"
  shows "pmm_wf (vm_pmm st)" "total_pages (vm_pmm st) \<le> 2 ^ 40"
    "\<And>r s p q t. r \<in> R \<Longrightarrow> s \<in> R \<Longrightarrow> reaches st r p t \<Longrightarrow> reaches st s q t \<Longrightarrow> p = q \<and> (r = s \<or> p \<noteq> [] \<and> 256 \<le> hd p)"
    "\<And>r p t. r \<in> R \<Longrightarrow> reaches st r p t \<Longrightarrow> \<not> page_free (vm_pmm st) (frame_no t)"
  using assms unfolding spaces_ok_def by blast+

lemma spaces_okI:
  assumes "pmm_wf (vm_pmm st)" "total_pages (vm_pmm st) \<le> 2 ^ 40"
    "\<And>r s p q t. r \<in> R \<Longrightarrow> s \<in> R \<Longrightarrow> reaches st r p t \<Longrightarrow> reaches st s q t \<Longrightarrow> p = q \<and> (r = s \<or> p \<noteq> [] \<and> 256 \<le> hd p)"
    "\<And>r p t. r \<in> R \<Longrightarrow> reaches st r p t \<Longrightarrow> \<not> page_free (vm_pmm st) (frame_no t)"
  shows "spaces_ok R st"
  unfolding spaces_ok_def using assms by blast

lemma own_unique:
  assumes "spaces_ok R st" "r \<in> R" "s \<in> R" "own R r p" "reaches st r p t" "reaches st s q t"
  shows "s = r \<and> q = p"
  using spaces_okD(3) [OF assms(1,2,3,5,6)] assms(3,4) unfolding own_def by fastforce

lemma reaches_root [simp]: "reaches st r [] t \<longleftrightarrow> t = r"
  by (auto simp: reaches_def)

text \<open>Hanging the cleared page \<open>n\<close> below entry \<open>i\<close> of a table that only \<open>r\<close> reaches, along \<open>p\<close>.\<close>

lemma tab_hang:
  assumes ok: "spaces_ok R st" and r: "r \<in> R" and o: "own R r p" and t: "reaches st r p t" and lp: "length p \<le> 2"
    and e0: "below (ptes st t i) = None" and e: "below e = Some n"
    and n: "\<And>s q. s \<in> R \<Longrightarrow> \<not> reaches st s q n"
    and f: "f = (ptes st)(n := \<lambda>_. 0, t := (ptes st t)(i := e))"
    and s: "s \<in> R" and lq: "length q \<le> 3"
  shows "tab f s q = (if s = r \<and> q = p @ [i] then Some n else tab (ptes st) s q)"
  using lq
proof (induction q rule: rev_induct)
  case Nil
  then show ?case by simp
next
  case (snoc j q)
  have nt: "n \<noteq> t" using n [OF r] t by blast
  have fn: "\<And>j. f n j = 0" and ft: "\<And>u j. u \<noteq> n \<Longrightarrow> f u j = (if u = t \<and> j = i then e else ptes st u j)"
    using nt by (auto simp: f)
  have tp: "tab (ptes st) r p = Some t" using t by (simp add: reaches_def)
  have "length q \<le> 3" using snoc.prems by simp
  note ih = snoc.IH [OF this]
  show ?case
  proof (cases "s = r \<and> q = p @ [i]")
    case True
    have a: "tab f s q = Some n" using True ih by simp
    have b: "tab (ptes st) s q = None" using True e0 tp by (simp add: tab_snoc)
    have "q @ [j] \<noteq> p @ [i]" using True by simp
    moreover have "tab f s (q @ [j]) = None" unfolding tab_snoc a by (simp add: below_def fn)
    moreover have "tab (ptes st) s (q @ [j]) = None" unfolding tab_snoc b by simp
    ultimately show ?thesis by (simp only: if_False simp_thms)
  next
    case False
    then have q: "tab f s q = tab (ptes st) s q" using ih by auto
    show ?thesis
    proof (cases "tab (ptes st) s q")
      case None
      then have "\<not> (s = r \<and> q = p)" using tp by auto
      moreover have "tab f s (q @ [j]) = None" "tab (ptes st) s (q @ [j]) = None" unfolding tab_snoc q None by simp_all
      ultimately show ?thesis by auto
    next
      case (Some u)
      then have ru: "reaches st s q u" using snoc.prems by (simp add: reaches_def)
      then have un: "u \<noteq> n" using n [OF s] by blast
      have "u = t \<longrightarrow> s = r \<and> q = p" using own_unique [OF ok r s o t] ru by blast
      moreover have "s = r \<and> q = p \<longrightarrow> u = t" using tp Some by auto
      ultimately have ut: "u = t \<longleftrightarrow> s = r \<and> q = p" by blast
      have "tab f s (q @ [j]) = below (f u j)" "tab (ptes st) s (q @ [j]) = below (ptes st u j)"
        unfolding tab_snoc q Some by simp_all
      then show ?thesis using ut ft [OF un, of j] e by (simp split: if_splits)
    qed
  qed
qed

text \<open>Changing an entry of a last-level table, or of any table without changing what it points to.\<close>

lemma tab_leaf:
  assumes ok: "spaces_ok R st" and r: "r \<in> R" and o: "own R r p" and t: "reaches st r p t"
    and c: "length p = 3 \<or> below e = below (ptes st t i)"
    and f: "f = (ptes st)(t := (ptes st t)(i := e))" and s: "s \<in> R" and lq: "length q \<le> 3"
  shows "tab f s q = tab (ptes st) s q"
  using lq
proof (induction q rule: rev_induct)
  case Nil
  then show ?case by simp
next
  case (snoc j q)
  have "length q \<le> 3" using snoc.prems by simp
  note ih = snoc.IH [OF this]
  show ?case
  proof (cases "tab (ptes st) s q")
    case None
    then show ?thesis unfolding tab_snoc ih by simp
  next
    case (Some u)
    then have ru: "reaches st s q u" using snoc.prems by (simp add: reaches_def)
    have "u = t \<longrightarrow> q = p" using own_unique [OF ok r s o t] ru by blast
    then have "u = t \<longrightarrow> length p \<noteq> 3" using snoc.prems by auto
    then have "below (f u j) = below (ptes st u j)" using c by (auto simp: f)
    then show ?thesis unfolding tab_snoc ih Some by simp
  qed
qed

lemma leaf_cong:
  assumes "tab f s q = tab g s q" "\<And>u. tab g s q = Some u \<Longrightarrow> f u j = g u j"
  shows "leaf f s q j = leaf g s q j"
  using assms by (auto simp: leaf_def split: option.split)

definition same_leaves :: "u64 set \<Rightarrow> vmm_state \<Rightarrow> vmm_state \<Rightarrow> bool" where
  "same_leaves R st st' \<longleftrightarrow> (\<forall>s \<in> R. \<forall>q j. length q = 3 \<longrightarrow> leaf (ptes st') s q j = leaf (ptes st) s q j)"

lemma spaces_ok_tabs:
  assumes "spaces_ok R st" "vm_pmm st' = vm_pmm st"
    and "\<And>s q. s \<in> R \<Longrightarrow> length q \<le> 3 \<Longrightarrow> tab (ptes st') s q = tab (ptes st) s q"
  shows "spaces_ok R st'"
proof -
  have "reaches st' s q t = reaches st s q t" if "s \<in> R" for s q t
    using assms(3) [OF that, of q] by (auto simp: reaches_def)
  then show ?thesis using assms(1,2) by (simp add: spaces_ok_def)
qed

lemma set_leaf:
  assumes ok: "spaces_ok R st" and r: "r \<in> R" and o: "own R r p" and t: "reaches st r p t" and lp: "length p = 3"
    and st': "st' = set_pte t i e st"
  shows "spaces_ok R st'"
    and "s \<in> R \<Longrightarrow> length q = 3 \<Longrightarrow> leaf (ptes st') s q j =
      (if s = r \<and> q = p \<and> j = i then (if e AND 1 = 0 then None else Some e) else leaf (ptes st) s q j)"
proof -
  have f: "ptes st' = (ptes st)(t := (ptes st t)(i := e))" using st' by (simp add: set_pte_def)
  have tabs: "tab (ptes st') s q = tab (ptes st) s q" if "s \<in> R" "length q \<le> 3" for s q
    using tab_leaf [OF ok r o t disjI1 [OF lp] f that] .
  show "spaces_ok R st'" using spaces_ok_tabs [OF ok _ tabs] st' by (simp add: set_pte_def)
  show "leaf (ptes st') s q j = (if s = r \<and> q = p \<and> j = i then (if e AND 1 = 0 then None else Some e) else leaf (ptes st) s q j)"
    if s: "s \<in> R" and q: "length q = 3"
  proof (cases "s = r \<and> q = p \<and> j = i")
    case True
    then have "tab (ptes st') s q = Some t" using t tabs [OF s] q by (simp add: reaches_def)
    then show ?thesis using True by (simp add: leaf_def f)
  next
    case False
    have "leaf (ptes st') s q j = leaf (ptes st) s q j"
    proof (rule leaf_cong)
      show "tab (ptes st') s q = tab (ptes st) s q" using tabs s q by simp
      fix u assume "tab (ptes st) s q = Some u"
      then have "reaches st s q u" using q by (simp add: reaches_def)
      then have "u = t \<longrightarrow> s = r \<and> q = p" using own_unique [OF ok r s o t] by blast
      then show "ptes st' u j = ptes st u j" using False by (auto simp: f)
    qed
    then show ?thesis unfolding if_not_P [OF False] .
  qed
qed

section \<open>The table below an entry\<close>

definition free_pages :: "pmm_state \<Rightarrow> nat set" where
  "free_pages p = {i. page_free p i}"

lemma finite_free_pages [simp]: "finite (free_pages p)"
  by (rule finite_subset [of _ "{..<total_pages p}"]) (auto simp: free_pages_def page_free_def)

lemma took_one:
  assumes "took_run p k 1 p'"
  shows "k < total_pages p" "total_pages p' = total_pages p" "page_free p k" "free_pages p' = free_pages p - {k}"
proof -
  have a: "k + 1 \<le> total_pages p" "total_pages p' = total_pages p" "\<forall>j. k \<le> j \<and> j < k + 1 \<longrightarrow> page_free p j"
    "\<forall>j. page_free p' j = (page_free p j \<and> \<not> (k \<le> j \<and> j < k + 1))"
    using assms unfolding took_run_def by blast+
  show "k < total_pages p" "total_pages p' = total_pages p" using a(1,2) by simp_all
  show "page_free p k" using spec [OF a(3), of k] by simp
  have "(k \<le> j \<and> j < k + 1) = (j = k)" for j by auto
  then show "free_pages p' = free_pages p - {k}" unfolding free_pages_def spec [OF a(4)] by (simp add: set_eq_iff)
qed

lemma hang_ok:
  assumes ok: "spaces_ok R st" and r: "r \<in> R" and o: "own R r p" and t: "reaches st r p t" and lp: "length p \<le> 2"
    and e0: "below (ptes st t i) = None" and took: "took_run (vm_pmm st) k 1 pm" and wf: "pmm_wf pm"
    and n: "n = of_nat (k * PAGE_SIZE)" and fl: "fl = 3 \<or> fl = 7"
    and st': "st' = set_pte t i (n OR fl) (clear_page n (st\<lparr>vm_pmm := pm\<rparr>))"
  shows "spaces_ok R st' \<and> same_leaves R st st' \<and> reaches st' r (p @ [i]) n \<and>
    (\<forall>s \<in> R. \<forall>q u. reaches st' s q u \<longrightarrow> reaches st s q u \<or> u = n)"
proof -
  have k: "k < 2 ^ 40" using took_one(1) [OF took] spaces_okD(2) [OF ok] by linarith
  have fr: "frame_no n = k" unfolding n by (rule frame_no_page [OF k])
  have bn: "below (n OR fl) = Some n" unfolding n by (rule below_new [OF k fl])
  have nn: "\<not> reaches st s q n" if "s \<in> R" for s q
    using spaces_okD(4) [OF ok that, of q n] took_one(3) [OF took] fr by auto
  then have nt: "n \<noteq> t" using t r by blast
  then have f: "ptes st' = (ptes st)(n := \<lambda>_. 0, t := (ptes st t)(i := n OR fl))"
    using st' by (simp add: set_pte_def clear_page_def)
  have tabs: "tab (ptes st') s q = (if s = r \<and> q = p @ [i] then Some n else tab (ptes st) s q)"
    if "s \<in> R" "length q \<le> 3" for s q
    using tab_hang [OF ok r o t lp e0 bn nn f that] .
  have reach: "reaches st' s q u \<longleftrightarrow> s = r \<and> q = p @ [i] \<and> u = n \<or> \<not> (s = r \<and> q = p @ [i]) \<and> reaches st s q u"
    if s: "s \<in> R" for s q u
  proof (cases "s = r \<and> q = p @ [i]")
    case True
    then have "length q \<le> 3" using lp by simp
    then show ?thesis using tabs [OF s, of q] True by (auto simp: reaches_def)
  next
    case False
    then have "length q \<le> 3 \<Longrightarrow> tab (ptes st') s q = tab (ptes st) s q" using tabs [OF s, of q] by (simp only: if_False)
    then have "reaches st' s q u = reaches st s q u" unfolding reaches_def by (intro conj_cong) simp_all
    then show ?thesis using False by blast
  qed
  have pm: "vm_pmm st' = pm" using st' by (simp add: set_pte_def clear_page_def)
  have fp: "page_free pm j \<longleftrightarrow> page_free (vm_pmm st) j \<and> j \<noteq> k" for j
    using took_one(4) [OF took] by (auto simp: free_pages_def)
  have inj: "x = q \<and> (a = s \<or> x \<noteq> [] \<and> 256 \<le> hd x)" if "a \<in> R" "s \<in> R" "reaches st' a x u" "reaches st' s q u" for a s x q u
    using that(3,4) nn [OF that(1), of x] nn [OF that(2), of q] spaces_okD(3) [OF ok that(1,2), of x u q]
    unfolding reach [OF that(1)] reach [OF that(2)] by blast
  have nf: "\<not> page_free (vm_pmm st') (frame_no u)" if "s \<in> R" "reaches st' s q u" for s q u
    using that(2) spaces_okD(4) [OF ok that(1), of q u] fr unfolding reach [OF that(1)] pm fp by blast
  have "spaces_ok R st'"
    by (rule spaces_okI [OF _ _ inj nf]) (use spaces_okD(2) [OF ok] wf took_one(2) [OF took] pm in auto)
  moreover have "same_leaves R st st'"
    unfolding same_leaves_def
  proof (intro ballI allI impI)
    fix s q j assume s: "s \<in> R" and q: "length (q::nat list) = 3"
    show "leaf (ptes st') s q j = leaf (ptes st) s q j"
    proof (cases "s = r \<and> q = p @ [i]")
      case True
      have "tab (ptes st) r p = Some t" using t by (simp add: reaches_def)
      then have "tab (ptes st) s q = None" using True e0 by (simp add: tab_snoc)
      moreover have "tab (ptes st') s q = Some n" using tabs [OF s, of q] True q by simp
      ultimately show ?thesis using nt by (simp add: leaf_def f)
    next
      case False
      show ?thesis
      proof (rule leaf_cong)
        show "tab (ptes st') s q = tab (ptes st) s q" using tabs [OF s, of q] False q by auto
        fix u assume "tab (ptes st) s q = Some u"
        then have ru: "reaches st s q u" using q by (simp add: reaches_def)
        then have "u \<noteq> n" using nn [OF s] by blast
        moreover have "u \<noteq> t" using own_unique [OF ok r s o t] ru q lp by auto
        ultimately show "ptes st' u j = ptes st u j" by (simp add: f)
      qed
    qed
  qed
  ultimately show ?thesis using reach [OF r, of "p @ [i]" n] reach by blast
qed

lemma same_leaves_refl: "ptes st' = ptes st \<Longrightarrow> same_leaves R st st'"
  by (simp add: same_leaves_def)

lemma same_leaves_trans: "same_leaves R st st1 \<Longrightarrow> same_leaves R st1 st2 \<Longrightarrow> same_leaves R st st2"
  by (simp add: same_leaves_def)

lemma reaches_pmm [simp]: "reaches (st\<lparr>vm_pmm := pm\<rparr>) s q t = reaches st s q t"
  by (simp add: reaches_def)

lemma pmm_change_ok:
  assumes ok: "spaces_ok R st" and pm: "pmm_wf pm" "total_pages pm = total_pages (vm_pmm st)"
    "\<And>i. page_free pm i \<Longrightarrow> page_free (vm_pmm st) i"
  shows "spaces_ok R (st\<lparr>vm_pmm := pm\<rparr>)"
proof (rule spaces_okI)
  show "\<not> page_free (vm_pmm (st\<lparr>vm_pmm := pm\<rparr>)) (frame_no t)" if "s \<in> R" "reaches (st\<lparr>vm_pmm := pm\<rparr>) s q t" for s q t
    using spaces_okD(4) [OF ok that(1), of q t] that(2) pm(3) by auto
  show "x = q \<and> (a = s \<or> x \<noteq> [] \<and> 256 \<le> hd x)"
    if "a \<in> R" "s \<in> R" "reaches (st\<lparr>vm_pmm := pm\<rparr>) a x u" "reaches (st\<lparr>vm_pmm := pm\<rparr>) s q u" for a s x q u
    using spaces_okD(3) [OF ok that(1,2), of x u q] that(3,4) unfolding reaches_pmm by blast
qed (use pm spaces_okD(2) [OF ok] in simp_all)

lemma took_free: "took_run p k 1 pm \<Longrightarrow> page_free pm i \<longleftrightarrow> page_free p i \<and> i \<noteq> k"
  using took_one(4) [of p k pm] by (auto simp: free_pages_def)

lemma alloc_ok:
  assumes ok: "spaces_ok R st" and al: "pmm_alloc (vm_pmm st) = (a, pm)"
  shows "spaces_ok R (st\<lparr>vm_pmm := pm\<rparr>)"
  using pmm_alloc_spec [OF spaces_okD(1) [OF ok] al]
proof (elim disjE exE conjE)
  fix k assume "took_run (vm_pmm st) k 1 pm" "pmm_wf pm"
  then show ?thesis using pmm_change_ok [OF ok, of pm] took_one(2) [of "vm_pmm st" k pm] by (simp add: took_free)
next
  assume "pm = vm_pmm st"
  then show ?thesis using ok by simp
qed

lemma alloc_free_ok:
  assumes ok: "spaces_ok R st" and al: "pmm_alloc (vm_pmm st) = (a, pm)" and a: "a \<noteq> 0"
  shows "spaces_ok R (st\<lparr>vm_pmm := pmm_free a pm\<rparr>)"
proof -
  obtain k where k: "a = k * PAGE_SIZE" "took_run (vm_pmm st) k 1 pm" "pmm_wf pm"
    using pmm_alloc_spec [OF spaces_okD(1) [OF ok] al] a by auto
  have r: "pmm_wf (pmm_free a pm)" "released pm {k} (pmm_free a pm)" using pmm_free_spec [OF k(3) a] k(1) by simp_all
  show ?thesis
  proof (rule pmm_change_ok [OF ok r(1)])
    show "total_pages (pmm_free a pm) = total_pages (vm_pmm st)"
      using r(2) took_one(2) [OF k(2)] by (simp add: released_def)
    show "page_free (vm_pmm st) i" if "page_free (pmm_free a pm) i" for i
      using that r(2) took_one(3) [OF k(2)] by (auto simp: released_def took_free [OF k(2)])
  qed
qed

lemma upgrade_ok:
  assumes ok: "spaces_ok R st" and r: "r \<in> R" and o: "own R r p" and t: "reaches st r p t" and lp: "length p \<le> 2"
    and e: "below e = below (ptes st t i)" and st': "st' = set_pte t i e st"
  shows "spaces_ok R st' \<and> same_leaves R st st' \<and> (\<forall>s \<in> R. \<forall>q u. reaches st' s q u = reaches st s q u)"
proof -
  have f: "ptes st' = (ptes st)(t := (ptes st t)(i := e))" using st' by (simp add: set_pte_def)
  have tabs: "tab (ptes st') s q = tab (ptes st) s q" if "s \<in> R" "length q \<le> 3" for s q
    using tab_leaf [OF ok r o t disjI2 [OF e] f that] .
  have "vm_pmm st' = vm_pmm st" using st' by (simp add: set_pte_def)
  then have "spaces_ok R st'" using spaces_ok_tabs [OF ok _ tabs] by blast
  moreover have "same_leaves R st st'"
    unfolding same_leaves_def
  proof (intro ballI allI impI, rule leaf_cong)
    fix s q j assume s: "s \<in> R" and q: "length (q::nat list) = 3"
    show "tab (ptes st') s q = tab (ptes st) s q" using tabs s q by simp
    fix u assume "tab (ptes st) s q = Some u"
    then have "reaches st s q u" using q by (simp add: reaches_def)
    then have "u \<noteq> t" using own_unique [OF ok r s o t] q lp by auto
    then show "ptes st' u j = ptes st u j" by (simp add: f)
  qed
  moreover have "\<forall>s \<in> R. \<forall>q u. reaches st' s q u = reaches st s q u" using tabs by (auto simp: reaches_def)
  ultimately show ?thesis by blast
qed

lemma goc_cases:
  assumes "get_or_create_table t i u st = (res, st')"
  obtains (old) a where "below (ptes st t i) = Some a" "res = (if phys_to_virt a st = 0 then None else Some a)"
      "st' = st \<or> st' = set_pte t i (ptes st t i OR 4) st"
  | (full) a pm where "below (ptes st t i) = None" "pmm_alloc (vm_pmm st) = (a, pm)" "(of_nat a :: u64) = 0"
      "res = None" "st' = st\<lparr>vm_pmm := pm\<rparr>"
  | (new) a pm fl where "below (ptes st t i) = None" "pmm_alloc (vm_pmm st) = (a, pm)" "(of_nat a :: u64) \<noteq> 0"
      "fl = 3 \<or> fl = 7" "st' = set_pte t i (of_nat a OR fl) (clear_page (of_nat a) (st\<lparr>vm_pmm := pm\<rparr>))"
      "res = (if phys_to_virt (of_nat a) st = 0 then None else Some (of_nat a))"
proof (cases "ptes st t i AND 1 = 0")
  case False
  show thesis
    by (rule old [of "PTE_GET_ADDR (ptes st t i)"])
      (use assms False in \<open>auto simp: get_or_create_table_def below_def Let_def split: if_splits\<close>)
next
  case True
  obtain a pm where al: "pmm_alloc (vm_pmm st) = (a, pm)" by (cases "pmm_alloc (vm_pmm st)")
  have b: "below (ptes st t i) = None" using True by (simp add: below_def)
  have off: "phys_to_virt x (set_pte t i e (clear_page y (st\<lparr>vm_pmm := pm\<rparr>))) = phys_to_virt x st" for x y e
    by (simp add: phys_to_virt_def set_pte_def clear_page_def)
  show thesis
  proof (cases "(of_nat a :: u64) = 0")
    case z: True
    show thesis by (rule full [OF b al z]) (use assms True al z in \<open>simp_all add: get_or_create_table_def\<close>)
  next
    case z: False
    show thesis
      by (rule new [OF b al z, of "if u then 7 else 3"])
        (use assms True al z off in \<open>auto simp: get_or_create_table_def Let_def split: if_splits\<close>)
  qed
qed

lemma goc_spec:
  assumes ok: "spaces_ok R st" and r: "r \<in> R" and o: "own R r p" and t: "reaches st r p t" and lp: "length p \<le> 2"
    and g: "get_or_create_table t i u st = (res, st')"
  shows "spaces_ok R st' \<and> same_leaves R st st' \<and> (\<forall>t'. res = Some t' \<longrightarrow> reaches st' r (p @ [i]) t')"
  using g
proof (cases rule: goc_cases)
  case (old a)
  have "reaches st r (p @ [i]) a" using t lp old(1) by (simp add: reaches_def tab_snoc)
  moreover have "spaces_ok R st' \<and> same_leaves R st st' \<and> (\<forall>s \<in> R. \<forall>q u. reaches st' s q u = reaches st s q u)"
    using old(3) upgrade_ok [OF ok r o t lp below_user refl, of i] ok same_leaves_refl by metis
  ultimately show ?thesis using old(2) r by (auto split: if_splits)
next
  case (full a pm)
  have "spaces_ok R st'" using alloc_ok [OF ok full(2)] full(5) by simp
  then show ?thesis using full(4,5) by (simp add: same_leaves_refl)
next
  case (new a pm fl)
  then obtain k where k: "a = k * PAGE_SIZE" "took_run (vm_pmm st) k 1 pm" "pmm_wf pm"
    using pmm_alloc_spec [OF spaces_okD(1) [OF ok] new(2)] by auto
  show ?thesis
    using hang_ok [OF ok r o t lp new(1) k(2,3) _ new(4) new(5)] k(1) new(6) by (auto split: if_splits)
qed

section \<open>Mapping and unmapping a page\<close>

lemma get_mapping_same:
  assumes "same_leaves R st st'" "s \<in> R"
  shows "vmm_get_mapping (Some s) w st' = vmm_get_mapping (Some s) w st"
  using assms by (simp add: get_mapping_leaf same_leaves_def path_of_def)

lemma get_mapping_set:
  assumes ok: "spaces_ok R st" and r: "r \<in> R" and o: "own R r (path_of (PAGE_ALIGN_DOWN v))"
    and t: "reaches st r (path_of (PAGE_ALIGN_DOWN v)) t" and s: "s \<in> R"
  shows "vmm_get_mapping (Some s) w (set_pte t (PT_INDEX (PAGE_ALIGN_DOWN v)) e st) =
    (if s = r \<and> page_no w = page_no v then (if e AND 1 = 0 then None else Some (PTE_GET_ADDR e, PTE_GET_FLAGS e))
     else vmm_get_mapping (Some s) w st)"
proof -
  have l: "length (path_of x) = 3" for x by (simp add: path_of_def)
  note sl = set_leaf(2) [OF ok r o t l refl s l [of "PAGE_ALIGN_DOWN w"], where i = "PT_INDEX (PAGE_ALIGN_DOWN v)" and e = e
      and j = "PT_INDEX (PAGE_ALIGN_DOWN w)"]
  show ?thesis unfolding get_mapping_leaf sl same_page by simp
qed

lemma map_page_spec:
  assumes ok: "spaces_ok R st" and r: "r \<in> R" and o: "PML4_INDEX v < 256 \<or> R = {r}" and fl: "flags AND ADDR_MASK = 0"
    and m: "vmm_map_page (Some r) v phys flags st = (res, st')"
  shows "spaces_ok R st' \<and> (\<forall>s \<in> R. \<forall>w. vmm_get_mapping (Some s) w st' =
     (if res \<and> s = r \<and> page_no w = page_no v then Some (phys AND ADDR_MASK, PTE_GET_FLAGS flags OR 1)
      else vmm_get_mapping (Some s) w st))"
proof -
  let ?v = "PAGE_ALIGN_DOWN v" and ?u = "flags AND 4 \<noteq> 0"
  have own: "own R r (PML4_INDEX ?v # p)" for p using o by (simp add: own_def)
  have fail: "spaces_ok R x \<and> (\<forall>s \<in> R. \<forall>w. vmm_get_mapping (Some s) w x = (if False \<and> s = r \<and> page_no w = page_no v then z else vmm_get_mapping (Some s) w st))"
    if "spaces_ok R x" "same_leaves R st x" for x z
    using that get_mapping_same [OF that(2)] by simp
  obtain a3 s1 where g1: "get_or_create_table r (PML4_INDEX ?v) ?u st = (a3, s1)" by (meson surj_pair)
  have 1: "spaces_ok R s1" "same_leaves R st s1" "\<And>t. a3 = Some t \<Longrightarrow> reaches s1 r [PML4_INDEX ?v] t"
    using goc_spec [OF ok r _ _ _ g1, of "[]"] by (simp_all add: own_def)
  show ?thesis
  proof (cases a3)
    case None
    then show ?thesis using m g1 fail [OF 1(1,2)] by (simp add: vmm_map_page_def)
  next
    case (Some t3)
    obtain a2 s2 where g2: "get_or_create_table t3 (PDPT_INDEX ?v) ?u s1 = (a2, s2)" by (meson surj_pair)
    have 2: "spaces_ok R s2" "same_leaves R st s2" "\<And>t. a2 = Some t \<Longrightarrow> reaches s2 r [PML4_INDEX ?v, PDPT_INDEX ?v] t"
      using goc_spec [OF 1(1) r own 1(3) [OF Some] _ g2] same_leaves_trans [OF 1(2)] by simp_all
    show ?thesis
    proof (cases a2)
      case None
      then show ?thesis using m g1 g2 Some fail [OF 2(1,2)] by (simp add: vmm_map_page_def)
    next
      case s: (Some t2)
      obtain a1 s3 where g3: "get_or_create_table t2 (PD_INDEX ?v) ?u s2 = (a1, s3)" by (meson surj_pair)
      have 3: "spaces_ok R s3" "same_leaves R st s3" "\<And>t. a1 = Some t \<Longrightarrow> reaches s3 r (path_of ?v) t"
        using goc_spec [OF 2(1) r own 2(3) [OF s] _ g3] same_leaves_trans [OF 2(2)] by (simp_all add: path_of_def)
      show ?thesis
      proof (cases a1)
        case None
        then show ?thesis using m g1 g2 g3 Some s fail [OF 3(1,2)] by (simp add: vmm_map_page_def)
      next
        case t: (Some t1)
        have op: "own R r (path_of ?v)" using own by (simp add: path_of_def)
        have x: "res" "st' = set_pte t1 (PT_INDEX ?v) (PAGE_ALIGN_DOWN phys OR flags OR 1) s3"
          using m g1 g2 g3 Some s t by (simp_all add: vmm_map_page_def)
        have "spaces_ok R st'" using set_leaf(1) [OF 3(1) r op 3(3) [OF t] _ x(2)] by (simp add: path_of_def)
        then show ?thesis
          unfolding x(2) get_mapping_set [OF 3(1) r op 3(3) [OF t]]
          using x(1) get_mapping_same [OF 3(2)] get_mapping_set [OF 3(1) r op 3(3) [OF t]]
          by (simp add: entry_fields [OF fl])
      qed
    qed
  qed
qed

lemma unmap_page_spec:
  assumes ok: "spaces_ok R st" and r: "r \<in> R" and o: "PML4_INDEX v < 256 \<or> R = {r}" and s: "s \<in> R"
  shows "spaces_ok R (vmm_unmap_page (Some r) v st) \<and> vmm_get_mapping (Some s) w (vmm_unmap_page (Some r) v st) =
     (if s = r \<and> page_no w = page_no v then None else vmm_get_mapping (Some s) w st)"
proof (cases "tab (ptes st) r (path_of (PAGE_ALIGN_DOWN v))")
  case None
  then have "vmm_unmap_page (Some r) v st = st"
    by (auto simp: vmm_unmap_page_def path_of_def below_def Let_def split: if_splits)
  moreover have "vmm_get_mapping (Some r) w st = None" if "page_no w = page_no v"
    using that None same_page [of w v] by (simp add: get_mapping_leaf leaf_def)
  ultimately show ?thesis using ok by auto
next
  case (Some t)
  have u: "vmm_unmap_page (Some r) v st = set_pte t (PT_INDEX (PAGE_ALIGN_DOWN v)) 0 st"
    using Some by (auto simp: vmm_unmap_page_def path_of_def below_def Let_def split: if_splits)
  have op: "own R r (path_of (PAGE_ALIGN_DOWN v))" using o by (simp add: own_def path_of_def)
  have t: "reaches st r (path_of (PAGE_ALIGN_DOWN v)) t" using Some by (simp add: reaches_def path_of_def)
  have "spaces_ok R (vmm_unmap_page (Some r) v st)"
    using set_leaf(1) [OF ok r op t _ u] by (simp add: path_of_def)
  then show ?thesis unfolding u using get_mapping_set [OF ok r op t s] by simp
qed

section \<open>A new address space\<close>

lemma copy_entries:
  assumes "n \<noteq> k"
  shows "fold (\<lambda>i s. set_pte n i (ptes s k i) s) is st =
    st\<lparr>ptes := (ptes st)(n := (\<lambda>i. if i \<in> set is then ptes st k i else ptes st n i))\<rparr>"
  using assms by (induction "is" arbitrary: st) (auto simp: set_pte_def fun_eq_iff)

lemma create_copied:
  assumes "n \<noteq> k"
  shows "copy_kernel_entries n k (st\<lparr>ptes := (ptes st)(n := \<lambda>_. 0)\<rparr>) =
    st\<lparr>ptes := (ptes st)(n := (\<lambda>i. if 256 \<le> i \<and> i < 512 then ptes st k i else 0))\<rparr>"
  unfolding copy_kernel_entries_def copy_entries [OF assms] using assms by (simp add: fun_upd_def del: upt_rec_numeral cong: if_cong)

lemma create_tabs:
  assumes n: "\<And>s q. s \<in> R \<Longrightarrow> \<not> reaches st s q n" and k: "k \<in> R"
    and f: "ptes st' = (ptes st)(n := (\<lambda>i. if 256 \<le> i \<and> i < 512 then ptes st k i else 0))"
  shows "s \<in> R \<Longrightarrow> length q \<le> 3 \<Longrightarrow> tab (ptes st') s q = tab (ptes st) s q"
    and "length (i # q) \<le> 3 \<Longrightarrow> tab (ptes st') n (i # q) = (if 256 \<le> i \<and> i < 512 then tab (ptes st) k (i # q) else None)"
proof -
  have old: "tab (ptes st') u p = tab (ptes st) u p"
    if "tab (ptes st) s q = Some u" "s \<in> R" "length (q @ p) \<le> 3" for s q u p
    using that
  proof (induction p arbitrary: u q)
    case (Cons j p)
    have "u \<noteq> n" using n [OF Cons.prems(2), of q] Cons.prems(1,3) by (auto simp: reaches_def)
    then have e: "ptes st' u j = ptes st u j" by (simp add: f)
    show ?case
    proof (cases "below (ptes st u j)")
      case (Some x)
      then have "tab (ptes st) s (q @ [j]) = Some x" using Cons.prems(1) by (simp add: tab_snoc)
      then show ?thesis using Cons.IH [of "q @ [j]" x] Cons.prems(2,3) Some e by simp
    qed (simp add: e)
  qed simp
  show "s \<in> R \<Longrightarrow> length q \<le> 3 \<Longrightarrow> tab (ptes st') s q = tab (ptes st) s q"
    using old [of s "[]" s q] by simp
  assume l: "length (i # q) \<le> 3"
  show "tab (ptes st') n (i # q) = (if 256 \<le> i \<and> i < 512 then tab (ptes st) k (i # q) else None)"
  proof (cases "256 \<le> i \<and> i < 512")
    case True
    then have e: "ptes st' n i = ptes st k i" by (simp add: f)
    show ?thesis
    proof (cases "below (ptes st k i)")
      case (Some x)
      then show ?thesis using old [of k "[i]" x q] k l True e by simp
    qed (use True e in simp)
  qed (auto simp: f below_def)
qed

lemma create_leaves:
  assumes nn: "\<And>s q. s \<in> R \<Longrightarrow> \<not> reaches st s q n" and k: "k \<in> R"
    and f: "ptes st' = (ptes st)(n := (\<lambda>i. if 256 \<le> i \<and> i < 512 then ptes st k i else 0))"
  shows "same_leaves R st st' \<and>
    (\<forall>i q x. length (i # q) = 3 \<longrightarrow> leaf (ptes st') n (i # q) x = (if 256 \<le> i \<and> i < 512 then leaf (ptes st) k (i # q) x else None))"
proof -
  have tabs: "tab (ptes st') s q = tab (ptes st) s q" if "s \<in> R" "length q \<le> 3" for s q
    by (rule create_tabs(1) [OF _ k f that]) (rule nn)
  have ntabs: "tab (ptes st') n (i # q) = (if 256 \<le> i \<and> i < 512 then tab (ptes st) k (i # q) else None)"
    if "length (i # q) \<le> 3" for i q
    by (rule create_tabs(2) [OF _ k f that]) (rule nn)
  have "same_leaves R st st'"
    unfolding same_leaves_def
  proof (intro ballI allI impI, rule leaf_cong)
    fix s q i assume s: "s \<in> R" and q: "length (q::nat list) = 3"
    show "tab (ptes st') s q = tab (ptes st) s q" using tabs s q by simp
    fix u assume "tab (ptes st) s q = Some u"
    then have "u \<noteq> n" using nn [OF s, of q] q by (auto simp: reaches_def)
    then show "ptes st' u i = ptes st u i" by (simp add: f)
  qed
  moreover have "leaf (ptes st') n (i # q) x = (if 256 \<le> i \<and> i < 512 then leaf (ptes st) k (i # q) x else None)"
    if l: "length (i # q) = 3" for i q x
  proof (cases "256 \<le> i \<and> i < 512")
    case True
    have t: "tab (ptes st') n (i # q) = tab (ptes st) k (i # q)" using ntabs [of i q] l True by (simp del: tab.simps)
    have "ptes st' u x = ptes st u x" if "tab (ptes st) k (i # q) = Some u" for u
      using that nn [OF k, of "i # q"] l by (auto simp: reaches_def f simp del: tab.simps)
    then show ?thesis unfolding leaf_def t using True by (simp del: tab.simps split: option.split)
  next
    case False
    then have "tab (ptes st') n (i # q) = None" using ntabs [of i q] l unfolding if_not_P [OF False] by simp
    then show ?thesis unfolding if_not_P [OF False] by (simp add: leaf_def del: tab.simps)
  qed
  ultimately show ?thesis by blast
qed

lemma create_ok:
  assumes ok: "spaces_ok R st" and k: "k \<in> R" and took: "took_run (vm_pmm st) j 1 pm" and wf: "pmm_wf pm"
    and nd: "n = of_nat (j * PAGE_SIZE)"
    and st': "st' = st\<lparr>vm_pmm := pm, ptes := (ptes st)(n := (\<lambda>i. if 256 \<le> i \<and> i < 512 then ptes st k i else 0))\<rparr>"
  shows "spaces_ok (insert n R) st' \<and> n \<notin> R \<and> same_leaves R st st' \<and>
    (\<forall>i q x. length (i # q) = 3 \<longrightarrow> leaf (ptes st') n (i # q) x = (if 256 \<le> i \<and> i < 512 then leaf (ptes st) k (i # q) x else None))"
proof -
  have f: "ptes st' = (ptes st)(n := (\<lambda>i. if 256 \<le> i \<and> i < 512 then ptes st k i else 0))" using st' by simp
  have "j < 2 ^ 40" using took_one(1) [OF took] spaces_okD(2) [OF ok] by linarith
  then have fr: "frame_no n = j" unfolding nd by (rule frame_no_page)
  have nn: "\<not> reaches st s q n" if "s \<in> R" for s q
    using spaces_okD(4) [OF ok that, of q n] took_one(3) [OF took] fr by auto
  have tabs: "tab (ptes st') s q = tab (ptes st) s q" if "s \<in> R" "length q \<le> 3" for s q
    by (rule create_tabs(1) [OF _ k f that]) (rule nn)
  have ntabs: "tab (ptes st') n (i # q) = (if 256 \<le> i \<and> i < 512 then tab (ptes st) k (i # q) else None)"
    if "length (i # q) \<le> 3" for i q
    by (rule create_tabs(2) [OF _ k f that]) (rule nn)
  have nR: "n \<notin> R" using nn [of n "[]"] by auto
  have old: "reaches st' s q u = reaches st s q u" if "s \<in> R" for s q u
    using tabs [OF that, of q] by (auto simp: reaches_def)
  have new: "q = [] \<and> u = n \<or> q \<noteq> [] \<and> 256 \<le> hd q \<and> reaches st k q u" if "reaches st' n q u" for q u
  proof (cases q)
    case (Cons i p)
    then show ?thesis using that ntabs [of i p] by (auto simp: reaches_def simp del: tab.simps split: if_splits)
  qed (use that in simp)
  have inj: "x = q \<and> (a = s \<or> x \<noteq> [] \<and> 256 \<le> hd x)"
    if "a \<in> insert n R" "s \<in> insert n R" "reaches st' a x u" "reaches st' s q u" for a s x q u
  proof -
    have D: "x = q \<and> (a = s \<or> x \<noteq> [] \<and> 256 \<le> hd x)" if "a \<in> R" "s \<in> R" "reaches st a x u" "reaches st s q u" for a s
      using spaces_okD(3) [OF ok that] .
    show ?thesis
    proof (cases "a = n"; cases "s = n")
      assume "a = n" "s = n"
      then show ?thesis using new that(3,4) D [OF k k] nn [OF k] by blast
    next
      assume "a = n" "s \<noteq> n"
      then show ?thesis using new [of x u] that D [OF k, of s] old [of s q u] nn [of s q] by blast
    next
      assume "a \<noteq> n" "s = n"
      then show ?thesis using new [of q u] that D [OF _ k, of a] old [of a x u] nn [of a x] by blast
    next
      assume "a \<noteq> n" "s \<noteq> n"
      then show ?thesis using that D [of a s] old [of a x u] old [of s q u] by blast
    qed
  qed
  have fp: "page_free pm i \<longleftrightarrow> page_free (vm_pmm st) i \<and> i \<noteq> j" for i
    using took_one(4) [OF took] by (auto simp: free_pages_def)
  have nf: "\<not> page_free (vm_pmm st') (frame_no u)" if "s \<in> insert n R" "reaches st' s q u" for s q u
    using that old [of s q u] new [of q u] spaces_okD(4) [OF ok, of s q u] spaces_okD(4) [OF ok k, of q u] fr fp
    by (auto simp: st')
  have "spaces_ok (insert n R) st'"
    by (rule spaces_okI [OF _ _ inj nf]) (use spaces_okD(2) [OF ok] wf took_one(2) [OF took] in \<open>simp_all add: st'\<close>)
  moreover have "same_leaves R st st' \<and>
    (\<forall>i q x. length (i # q) = 3 \<longrightarrow> leaf (ptes st') n (i # q) x = (if 256 \<le> i \<and> i < 512 then leaf (ptes st) k (i # q) x else None))"
    by (rule create_leaves [OF _ k f]) (rule nn)
  ultimately show ?thesis using nR by blast
qed

lemma create_page_table_spec:
  assumes ok: "spaces_ok R st" and k: "k \<in> R" "kernel_page_table st = Some k"
    and c: "vmm_create_page_table mem st = (res, st')"
  shows "spaces_ok (set_option res \<union> R) st' \<and> same_leaves R st st' \<and>
    (\<forall>n. res = Some n \<longrightarrow> n \<notin> R \<and>
       (\<forall>w. vmm_get_mapping (Some n) w st' = (if 256 \<le> PML4_INDEX w then vmm_get_mapping (Some k) w st else None)))"
proof -
  obtain a pm where al: "pmm_alloc (vm_pmm st) = (a, pm)" by (cases "pmm_alloc (vm_pmm st)")
  let ?n = "of_nat a :: u64"
  show ?thesis
  proof (cases "mem \<and> ?n \<noteq> 0 \<and> phys_to_virt ?n st \<noteq> 0")
    case True
    then have "a \<noteq> 0" by (intro notI) simp
    then obtain j where j: "a = j * PAGE_SIZE" "took_run (vm_pmm st) j 1 pm" "pmm_wf pm"
      using pmm_alloc_spec [OF spaces_okD(1) [OF ok] al] by blast
    have "?n \<noteq> k"
    proof
      assume "?n = k"
      then have "\<not> page_free (vm_pmm st) (frame_no ?n)" using spaces_okD(4) [OF ok k(1), of "[]" k] by simp
      moreover have "j < 2 ^ 40" using took_one(1) [OF j(2)] spaces_okD(2) [OF ok] by linarith
      ultimately show False using took_one(3) [OF j(2)] frame_no_page [of j] j(1) by simp
    qed
    then have cc: "copy_kernel_entries ?n k (clear_page ?n (st\<lparr>vm_pmm := pm\<rparr>)) =
        st\<lparr>vm_pmm := pm, ptes := (ptes st)(?n := (\<lambda>i. if 256 \<le> i \<and> i < 512 then ptes st k i else 0))\<rparr>"
      using create_copied [of ?n k "st\<lparr>vm_pmm := pm\<rparr>"] by (simp add: clear_page_def cong: if_cong)
    have "kernel_page_table (clear_page ?n (st\<lparr>vm_pmm := pm\<rparr>)) = Some k" using k(2) by (simp add: clear_page_def)
    then have r: "res = Some ?n" and s: "st' = st\<lparr>vm_pmm := pm, ptes := (ptes st)(?n := (\<lambda>i. if 256 \<le> i \<and> i < 512 then ptes st k i else 0))\<rparr>"
      using c al True cc by (simp_all add: vmm_create_page_table_def phys_to_virt_def Let_def)
    note x = create_ok [OF ok k(1) j(2,3) _ s]
    have "vmm_get_mapping (Some ?n) w st' = (if 256 \<le> PML4_INDEX w then vmm_get_mapping (Some k) w st else None)" for w
      using x j(1) PML4_INDEX_less [of w] by (simp add: get_mapping_leaf path_of_def)
    then show ?thesis using x j(1) r by auto
  next
    case False
    have "a \<noteq> 0" if "?n \<noteq> 0" using that by (intro notI) simp
    then have "spaces_ok R st'" "ptes st' = ptes st" "res = None"
      using c al False ok alloc_ok [OF ok al] alloc_free_ok [OF ok al]
      by (auto simp: vmm_create_page_table_def phys_to_virt_def Let_def split: if_splits)
    then show ?thesis by (simp add: same_leaves_refl)
  qed
qed

section \<open>Mapping succeeds\<close>

text \<open>The direct map has a non-null address for every page of memory and every table of the space.\<close>

definition direct_map :: "u64 \<Rightarrow> vmm_state \<Rightarrow> bool" where
  "direct_map r st \<longleftrightarrow> (\<forall>k < total_pages (vm_pmm st). phys_to_virt (of_nat (k * PAGE_SIZE)) st \<noteq> 0) \<and>
     (\<forall>p t. reaches st r p t \<longrightarrow> phys_to_virt t st \<noteq> 0)"

lemma direct_mapD: "direct_map r st \<Longrightarrow> reaches st r p t \<Longrightarrow> phys_to_virt t st \<noteq> 0"
  by (auto simp: direct_map_def)

lemma direct_map_keep:
  assumes "direct_map r st" "g_hhdm_offset st' = g_hhdm_offset st" "total_pages (vm_pmm st') = total_pages (vm_pmm st)"
    "\<And>q u. reaches st' r q u \<Longrightarrow> reaches st r q u \<or> (\<exists>k < total_pages (vm_pmm st). u = of_nat (k * PAGE_SIZE))"
  shows "direct_map r st'"
proof -
  have v: "phys_to_virt u st' = phys_to_virt u st" for u using assms(2) by (simp add: phys_to_virt_def)
  show ?thesis using assms(1,4) unfolding direct_map_def v assms(3) by blast
qed

lemma goc_live:
  assumes ok: "spaces_ok R st" and r: "r \<in> R" and o: "own R r p" and t: "reaches st r p t" and lp: "length p \<le> 2"
    and g: "get_or_create_table t i u st = (res, st')"
    and d: "direct_map r st" and z: "0 \<notin> free_pages (vm_pmm st)" and c: "Suc n \<le> card (free_pages (vm_pmm st))"
  shows "res \<noteq> None \<and> direct_map r st' \<and> 0 \<notin> free_pages (vm_pmm st') \<and> n \<le> card (free_pages (vm_pmm st'))"
  using g
proof (cases rule: goc_cases)
  case (old a)
  have "reaches st r (p @ [i]) a" using t lp old(1) by (simp add: reaches_def tab_snoc)
  then have "res \<noteq> None" using old(2) direct_mapD [OF d] by simp
  moreover have "\<forall>q u. reaches st' r q u = reaches st r q u"
    using old(3) upgrade_ok [OF ok r o t lp below_user refl, of i] r by auto
  moreover have "vm_pmm st' = vm_pmm st" "g_hhdm_offset st' = g_hhdm_offset st" using old(3) by (auto simp: set_pte_def)
  ultimately show ?thesis using direct_map_keep [OF d, of st'] z c by simp
next
  case (full a pm)
  have "free_pages (vm_pmm st) \<noteq> {}" using c by auto
  then obtain k where k: "a = k * PAGE_SIZE" "took_run (vm_pmm st) k 1 pm"
    using pmm_alloc_spec [OF spaces_okD(1) [OF ok] full(2)] by (auto simp: free_pages_def)
  have "k < 2 ^ 40" using took_one(1) [OF k(2)] spaces_okD(2) [OF ok] by linarith
  then have "k = 0" using frame_no_page [of k] full(3) k(1) by (simp add: frame_no_def)
  then have False using took_one(3) [OF k(2)] z by (simp add: free_pages_def)
  then show ?thesis ..
next
  case (new a pm fl)
  then obtain k where k: "a = k * PAGE_SIZE" "took_run (vm_pmm st) k 1 pm" "pmm_wf pm"
    using pmm_alloc_spec [OF spaces_okD(1) [OF ok] new(2)] by auto
  have kt: "k < total_pages (vm_pmm st)" by (rule took_one(1) [OF k(2)])
  have h: "\<forall>q u. reaches st' r q u \<longrightarrow> reaches st r q u \<or> u = of_nat a"
    using hang_ok [OF ok r o t lp new(1) k(2,3) _ new(4) new(5)] k(1) r by blast
  have pm: "vm_pmm st' = pm" "g_hhdm_offset st' = g_hhdm_offset st" using new(5) by (simp_all add: set_pte_def clear_page_def)
  have "phys_to_virt (of_nat a) st \<noteq> 0" using d kt k(1) unfolding direct_map_def by blast
  then have "res \<noteq> None" using new(6) by simp
  moreover have "direct_map r st'"
    by (rule direct_map_keep [OF d]) (use h k(1) kt pm took_one(2) [OF k(2)] in auto)
  moreover have "n \<le> card (free_pages pm)"
    using c took_one(3,4) [OF k(2)] by (simp add: free_pages_def)
  moreover have "0 \<notin> free_pages pm" using z took_one(4) [OF k(2)] by simp
  ultimately show ?thesis using pm by simp
qed

lemma map_page_live:
  assumes ok: "spaces_ok R st" and r: "r \<in> R" and o: "PML4_INDEX v < 256 \<or> R = {r}"
    and d: "direct_map r st" and z: "0 \<notin> free_pages (vm_pmm st)" and c: "3 \<le> card (free_pages (vm_pmm st))"
  shows "fst (vmm_map_page (Some r) v phys flags st)"
proof -
  let ?v = "PAGE_ALIGN_DOWN v" and ?u = "flags AND 4 \<noteq> 0"
  have own: "own R r (PML4_INDEX ?v # p)" for p using o by (simp add: own_def)
  obtain a3 s1 where g1: "get_or_create_table r (PML4_INDEX ?v) ?u st = (a3, s1)" by (meson surj_pair)
  have c1: "Suc 2 \<le> card (free_pages (vm_pmm st))" using c by simp
  note 1 = goc_spec [OF ok r _ _ _ g1, of "[]", simplified own_def, simplified]
  note l1 = goc_live [OF ok r _ _ _ g1 d z c1, of "[]", simplified own_def, simplified]
  obtain t3 where t3: "a3 = Some t3" using l1 by auto
  obtain a2 s2 where g2: "get_or_create_table t3 (PDPT_INDEX ?v) ?u s1 = (a2, s2)" by (meson surj_pair)
  have r1: "reaches s1 r [PML4_INDEX ?v] t3" and k1: "spaces_ok R s1" using 1 t3 by auto
  have l2: "a2 \<noteq> None \<and> direct_map r s2 \<and> 0 \<notin> free_pages (vm_pmm s2) \<and> 1 \<le> card (free_pages (vm_pmm s2))"
    using goc_live [OF k1 r own r1 _ g2, of 1] l1 by simp
  obtain t2 where t2: "a2 = Some t2" using l2 by auto
  obtain a1 s3 where g3: "get_or_create_table t2 (PD_INDEX ?v) ?u s2 = (a1, s3)" by (meson surj_pair)
  have r2: "reaches s2 r [PML4_INDEX ?v, PDPT_INDEX ?v] t2" and k2: "spaces_ok R s2"
    using goc_spec [OF k1 r own r1 _ g2] t2 by simp_all
  have "a1 \<noteq> None" using goc_live [OF k2 r own r2 _ g3, of 0] l2 by simp
  then obtain t1 where "a1 = Some t1" by auto
  then show ?thesis using g1 g2 g3 t3 t2 by (simp add: vmm_map_page_def)
qed

section \<open>What the page tables promise\<close>

text \<open>A machine with one empty space, whose top table is page 1.\<close>

definition example_vmm :: vmm_state where
  "example_vmm = \<lparr>ptes = (\<lambda>_ _. 0), vm_pmm = example_pmm, kernel_page_table = Some 4096, cr3 = 4096, g_hhdm_offset = 1\<rparr>"

lemma example_reaches: "reaches example_vmm r p t \<longleftrightarrow> p = [] \<and> t = r"
  by (cases p) (auto simp: reaches_def example_vmm_def below_def)

lemma example_free: "page_free example_pmm i \<longleftrightarrow> 2 \<le> i \<and> i < 8"
  using example_pmm_bits [of i] by (auto simp: page_free_def bitmap_test_def example_pmm_def)

lemma example_spaces_ok: "spaces_ok {4096} example_vmm"
proof (rule spaces_okI)
  have "vm_pmm example_vmm = example_pmm" by (simp add: example_vmm_def)
  then show "pmm_wf (vm_pmm example_vmm)" "total_pages (vm_pmm example_vmm) \<le> 2 ^ 40"
    "\<And>r p t. r \<in> {4096} \<Longrightarrow> reaches example_vmm r p t \<Longrightarrow> \<not> page_free (vm_pmm example_vmm) (frame_no t)"
    using example_pmm_wf by (simp_all add: example_reaches example_free frame_no_def) (simp add: example_pmm_def)
qed (simp add: example_reaches)

text \<open>C34: mapping a page refines an update of the map from pages to frames. For a page of the lower half, or when
  there is only one space, \<open>vmm_map_page\<close> keeps the trees of all spaces well formed; when it returns true the
  page is mapped to the frame with the given flags, and every other page of this space and every page of every other
  space is mapped as before; when it returns false nothing is mapped differently.\<close>

theorem map_page_isolated:
  assumes "spaces_ok R st" and "r \<in> R" and "PML4_INDEX v < 256 \<or> R = {r}" and "flags AND ADDR_MASK = 0"
    and "vmm_map_page (Some r) v phys flags st = (res, st')"
  shows "spaces_ok R st' \<and> (\<forall>s \<in> R. \<forall>w. vmm_get_mapping (Some s) w st' =
     (if res \<and> s = r \<and> page_no w = page_no v then Some (phys AND ADDR_MASK, PTE_GET_FLAGS flags OR 1)
      else vmm_get_mapping (Some s) w st))"
  by (rule map_page_spec [OF assms])

text \<open>\<open>vmm_map_page\<close> succeeds whenever three pages are free, page 0 is not among them, and the direct map has no
  null address.\<close>

theorem map_page_succeeds:
  assumes "spaces_ok R st" and "r \<in> R" and "PML4_INDEX v < 256 \<or> R = {r}"
    and "direct_map r st" and "0 \<notin> free_pages (vm_pmm st)" and "3 \<le> card (free_pages (vm_pmm st))"
  shows "fst (vmm_map_page (Some r) v phys flags st)"
  by (rule map_page_live [OF assms])

text \<open>C35: unmapping a page of the lower half, or of the only space, removes that page from the map of its space and changes no other page of
  any space.\<close>

theorem unmap_page_correct:
  assumes "spaces_ok R st" and "r \<in> R" and "PML4_INDEX v < 256 \<or> R = {r}"
  shows "spaces_ok R (vmm_unmap_page (Some r) v st) \<and>
    (\<forall>s \<in> R. \<forall>w. vmm_get_mapping (Some s) w (vmm_unmap_page (Some r) v st) =
       (if s = r \<and> page_no w = page_no v then None else vmm_get_mapping (Some s) w st))"
  using unmap_page_spec [OF assms] assms(2) by blast

text \<open>C36: a new page table is a space of its own: its top table is no table of another space, its lower half is
  empty, its upper half is that of the kernel, and creating it, or failing to, changes no mapping of another space.\<close>

theorem create_page_table_correct:
  assumes "spaces_ok R st" and "k \<in> R" and "kernel_page_table st = Some k"
    and "vmm_create_page_table mem st = (res, st')"
  shows "spaces_ok (set_option res \<union> R) st' \<and>
    (\<forall>s \<in> R. \<forall>w. vmm_get_mapping (Some s) w st' = vmm_get_mapping (Some s) w st) \<and>
    (\<forall>n. res = Some n \<longrightarrow> n \<notin> R \<and>
       (\<forall>w. vmm_get_mapping (Some n) w st' = (if 256 \<le> PML4_INDEX w then vmm_get_mapping (Some k) w st else None)))"
  using create_page_table_spec [OF assms] get_mapping_same [of R st st'] by blast

lemma example_direct_map: "direct_map 4096 example_vmm"
  unfolding direct_map_def
proof (intro conjI allI impI)
  fix k assume "k < total_pages (vm_pmm example_vmm)"
  then have k: "k < 2 ^ 40" by (simp add: example_vmm_def example_pmm_def)
  have "(of_nat (k * PAGE_SIZE) :: u64) + 1 \<noteq> 0"
  proof
    assume a: "(of_nat (k * PAGE_SIZE) :: u64) + 1 = 0"
    have "(of_nat (k * PAGE_SIZE) :: u64) = - 1" using a unfolding eq_neg_iff_add_eq_0 .
    then have "(- 1 :: u64) AND ADDR_MASK = - 1" using frame_mask [OF k] by metis
    then show False by simp
  qed
  then show "phys_to_virt (of_nat (k * PAGE_SIZE)) example_vmm \<noteq> 0" by (simp add: phys_to_virt_def example_vmm_def)
next
  fix p t assume "reaches example_vmm 4096 p t"
  then have "t = 4096" by (simp add: example_reaches)
  then show "phys_to_virt t example_vmm \<noteq> 0" by (simp add: phys_to_virt_def example_vmm_def)
qed

lemma example_free_pages: "free_pages (vm_pmm example_vmm) = {2..<8}"
  by (auto simp: free_pages_def example_vmm_def example_free)

theorem map_page_succeeds_witness: "fst (vmm_map_page (Some 4096) 0x400000 0x7000 7 example_vmm)"
  by (rule map_page_succeeds [OF example_spaces_ok _ _ example_direct_map]) (simp_all add: example_free_pages)

theorem map_page_isolated_witness:
  "let st' = snd (vmm_map_page (Some 4096) 0x400000 0x7000 7 example_vmm)
   in vmm_get_mapping (Some 4096) 0x400123 st' =
        (if fst (vmm_map_page (Some 4096) 0x400000 0x7000 7 example_vmm) then Some (0x7000, 7) else None) \<and>
      vmm_get_mapping (Some 4096) 0x401000 st' = None"
proof -
  have e: "vmm_get_mapping (Some 4096) w example_vmm = None" for w
    by (simp add: vmm_get_mapping_def example_vmm_def)
  have p: "page_no 0x400123 = page_no 0x400000" "page_no 0x401000 \<noteq> page_no 0x400000"
    by (simp_all add: page_no_def drop_bit_eq_div take_bit_eq_mod)
  show ?thesis
    using map_page_isolated [OF example_spaces_ok _ _ _ prod.collapse [symmetric], of 4096 "0x400000" 7 "0x7000"] p
    by (simp add: Let_def e PTE_GET_FLAGS_def)
qed

theorem unmap_page_correct_witness: "spaces_ok {4096} (vmm_unmap_page (Some 4096) 0x400000 example_vmm)"
  using unmap_page_correct [OF example_spaces_ok, of 4096 "0x400000"] by simp

theorem create_page_table_correct_witness:
  "spaces_ok (set_option (fst (vmm_create_page_table True example_vmm)) \<union> {4096}) (snd (vmm_create_page_table True example_vmm))"
  using create_page_table_correct [OF example_spaces_ok _ _ prod.collapse [symmetric], of 4096 True]
  by (simp add: example_vmm_def)

end
