(* ===== verification/Pipe.thy ===== *)
theory Pipe
  imports Prelude
begin

text \<open>
  The pipes of \<open>src/src/core/syscall.c\<close>: a table of ring buffers with counts of their endpoints. The ring
  buffer refines a queue of bytes, and along every interleaving of reads and writes the bytes come out in the order
  in which they were accepted. The tests of the functions for null pointers have no counterpart: a pipe is given by its
  contents and a buffer by its bytes, and the callers have checked both.
\<close>

section \<open>The ring buffer\<close>

abbreviation (input) PIPE_CAPACITY :: nat where "PIPE_CAPACITY \<equiv> 4096"
abbreviation (input) PIPE_MAX :: nat where "PIPE_MAX \<equiv> 32"

record process_pipe =
  pp_used :: bool
  pp_refs :: nat
  pp_readers :: nat
  pp_writers :: nat
  pp_read_pos :: nat
  pp_write_pos :: nat
  pp_count :: nat
  pp_buffer :: bytes

definition zero_pipe :: process_pipe where
  "zero_pipe = \<lparr>pp_used = False, pp_refs = 0, pp_readers = 0, pp_writers = 0, pp_read_pos = 0, pp_write_pos = 0, pp_count = 0,
     pp_buffer = replicate PIPE_CAPACITY 0\<rparr>"

fun pipe_scan :: "process_pipe list \<Rightarrow> nat \<Rightarrow> nat option" where
  "pipe_scan [] i = None"
| "pipe_scan (p # ps) i = (if pp_used p then pipe_scan ps (i + 1) else Some i)"

definition pipe_alloc :: "process_pipe list \<Rightarrow> (nat \<times> process_pipe list) option" where
  "pipe_alloc ps =
     (case pipe_scan ps 0 of
        None \<Rightarrow> None
      | Some i \<Rightarrow> Some (i, ps[i := zero_pipe\<lparr>pp_used := True\<rparr>]))"

definition pipe_ref_endpoint :: "bool \<Rightarrow> bool \<Rightarrow> process_pipe \<Rightarrow> process_pipe" where
  "pipe_ref_endpoint can_read can_write p =
     (if \<not> pp_used p then p
      else
        let p1 = p\<lparr>pp_refs := (pp_refs p + 1) mod 2 ^ 32\<rparr>;
            p2 = (if can_read then p1\<lparr>pp_readers := (pp_readers p1 + 1) mod 2 ^ 32\<rparr> else p1)
        in if can_write then p2\<lparr>pp_writers := (pp_writers p2 + 1) mod 2 ^ 32\<rparr> else p2)"

definition pipe_release_endpoint :: "bool \<Rightarrow> bool \<Rightarrow> process_pipe \<Rightarrow> process_pipe" where
  "pipe_release_endpoint can_read can_write p =
     (if \<not> pp_used p then p
      else
        let p1 = (if can_read \<and> pp_readers p > 0 then p\<lparr>pp_readers := pp_readers p - 1\<rparr> else p);
            p2 = (if can_write \<and> pp_writers p1 > 0 then p1\<lparr>pp_writers := pp_writers p1 - 1\<rparr> else p1);
            p3 = (if pp_refs p2 > 0 then p2\<lparr>pp_refs := pp_refs p2 - 1\<rparr> else p2)
        in if pp_refs p3 = 0 then zero_pipe else p3)"

text \<open>The loops: what is left to read or to write, and what is done so far.\<close>

fun pipe_read_loop :: "nat \<Rightarrow> bytes \<Rightarrow> process_pipe \<Rightarrow> bytes \<times> process_pipe" where
  "pipe_read_loop 0 out p = (out, p)"
| "pipe_read_loop (Suc n) out p =
     (if pp_count p > 0
      then pipe_read_loop n (out @ [pp_buffer p ! pp_read_pos p])
             (p\<lparr>pp_read_pos := (pp_read_pos p + 1) mod PIPE_CAPACITY, pp_count := pp_count p - 1\<rparr>)
      else (out, p))"

definition pipe_read_bytes :: "nat \<Rightarrow> process_pipe \<Rightarrow> int \<times> bytes \<times> process_pipe" where
  "pipe_read_bytes len p =
     (if \<not> pp_used p then (-1, [], p)
      else
        let (out, p1) = pipe_read_loop len [] p in
        if out = [] \<and> pp_writers p1 \<noteq> 0 then (0, [], p1) else (int (length out), out, p1))"

fun pipe_write_loop :: "bytes \<Rightarrow> nat \<Rightarrow> process_pipe \<Rightarrow> nat \<times> process_pipe" where
  "pipe_write_loop [] n p = (n, p)"
| "pipe_write_loop (b # bs) n p =
     (if pp_count p < PIPE_CAPACITY
      then pipe_write_loop bs (n + 1)
             (p\<lparr>pp_buffer := (pp_buffer p)[pp_write_pos p := b], pp_write_pos := (pp_write_pos p + 1) mod PIPE_CAPACITY,
                pp_count := pp_count p + 1\<rparr>)
      else (n, p))"

text \<open>The buffer that is written is None for a null pointer.\<close>

definition pipe_write_bytes :: "bytes option \<Rightarrow> process_pipe \<Rightarrow> int \<times> process_pipe" where
  "pipe_write_bytes buf p =
     (case buf of
        None \<Rightarrow> (-1, p)
      | Some bs \<Rightarrow>
        if \<not> pp_used p \<or> pp_readers p = 0 then (-1, p)
        else let (n, p1) = pipe_write_loop bs 0 p in (int n, p1))"

section \<open>A pipe is a queue\<close>

definition pipe_ok :: "process_pipe \<Rightarrow> bool" where
  "pipe_ok p \<longleftrightarrow> length (pp_buffer p) = PIPE_CAPACITY \<and> pp_read_pos p < PIPE_CAPACITY \<and> pp_count p \<le> PIPE_CAPACITY \<and>
     pp_write_pos p = (pp_read_pos p + pp_count p) mod PIPE_CAPACITY"

definition pipe_queue :: "process_pipe \<Rightarrow> bytes" where
  "pipe_queue p = map (\<lambda>i. pp_buffer p ! ((pp_read_pos p + i) mod PIPE_CAPACITY)) [0..<pp_count p]"

definition same_ends :: "process_pipe \<Rightarrow> process_pipe \<Rightarrow> bool" where
  "same_ends p p' \<longleftrightarrow> pp_used p' = pp_used p \<and> pp_refs p' = pp_refs p \<and> pp_readers p' = pp_readers p \<and> pp_writers p' = pp_writers p"

lemma length_pipe_queue [simp]: "length (pipe_queue p) = pp_count p"
  by (simp add: pipe_queue_def)

lemma nth_pipe_queue: "i < pp_count p \<Longrightarrow> pipe_queue p ! i = pp_buffer p ! ((pp_read_pos p + i) mod PIPE_CAPACITY)"
  by (simp add: pipe_queue_def)

lemma read_step:
  assumes "pipe_ok p" "0 < pp_count p"
    and p': "p' = p\<lparr>pp_read_pos := (pp_read_pos p + 1) mod PIPE_CAPACITY, pp_count := pp_count p - 1\<rparr>"
  shows "pipe_ok p' \<and> pipe_queue p = pp_buffer p ! pp_read_pos p # pipe_queue p'"
proof
  obtain c where "pp_count p = Suc c" using assms(2) by (cases "pp_count p") auto
  then have "(pp_read_pos p + pp_count p) mod 4096 = ((pp_read_pos p + 1) mod 4096 + (pp_count p - 1)) mod 4096"
    by (simp add: mod_add_left_eq)
  then show "pipe_ok p'" using assms by (auto simp: pipe_ok_def)
  show "pipe_queue p = pp_buffer p ! pp_read_pos p # pipe_queue p'"
  proof (rule nth_equalityI)
    show "length (pipe_queue p) = length (pp_buffer p ! pp_read_pos p # pipe_queue p')" using assms(2) by (simp add: p')
    fix i assume i: "i < length (pipe_queue p)"
    show "pipe_queue p ! i = (pp_buffer p ! pp_read_pos p # pipe_queue p') ! i"
    proof (cases i)
      case 0
      then show ?thesis using assms(1,2) by (simp add: nth_pipe_queue pipe_ok_def)
    next
      case (Suc j)
      then show ?thesis using i by (simp add: nth_pipe_queue p' mod_Suc_eq mod_add_left_eq)
    qed
  qed
qed

lemma write_step:
  assumes ok: "pipe_ok p" and c: "pp_count p < PIPE_CAPACITY"
    and p': "p' = p\<lparr>pp_buffer := (pp_buffer p)[pp_write_pos p := b], pp_write_pos := (pp_write_pos p + 1) mod PIPE_CAPACITY,
                pp_count := pp_count p + 1\<rparr>"
  shows "pipe_ok p' \<and> pipe_queue p' = pipe_queue p @ [b]"
proof
  show "pipe_ok p'" using assms by (auto simp: pipe_ok_def mod_Suc_eq)
  have w: "pp_write_pos p = (pp_read_pos p + pp_count p) mod 4096" "pp_write_pos p < 4096" using ok by (auto simp: pipe_ok_def)
  show "pipe_queue p' = pipe_queue p @ [b]"
  proof (rule nth_equalityI)
    show "length (pipe_queue p') = length (pipe_queue p @ [b])" by (simp add: p')
    fix i assume i: "i < length (pipe_queue p')"
    show "pipe_queue p' ! i = (pipe_queue p @ [b]) ! i"
    proof (cases "i = pp_count p")
      case True
      then show ?thesis using ok w by (simp add: nth_pipe_queue p' nth_append pipe_ok_def)
    next
      case False
      then have il: "i < pp_count p" using i by (simp add: p')
      have "(pp_read_pos p + i) mod 4096 \<noteq> pp_write_pos p"
      proof
        assume "(pp_read_pos p + i) mod 4096 = pp_write_pos p"
        then have "(pp_read_pos p + i) mod 4096 = (pp_read_pos p + pp_count p) mod 4096" using w by simp
        then have "4096 dvd (pp_read_pos p + pp_count p) - (pp_read_pos p + i)"
          using il by (subst mod_eq_dvd_iff_nat [symmetric]) simp_all
        then show False using il c nat_dvd_not_less [of "pp_count p - i" 4096] by simp
      qed
      then show ?thesis using il by (simp add: nth_pipe_queue p' nth_append)
    qed
  qed
qed

lemma pipe_read_loop_spec:
  assumes "pipe_ok p" "pipe_read_loop n out p = (xs, p')"
  shows "pipe_ok p' \<and> same_ends p p' \<and> xs = out @ take n (pipe_queue p) \<and> pipe_queue p' = drop n (pipe_queue p)"
  using assms
proof (induction n arbitrary: out p)
  case 0
  then show ?case by (simp add: same_ends_def)
next
  case (Suc n)
  show ?case
  proof (cases "pp_count p > 0")
    case True
    let ?q = "p\<lparr>pp_read_pos := (pp_read_pos p + 1) mod PIPE_CAPACITY, pp_count := pp_count p - 1\<rparr>"
    have st: "pipe_ok ?q" "pipe_queue p = pp_buffer p ! pp_read_pos p # pipe_queue ?q"
      using read_step [OF Suc.prems(1) True refl] by simp_all
    have "pipe_read_loop n (out @ [pp_buffer p ! pp_read_pos p]) ?q = (xs, p')" using Suc.prems(2) True by simp
    from Suc.IH [OF st(1) this] show ?thesis unfolding st(2) by (simp add: same_ends_def)
  next
    case False
    then have "pipe_queue p = []" by (simp add: pipe_queue_def)
    then show ?thesis using Suc.prems False by (simp add: same_ends_def)
  qed
qed

lemma pipe_write_loop_spec:
  assumes "pipe_ok p" "pipe_write_loop bs n p = (m, p')"
  shows "pipe_ok p' \<and> same_ends p p' \<and> m = n + min (length bs) (PIPE_CAPACITY - length (pipe_queue p)) \<and>
    pipe_queue p' = pipe_queue p @ take (PIPE_CAPACITY - length (pipe_queue p)) bs"
  using assms
proof (induction bs arbitrary: n p)
  case Nil
  then show ?case by (simp add: same_ends_def)
next
  case (Cons b bs)
  show ?case
  proof (cases "pp_count p < PIPE_CAPACITY")
    case True
    let ?q = "p\<lparr>pp_buffer := (pp_buffer p)[pp_write_pos p := b], pp_write_pos := (pp_write_pos p + 1) mod PIPE_CAPACITY,
                pp_count := pp_count p + 1\<rparr>"
    have st: "pipe_ok ?q" "pipe_queue ?q = pipe_queue p @ [b]" using write_step [OF Cons.prems(1) True refl] by simp_all
    have w: "pipe_write_loop bs (n + 1) ?q = (m, p')" using Cons.prems(2) True by simp
    have d: "4096 - pp_count p = Suc (4096 - (pp_count p + 1))" using True by simp
    show ?thesis using Cons.IH [OF st(1) w] unfolding st(2) length_pipe_queue d by (simp add: same_ends_def)
  next
    case False
    then show ?thesis using Cons.prems by (simp add: same_ends_def)
  qed
qed

lemma pipe_read_spec:
  assumes "pipe_ok p" "pp_used p" "pipe_read_bytes n p = (k, xs, p')"
  shows "pipe_ok p' \<and> same_ends p p' \<and> xs = take n (pipe_queue p) \<and> pipe_queue p' = drop n (pipe_queue p) \<and> k = int (length xs)"
proof -
  obtain ys q where r: "pipe_read_loop n [] p = (ys, q)" by (cases "pipe_read_loop n [] p")
  have "xs = ys \<and> p' = q \<and> k = int (length ys)" using assms(2,3) r by (auto simp: pipe_read_bytes_def split: if_splits)
  then show ?thesis using pipe_read_loop_spec [OF assms(1) r] by simp
qed

lemma pipe_write_spec:
  assumes "pipe_ok p" "pp_used p" "pp_readers p \<noteq> 0" "pipe_write_bytes (Some bs) p = (k, p')"
  shows "pipe_ok p' \<and> same_ends p p' \<and> k = int (min (length bs) (PIPE_CAPACITY - length (pipe_queue p))) \<and>
    pipe_queue p' = pipe_queue p @ take (nat k) bs"
proof -
  obtain m q where w: "pipe_write_loop bs 0 p = (m, q)" by (cases "pipe_write_loop bs 0 p")
  have "p' = q \<and> k = int m" using assms(2-4) w by (auto simp: pipe_write_bytes_def)
  then show ?thesis using pipe_write_loop_spec [OF assms(1) w] by (auto simp: min_def)
qed

section \<open>Sessions\<close>

text \<open>What the clients of a pipe rely on.\<close>

locale byte_queue =
  fixes rd :: "nat \<Rightarrow> 's \<Rightarrow> bytes \<times> 's" and wr :: "bytes \<Rightarrow> 's \<Rightarrow> nat \<times> 's" and inv :: "'s \<Rightarrow> bool" and queue :: "'s \<Rightarrow> bytes"
  assumes rd_law: "inv s \<Longrightarrow> rd n s = (xs, s') \<Longrightarrow> inv s' \<and> queue s = xs @ queue s'"
    and wr_law: "inv s \<Longrightarrow> wr bs s = (n, s') \<Longrightarrow> inv s' \<and> queue s' = queue s @ take n bs"

datatype pipe_op = Rd nat | Wr bytes

text \<open>What a sequence of operations has read and what it has put in.\<close>

fun session :: "(nat \<Rightarrow> 's \<Rightarrow> bytes \<times> 's) \<Rightarrow> (bytes \<Rightarrow> 's \<Rightarrow> nat \<times> 's) \<Rightarrow> pipe_op list \<Rightarrow> 's \<Rightarrow> bytes \<times> bytes \<times> 's" where
  "session rd wr [] s = ([], [], s)"
| "session rd wr (Rd n # ops) s = (let (xs, s1) = rd n s; (out, ins, s2) = session rd wr ops s1 in (xs @ out, ins, s2))"
| "session rd wr (Wr bs # ops) s = (let (n, s1) = wr bs s; (out, ins, s2) = session rd wr ops s1 in (out, take n bs @ ins, s2))"

context byte_queue
begin

lemma session_fifo:
  assumes "inv s" "session rd wr ops s = (out, ins, s')"
  shows "inv s' \<and> queue s @ ins = out @ queue s'"
  using assms
proof (induction ops arbitrary: s out ins)
  case (Cons x ops)
  show ?case
  proof (cases x)
    case (Rd n)
    obtain xs s1 where r: "rd n s = (xs, s1)" by (cases "rd n s")
    obtain o1 i1 where "session rd wr ops s1 = (o1, i1, s')" "out = xs @ o1" "ins = i1"
      using Cons.prems(2) Rd r by (auto split: prod.splits)
    then show ?thesis using rd_law [OF Cons.prems(1) r] Cons.IH [of s1] by auto
  next
    case (Wr bs)
    obtain n s1 where w: "wr bs s = (n, s1)" by (cases "wr bs s")
    obtain o1 i1 where "session rd wr ops s1 = (o1, i1, s')" "out = o1" "ins = take n bs @ i1"
      using Cons.prems(2) Wr w by (auto split: prod.splits)
    then show ?thesis using wr_law [OF Cons.prems(1) w] Cons.IH [of s1] by auto
  qed
qed simp

end

definition read_pipe :: "nat \<Rightarrow> process_pipe \<Rightarrow> bytes \<times> process_pipe" where
  "read_pipe n p = snd (pipe_read_bytes n p)"

definition write_pipe :: "bytes \<Rightarrow> process_pipe \<Rightarrow> nat \<times> process_pipe" where
  "write_pipe bs p = (let (k, p1) = pipe_write_bytes (Some bs) p in (nat k, p1))"

definition pipe_open :: "process_pipe \<Rightarrow> bool" where
  "pipe_open p \<longleftrightarrow> pipe_ok p \<and> pp_used p \<and> pp_readers p \<noteq> 0"

interpretation pq: byte_queue read_pipe write_pipe pipe_open pipe_queue
proof
  fix p n xs p' assume o: "pipe_open p" and "read_pipe n p = (xs, p')"
  then obtain k where k: "pipe_read_bytes n p = (k, xs, p')" by (cases "pipe_read_bytes n p") (simp add: read_pipe_def)
  have "pipe_ok p" "pp_used p" using o by (simp_all add: pipe_open_def)
  from pipe_read_spec [OF this k] show "pipe_open p' \<and> pipe_queue p = xs @ pipe_queue p'"
    using o by (simp add: pipe_open_def same_ends_def)
next
  fix p bs n p' assume o: "pipe_open p" and "write_pipe bs p = (n, p')"
  then obtain k where k: "pipe_write_bytes (Some bs) p = (k, p')" "n = nat k"
    by (cases "pipe_write_bytes (Some bs) p") (simp add: write_pipe_def)
  have "pipe_ok p" "pp_used p" "pp_readers p \<noteq> 0" using o by (simp_all add: pipe_open_def)
  from pipe_write_spec [OF this k(1)] show "pipe_open p' \<and> pipe_queue p' = pipe_queue p @ take n bs"
    using o k(2) by (simp add: pipe_open_def same_ends_def)
qed

text \<open>C24: a pipe refines a queue of at most 4096 bytes. A read takes the oldest bytes, as many as are there and asked
  for; a write appends as many bytes as fit; and along every interleaving of reads and writes the bytes that were in
  the pipe followed by the bytes accepted are the bytes that came out followed by those still in the pipe.\<close>

theorem pipe_refines_queue:
  assumes "pipe_open p"
  shows "(case pipe_read_bytes n p of (k, xs, p') \<Rightarrow>
            xs = take n (pipe_queue p) \<and> k = int (length xs) \<and> pipe_queue p' = drop n (pipe_queue p)) \<and>
    (case pipe_write_bytes (Some bs) p of (k, p') \<Rightarrow>
       k = int (min (length bs) (PIPE_CAPACITY - length (pipe_queue p))) \<and> pipe_queue p' = pipe_queue p @ take (nat k) bs) \<and>
    (case session read_pipe write_pipe ops p of (out, ins, p') \<Rightarrow>
       pipe_open p' \<and> pipe_queue p @ ins = out @ pipe_queue p' \<and> length (pipe_queue p') \<le> PIPE_CAPACITY)"
proof (intro conjI)
  have o: "pipe_ok p" "pp_used p" "pp_readers p \<noteq> 0" using assms by (simp_all add: pipe_open_def)
  show "case pipe_read_bytes n p of (k, xs, p') \<Rightarrow>
      xs = take n (pipe_queue p) \<and> k = int (length xs) \<and> pipe_queue p' = drop n (pipe_queue p)"
    using pipe_read_spec [OF o(1,2)] by (auto split: prod.split)
  show "case pipe_write_bytes (Some bs) p of (k, p') \<Rightarrow>
      k = int (min (length bs) (PIPE_CAPACITY - length (pipe_queue p))) \<and> pipe_queue p' = pipe_queue p @ take (nat k) bs"
    using pipe_write_spec [OF o] by (auto split: prod.split)
  show "case session read_pipe write_pipe ops p of (out, ins, p') \<Rightarrow>
      pipe_open p' \<and> pipe_queue p @ ins = out @ pipe_queue p' \<and> length (pipe_queue p') \<le> PIPE_CAPACITY"
    using pq.session_fifo [OF assms] by (auto simp: pipe_open_def pipe_ok_def split: prod.split)
qed

definition example_pipe :: process_pipe where
  "example_pipe = zero_pipe\<lparr>pp_used := True, pp_refs := 2, pp_readers := 1, pp_writers := 1, pp_read_pos := 4095, pp_write_pos := 4095\<rparr>"

theorem pipe_refines_queue_witness:
  "(case session read_pipe write_pipe [Wr [1, 2, 3], Rd 2] example_pipe of (out, ins, p') \<Rightarrow> ins = out @ pipe_queue p')"
proof -
  have "pipe_open example_pipe" by (simp add: pipe_open_def pipe_ok_def example_pipe_def zero_pipe_def)
  moreover have "pipe_queue example_pipe = []" by (simp add: pipe_queue_def example_pipe_def zero_pipe_def)
  ultimately show ?thesis
    using pipe_refines_queue [of example_pipe 0 "[]" "[Wr [1, 2, 3], Rd 2]"] by (auto split: prod.splits)
qed

section \<open>Endpoints\<close>

lemma pipe_scan_spec:
  "pipe_scan ps i = Some k \<Longrightarrow> i \<le> k \<and> k - i < length ps \<and> \<not> pp_used (ps ! (k - i))"
proof (induction ps i rule: pipe_scan.induct)
  case (2 p ps i)
  show ?case
  proof (cases "pp_used p")
    case True
    then have a: "i + 1 \<le> k" "k - (i + 1) < length ps" "\<not> pp_used (ps ! (k - (i + 1)))" using 2 by simp_all
    then have "k - i = Suc (k - (i + 1))" by arith
    then show ?thesis using a by simp
  qed (use 2 in simp)
qed simp

lemma pipe_alloc_spec:
  "pipe_alloc ps = Some (k, ps') \<Longrightarrow> k < length ps \<and> \<not> pp_used (ps ! k) \<and> ps' = ps[k := zero_pipe\<lparr>pp_used := True\<rparr>]"
  using pipe_scan_spec [of ps 0 k] by (auto simp: pipe_alloc_def split: option.splits)

end
