(* ===== verification/Crc32.thy ===== *)
theory Crc32
  imports Prelude
begin

unbundle bit_operations_syntax

text \<open>
  The checksum of \<open>src/src/libc/crc32.c\<close>: the table-driven CRC-32 that protects every KiFS
  metadata block and every KXE header. \<open>crc32_init_table\<close> fills \<open>g_table\<close>, \<open>crc32_ieee\<close> folds it
  over a buffer; the lazily initialised static table is the constant \<open>g_table\<close> here, since
  \<open>crc32_ieee\<close> fills it before its first use and nothing writes it afterwards. Proved: the table
  algorithm is the bit-at-a-time CRC, and a change confined to four consecutive bytes is always
  detected.
\<close>

section \<open>Definitions\<close>

definition crc_bit :: "u32 \<Rightarrow> u32" where
  "crc_bit c = (if c AND 1 \<noteq> 0 then 0xEDB88320 XOR drop_bit 1 c else drop_bit 1 c)"

definition crc32_init_table :: "u32 list" where
  "crc32_init_table = map (\<lambda>i. (crc_bit ^^ 8) (word_of_nat i)) [0..<256]"

abbreviation g_table :: "u32 list" where
  "g_table \<equiv> crc32_init_table"

definition crc32_step :: "u32 \<Rightarrow> u8 \<Rightarrow> u32" where
  "crc32_step crc b = g_table ! unat ((crc XOR ucast b) AND 0xFF) XOR drop_bit 8 crc"

definition crc32_ieee :: "bytes \<Rightarrow> u32" where
  "crc32_ieee data = foldl crc32_step 0xFFFFFFFF data XOR 0xFFFFFFFF"

text \<open>The reference: the reflected CRC-32 one bit at a time, with no table.\<close>

definition crc32_ref_step :: "u32 \<Rightarrow> u8 \<Rightarrow> u32" where
  "crc32_ref_step crc b = (crc_bit ^^ 8) (crc XOR ucast b)"

definition crc32_ref :: "bytes \<Rightarrow> u32" where
  "crc32_ref data = foldl crc32_ref_step 0xFFFFFFFF data XOR 0xFFFFFFFF"

section \<open>The bit step is linear and injective\<close>

lemma crc_bit_alt: "crc_bit c = (if bit c 0 then 0xEDB88320 else 0) XOR drop_bit 1 c"
  by (simp add: crc_bit_def and_one_eq odd_iff_mod_2_eq_one bit_0)

lemma crc_bit_linear: "crc_bit (a XOR b) = crc_bit a XOR crc_bit b"
  by (rule bit_word_eqI) (auto simp: crc_bit_alt bit_simps)

lemma crc_bits_linear: "(crc_bit ^^ n) (a XOR b) = (crc_bit ^^ n) a XOR (crc_bit ^^ n) b"
  by (induction n) (auto simp: crc_bit_linear)

lemma crc_bit_zero: "crc_bit 0 = 0"
  by (simp add: crc_bit_alt)

lemma crc_bit_eq_zero: "crc_bit c = 0 \<Longrightarrow> c = 0"
proof (rule bit_word_eqI)
  fix n assume z: "crc_bit c = 0" and n: "n < LENGTH(32)"
  have "bit (crc_bit c) 31 = bit c 0"
    by (auto simp: crc_bit_alt bit_simps dest: bit_imp_le_length)
  with z have c0: "\<not> bit c 0" by simp
  with z have "drop_bit 1 c = 0" by (simp add: crc_bit_alt)
  then have "\<not> bit (drop_bit 1 c) m" for m by simp
  then have "\<not> bit c (Suc m)" for m by (simp add: bit_simps)
  with c0 show "bit c n = bit 0 n" by (cases n) auto
qed

lemma crc_bits_eq_zero: "(crc_bit ^^ n) c = 0 \<Longrightarrow> c = 0"
  by (induction n arbitrary: c) (auto dest: crc_bit_eq_zero)

lemma xor_cancel_right: "(a :: u32) XOR c = b XOR c \<longleftrightarrow> a = b"
proof
  assume "a XOR c = b XOR c"
  then have "(a XOR c) XOR c = (b XOR c) XOR c" by simp
  then show "a = b" by (simp add: xor.assoc)
qed simp

lemma crc_bits_inject: "(crc_bit ^^ n) a = (crc_bit ^^ n) b \<longleftrightarrow> a = b"
proof
  assume "(crc_bit ^^ n) a = (crc_bit ^^ n) b"
  then have "(crc_bit ^^ n) (a XOR b) = 0" by (simp add: crc_bits_linear)
  then have "a XOR b = b XOR b" by (simp add: crc_bits_eq_zero)
  then show "a = b" by (simp only: xor_cancel_right)
qed simp

text \<open>Bits above the lowest \<open>n\<close> are only shifted by \<open>n\<close> steps.\<close>

lemma crc_bit_push:
  assumes "0 < m" "\<And>j. 32 - m \<le> j \<Longrightarrow> \<not> bit x j"
  shows "crc_bit (push_bit m x) = push_bit (m - 1) x"
proof (rule bit_word_eqI)
  fix j assume j: "j < LENGTH(32)"
  have "\<not> bit (push_bit m x) 0" using assms(1) by (simp add: bit_push_bit_iff)
  then have "crc_bit (push_bit m x) = drop_bit 1 (push_bit m x)"
    by (simp only: crc_bit_alt if_False xor.left_neutral)
  then have "bit (crc_bit (push_bit m x)) j = bit (push_bit m x) (Suc j)"
    by (simp add: bit_drop_bit_eq)
  also have "\<dots> = (m \<le> Suc j \<and> bit x (Suc j - m))"
    using assms(2) [of "Suc j - m"] j by (cases "j = 31") (auto simp: bit_push_bit_iff)
  also have "\<dots> = bit (push_bit (m - 1) x) j"
    using assms(1) j by (cases m) (auto simp: bit_push_bit_iff)
  finally show "bit (crc_bit (push_bit m x)) j = bit (push_bit (m - 1) x) j" .
qed

lemma crc_bits_push:
  assumes "\<And>j. 32 - (k + n) \<le> j \<Longrightarrow> \<not> bit x j"
  shows "(crc_bit ^^ n) (push_bit (k + n) x) = push_bit k x"
  using assms
proof (induction n)
  case (Suc n)
  have "crc_bit (push_bit (k + Suc n) x) = push_bit (k + n) x"
    using crc_bit_push [of "k + Suc n" x] Suc.prems by simp
  moreover have "(crc_bit ^^ n) (push_bit (k + n) x) = push_bit k x"
    using Suc.prems by (intro Suc.IH) auto
  ultimately show ?case by (simp only: funpow_Suc_right o_apply)
qed simp

section \<open>The table algorithm is the bitwise CRC\<close>

lemma split_low_byte: "(x :: u32) = (x AND 0xFF) XOR push_bit 8 (drop_bit 8 x)"
proof -
  have m: "(0xFF :: u32) = mask 8" by (simp add: mask_eq_exp_minus_1)
  show ?thesis unfolding m by (rule bit_word_eqI) (auto simp: bit_simps)
qed

lemma drop_low_byte: "drop_bit 8 (crc XOR ucast (b :: u8)) = drop_bit 8 (crc :: u32)"
  by (rule bit_word_eqI) (auto simp: bit_simps dest: bit_imp_le_length)

lemma crc_bits_drop: "(crc_bit ^^ 8) (push_bit 8 (drop_bit 8 x)) = drop_bit 8 (x :: u32)"
proof -
  have "(crc_bit ^^ 8) (push_bit (0 + 8) (drop_bit 8 x)) = push_bit 0 (drop_bit 8 x)"
    by (rule crc_bits_push) (auto simp: bit_drop_bit_eq dest: bit_imp_le_length)
  then show ?thesis by simp
qed

lemma g_table_entry: "g_table ! unat (x AND 0xFF) = (crc_bit ^^ 8) (x AND 0xFF)"
proof -
  have "x AND 0xFF \<le> 0xFF" by (rule word_and_le1)
  then have "unat (x AND 0xFF) < 256" by (simp add: word_le_nat_alt)
  then show ?thesis by (simp add: crc32_init_table_def)
qed

lemma crc32_step_ref: "crc32_step crc b = crc32_ref_step crc b"
proof -
  let ?x = "crc XOR ucast b"
  have "crc32_ref_step crc b = (crc_bit ^^ 8) ((?x AND 0xFF) XOR push_bit 8 (drop_bit 8 ?x))"
    unfolding crc32_ref_step_def by (subst split_low_byte) (rule refl)
  also have "\<dots> = (crc_bit ^^ 8) (?x AND 0xFF) XOR (crc_bit ^^ 8) (push_bit 8 (drop_bit 8 ?x))"
    by (rule crc_bits_linear)
  also have "(crc_bit ^^ 8) (push_bit 8 (drop_bit 8 ?x)) = drop_bit 8 ?x"
    by (rule crc_bits_drop)
  also have "\<dots> = drop_bit 8 crc" by (rule drop_low_byte)
  finally show ?thesis by (simp add: crc32_step_def g_table_entry)
qed

lemma crc32_ieee_ref: "crc32_ieee data = crc32_ref data"
proof -
  have "crc32_step = crc32_ref_step" by (intro ext) (rule crc32_step_ref)
  then show ?thesis by (simp add: crc32_ieee_def crc32_ref_def)
qed

text \<open>C39: the table-driven \<open>crc32_ieee\<close> computes the bit-at-a-time CRC-32 of every buffer.\<close>

theorem crc32_ieee_correct: "crc32_ieee data = foldl crc32_ref_step 0xFFFFFFFF data XOR 0xFFFFFFFF"
  by (simp add: crc32_ieee_ref crc32_ref_def)

section \<open>Error detection\<close>

lemma crc32_ref_step_inject: "crc32_ref_step a b = crc32_ref_step a' b \<longleftrightarrow> a = a'"
  by (simp add: crc32_ref_step_def crc_bits_inject xor_cancel_right)

lemma foldl_ref_inject: "foldl crc32_ref_step a bs = foldl crc32_ref_step a' bs \<longleftrightarrow> a = a'"
  by (induction bs arbitrary: a a') (auto simp: crc32_ref_step_inject)

text \<open>Four bytes are absorbed as one little-endian word.\<close>

definition word_of_bytes :: "bytes \<Rightarrow> u32" where
  "word_of_bytes bs = ucast (bs ! 0) XOR push_bit 8 (ucast (bs ! 1))
     XOR push_bit 16 (ucast (bs ! 2)) XOR push_bit 24 (ucast (bs ! 3))"

lemma crc_bits_byte:
  assumes "m = k + 8" "k \<le> 16"
  shows "(crc_bit ^^ 8) (push_bit m (ucast (b :: u8))) = push_bit k (ucast b)"
  unfolding assms(1)
proof (rule crc_bits_push)
  fix j assume "32 - (k + 8) \<le> j"
  with assms(2) have "8 \<le> j" by simp
  then show "\<not> bit (ucast b :: u32) j" by (auto simp: bit_ucast_iff dest: bit_imp_le_length)
qed

lemma foldl_ref_four:
  "foldl crc32_ref_step s [b0, b1, b2, b3] =
   (crc_bit ^^ 8) ((crc_bit ^^ 8) ((crc_bit ^^ 8) ((crc_bit ^^ 8)
     (s XOR word_of_bytes [b0, b1, b2, b3]))))"
proof -
  have sh0: "(crc_bit ^^ 8) (push_bit 8 (ucast b)) = push_bit 0 (ucast b)"
    and sh1: "(crc_bit ^^ 8) (push_bit 16 (ucast b)) = push_bit 8 (ucast b)"
    and sh2: "(crc_bit ^^ 8) (push_bit 24 (ucast b)) = push_bit 16 (ucast b)" for b :: u8
    by (rule crc_bits_byte; simp)+
  note sh = sh0 [unfolded push_bit_0_id] sh1 sh2
  have w: "word_of_bytes [b0, b1, b2, b3] =
    ucast b0 XOR push_bit 8 (ucast b1) XOR push_bit 16 (ucast b2) XOR push_bit 24 (ucast b3)"
    by (simp add: word_of_bytes_def)
  show ?thesis
    unfolding w by (simp only: crc_bits_linear sh foldl.simps crc32_ref_step_def xor.assoc id_apply)
qed

lemma word_of_bytes_bit:
  "j < 8 \<Longrightarrow> k < 4 \<Longrightarrow> bit (word_of_bytes bs) (8 * k + j) = bit (bs ! k) j"
proof -
  assume j: "j < 8" and k: "k < 4"
  then consider "k = 0" | "k = 1" | "k = 2" | "k = 3" by linarith
  then show ?thesis
    by cases (use j in \<open>auto simp: word_of_bytes_def bit_simps dest: bit_imp_le_length\<close>)
qed

lemma word_of_bytes_inject:
  assumes "length xs = 4" "length ys = 4" "word_of_bytes xs = word_of_bytes ys"
  shows "xs = ys"
proof (rule nth_equalityI)
  fix k assume "k < length xs"
  then have k: "k < 4" using assms by simp
  show "xs ! k = ys ! k"
  proof (rule bit_word_eqI)
    fix j assume "j < LENGTH(8)"
    then show "bit (xs ! k) j = bit (ys ! k) j"
      using word_of_bytes_bit [of j k xs] word_of_bytes_bit [of j k ys] k assms(3) by simp
  qed
qed (use assms in simp)

lemma foldl_ref_burst:
  assumes "length xs = 4" "length ys = 4" "foldl crc32_ref_step s xs = foldl crc32_ref_step s ys"
  shows "xs = ys"
proof -
  have four: "\<exists>b0 b1 b2 b3. zs = [b0, b1, b2, b3]" if "length zs = 4" for zs :: bytes
    using that by (auto simp: numeral_eq_Suc length_Suc_conv)
  obtain x0 x1 x2 x3 where x: "xs = [x0, x1, x2, x3]" using four [OF assms(1)] by auto
  obtain y0 y1 y2 y3 where y: "ys = [y0, y1, y2, y3]" using four [OF assms(2)] by auto
  have "word_of_bytes xs XOR s = word_of_bytes ys XOR s"
    using assms(3) unfolding x y by (simp only: foldl_ref_four crc_bits_inject xor.commute)
  then have "word_of_bytes xs = word_of_bytes ys" by (simp only: xor_cancel_right)
  with assms show ?thesis by (simp add: word_of_bytes_inject)
qed

lemma crc32_burst:
  assumes "length xs = 4" "length ys = 4" "xs \<noteq> ys"
  shows "crc32_ieee (pre @ xs @ post) \<noteq> crc32_ieee (pre @ ys @ post)"
proof
  assume "crc32_ieee (pre @ xs @ post) = crc32_ieee (pre @ ys @ post)"
  then have "foldl crc32_ref_step (foldl crc32_ref_step 0xFFFFFFFF pre) xs =
    foldl crc32_ref_step (foldl crc32_ref_step 0xFFFFFFFF pre) ys"
    by (simp only: crc32_ieee_ref crc32_ref_def xor_cancel_right foldl_append foldl_ref_inject)
  then show False using foldl_ref_burst assms by blast
qed

text \<open>C40: a corruption confined to four consecutive bytes always changes the checksum, whatever
  surrounds it; in particular every change of a single byte is detected.\<close>

theorem crc32_detects_burst:
  assumes "length xs = 4" "length ys = 4" "xs \<noteq> ys"
  shows "crc32_ieee (pre @ xs @ post) \<noteq> crc32_ieee (pre @ ys @ post)"
  by (rule crc32_burst [OF assms])

theorem crc32_detects_burst_witness: "crc32_ieee [7, 1, 2, 3, 4, 9] \<noteq> crc32_ieee [7, 1, 2, 3, 5, 9]"
  using crc32_detects_burst [of "[1, 2, 3, 4]" "[1, 2, 3, 5]" "[7]" "[9]"] by simp

end
