(* ===== verification/Block.thy ===== *)
theory Block
  imports Pmm
begin

text \<open>
  The block device registry, \<open>src/src/drivers/block/block.c\<close>: disks, their partitions, and the
  read, write and flush functions behind every \<open>block_device_t\<close>. A pointer to a device is
  \<open>DiskDev i\<close> or \<open>PartDev i\<close>, the slot of \<open>g_disks\<close> or \<open>g_parts\<close> it points to; the registered
  prefixes of the arrays are lists. The AHCI and USB drivers are the hardware record \<open>hw\<close>: the
  sectors of each disk, which disks there are, and an oracle \<open>io_fault\<close> that says which transfer
  fails and after how many sectors; a transfer that a driver refuses, for sectors behind the end of the disk, say, is one that
  fails after none. Bus rescans are functions on \<open>hw\<close> given as arguments.
  Log messages are left out.
  Proved: partition I/O stays inside the partition, reads see the last write, partitions that do not
  overlap do not interfere, and the registry built by the probes is well formed.
\<close>

section \<open>Hardware\<close>

datatype disk_backend = DISK_BACKEND_NONE | DISK_BACKEND_AHCI | DISK_BACKEND_USB_STORAGE

datatype part_table_type = PART_TABLE_NONE | PART_TABLE_MBR | PART_TABLE_GPT

abbreviation (input) SECTOR :: nat where "SECTOR \<equiv> 512"

type_synonym media = "disk_backend \<Rightarrow> nat \<Rightarrow> nat \<Rightarrow> bytes"

record hw =
  hw_media :: media
  hw_sectors :: "disk_backend \<Rightarrow> nat \<Rightarrow> nat"
  usb_storage_is_present :: "nat \<Rightarrow> bool"
  ahci_disk_count :: nat
  usb_storage_disk_count :: nat
  io_time :: nat
  io_fault :: "nat \<Rightarrow> nat option"

text \<open>How many sectors of a transfer of \<open>count\<close> are done, and whether it succeeds.\<close>

definition transfer :: "nat \<Rightarrow> hw \<Rightarrow> bool \<times> nat" where
  "transfer count h = (case io_fault h (io_time h) of None \<Rightarrow> (True, count) | Some k \<Rightarrow> (False, min k count))"

definition tick :: "hw \<Rightarrow> hw" where
  "tick h = h\<lparr>io_time := io_time h + 1\<rparr>"

definition read_sectors :: "(nat \<Rightarrow> bytes) \<Rightarrow> nat \<Rightarrow> nat \<Rightarrow> bytes" where
  "read_sectors m lba n = concat (map m [lba..<lba + n])"

definition write_sectors :: "nat \<Rightarrow> nat \<Rightarrow> bytes \<Rightarrow> (nat \<Rightarrow> bytes) \<Rightarrow> nat \<Rightarrow> bytes" where
  "write_sectors lba n bs m = (\<lambda>l. if lba \<le> l \<and> l < lba + n then slice (SECTOR * (l - lba)) SECTOR bs else m l)"

definition backend_read :: "disk_backend \<Rightarrow> nat \<Rightarrow> nat \<Rightarrow> nat \<Rightarrow> bytes \<Rightarrow> hw \<Rightarrow> bool \<times> bytes \<times> hw" where
  "backend_read be i lba count buf h =
     (let (ok, n) = transfer count h in (ok, splice 0 (read_sectors (hw_media h be i) lba n) buf, tick h))"

definition backend_write :: "disk_backend \<Rightarrow> nat \<Rightarrow> nat \<Rightarrow> nat \<Rightarrow> bytes \<Rightarrow> hw \<Rightarrow> bool \<times> hw" where
  "backend_write be i lba count buf h =
     (let (ok, n) = transfer count h in
      (ok, (tick h)\<lparr>hw_media := (hw_media h)(be := (hw_media h be)(i := write_sectors lba n buf (hw_media h be i)))\<rparr>))"

definition backend_flush :: "disk_backend \<Rightarrow> nat \<Rightarrow> hw \<Rightarrow> bool \<times> hw" where
  "backend_flush be i h = (fst (transfer 0 h), tick h)"

section \<open>Devices\<close>

datatype blockdev = DiskDev nat | PartDev nat

record disk_ctx =
  backend :: disk_backend
  backend_index :: nat
  part_table :: part_table_type

record part_ctx =
  parent :: nat
  lba_start :: nat
  lba_count :: nat
  part_number :: nat
  mbr_type :: u8
  is_gpt :: bool
  gpt_type_guid :: bytes
  gpt_part_guid :: bytes

record block_device =
  dev_name :: string
  sector_size :: nat
  total_sectors :: nat
  present :: bool
  removable :: bool

record block_state =
  g_disks :: "(block_device \<times> disk_ctx) list"
  g_parts :: "(block_device \<times> part_ctx) list"
  g_ready :: bool
  g_registered_ahci_count :: nat
  g_registered_usb_count :: nat
  g_boot_part_table :: part_table_type
  bl_pmm :: pmm_state
  hw :: hw

abbreviation (input) MAX_DISKS :: nat where "MAX_DISKS \<equiv> 8"
abbreviation (input) MAX_PARTITIONS :: nat where "MAX_PARTITIONS \<equiv> 64"

definition disk_backend_present :: "disk_ctx \<Rightarrow> hw \<Rightarrow> bool" where
  "disk_backend_present ctx h =
     (case backend ctx of
        DISK_BACKEND_AHCI \<Rightarrow> True
      | DISK_BACKEND_USB_STORAGE \<Rightarrow> usb_storage_is_present h (backend_index ctx)
      | DISK_BACKEND_NONE \<Rightarrow> False)"

definition sync_disk_presence :: "nat \<Rightarrow> block_state \<Rightarrow> block_state" where
  "sync_disk_presence i st =
     (if i < length (g_disks st) then
        let (d, c) = g_disks st ! i
        in st\<lparr>g_disks := (g_disks st)[i := (d\<lparr>present := disk_backend_present c (hw st)\<rparr>, c)]\<rparr>
      else st)"

definition disk_present :: "nat \<Rightarrow> block_state \<Rightarrow> bool" where
  "disk_present i st = (i < length (g_disks st) \<and> present (fst (g_disks st ! i)))"

definition disk_removable :: "nat \<Rightarrow> block_state \<Rightarrow> bool" where
  "disk_removable i st = (i < length (g_disks st) \<and> removable (fst (g_disks st ! i)))"

definition sync_part_presence :: "nat \<Rightarrow> block_state \<Rightarrow> block_state" where
  "sync_part_presence i st =
     (if i < length (g_parts st) then
        let (d, c) = g_parts st ! i; st1 = sync_disk_presence (parent c) st
        in st1\<lparr>g_parts := (g_parts st1)[i := (d\<lparr>present := disk_present (parent c) st1,
                 removable := disk_removable (parent c) st1\<rparr>, c)]\<rparr>
      else st)"

definition sync_all_device_presence :: "block_state \<Rightarrow> block_state" where
  "sync_all_device_presence st =
     (let st1 = fold sync_disk_presence [0..<length (g_disks st)] st
      in fold sync_part_presence [0..<length (g_parts st1)] st1)"

definition disk_read :: "nat \<Rightarrow> nat \<Rightarrow> nat \<Rightarrow> bytes \<Rightarrow> block_state \<Rightarrow> bool \<times> bytes \<times> block_state" where
  "disk_read i lba count buf st =
     (if i \<ge> length (g_disks st) then (False, buf, st) else
      let st1 = sync_disk_presence i st; (d, c) = g_disks st1 ! i in
      if \<not> present d then (False, buf, st1)
      else if backend c = DISK_BACKEND_NONE then (False, buf, st1)
      else let (ok, buf', h) = backend_read (backend c) (backend_index c) lba count buf (hw st1)
           in (ok, buf', st1\<lparr>hw := h\<rparr>))"

definition disk_write :: "nat \<Rightarrow> nat \<Rightarrow> nat \<Rightarrow> bytes \<Rightarrow> block_state \<Rightarrow> bool \<times> block_state" where
  "disk_write i lba count buf st =
     (if i \<ge> length (g_disks st) then (False, st) else
      let st1 = sync_disk_presence i st; (d, c) = g_disks st1 ! i in
      if \<not> present d then (False, st1)
      else if backend c = DISK_BACKEND_NONE then (False, st1)
      else let (ok, h) = backend_write (backend c) (backend_index c) lba count buf (hw st1)
           in (ok, st1\<lparr>hw := h\<rparr>))"

definition disk_flush :: "nat \<Rightarrow> block_state \<Rightarrow> bool \<times> block_state" where
  "disk_flush i st =
     (if i \<ge> length (g_disks st) then (False, st) else
      let st1 = sync_disk_presence i st; (d, c) = g_disks st1 ! i in
      if \<not> present d then (False, st1)
      else if backend c = DISK_BACKEND_NONE then (False, st1)
      else let (ok, h) = backend_flush (backend c) (backend_index c) (hw st1)
           in (ok, st1\<lparr>hw := h\<rparr>))"

text \<open>The partition functions: bounds first, then the parent disk at the partition's offset.\<close>

definition set_part_present :: "nat \<Rightarrow> bool \<Rightarrow> block_state \<Rightarrow> block_state" where
  "set_part_present i v st =
     st\<lparr>g_parts := (g_parts st)[i := ((fst (g_parts st ! i))\<lparr>present := v\<rparr>, snd (g_parts st ! i))]\<rparr>"

definition part_in_bounds :: "part_ctx \<Rightarrow> nat \<Rightarrow> nat \<Rightarrow> bool" where
  "part_in_bounds c lba count = (lba_count c \<noteq> 0 \<longrightarrow> lba < lba_count c \<and> count \<le> lba_count c - lba)"

definition part_read :: "nat \<Rightarrow> nat \<Rightarrow> nat \<Rightarrow> bytes \<Rightarrow> block_state \<Rightarrow> bool \<times> bytes \<times> block_state" where
  "part_read i lba count buf st =
     (if i \<ge> length (g_parts st) then (False, buf, st) else
      let p = snd (g_parts st ! i) in
      if count = 0 then (False, buf, st) else
      let st1 = sync_disk_presence (parent p) st;
          st2 = set_part_present i (disk_present (parent p) st1) st1 in
      if \<not> disk_present (parent p) st1 then (False, buf, st2)
      else if \<not> part_in_bounds p lba count then (False, buf, st2)
      else disk_read (parent p) ((lba_start p + lba) mod 2 ^ 64) count buf st2)"

definition part_write :: "nat \<Rightarrow> nat \<Rightarrow> nat \<Rightarrow> bytes \<Rightarrow> block_state \<Rightarrow> bool \<times> block_state" where
  "part_write i lba count buf st =
     (if i \<ge> length (g_parts st) then (False, st) else
      let p = snd (g_parts st ! i) in
      if count = 0 then (False, st) else
      let st1 = sync_disk_presence (parent p) st;
          st2 = set_part_present i (disk_present (parent p) st1) st1 in
      if \<not> disk_present (parent p) st1 then (False, st2)
      else if \<not> part_in_bounds p lba count then (False, st2)
      else disk_write (parent p) ((lba_start p + lba) mod 2 ^ 64) count buf st2)"

definition part_flush :: "nat \<Rightarrow> block_state \<Rightarrow> bool \<times> block_state" where
  "part_flush i st =
     (if i \<ge> length (g_parts st) then (False, st) else
      let p = snd (g_parts st ! i);
          st1 = sync_disk_presence (parent p) st;
          st2 = set_part_present i (disk_present (parent p) st1) st1 in
      if \<not> disk_present (parent p) st1 then (False, st2)
      else disk_flush (parent p) st2)"

text \<open>\<open>dev->read\<close>, \<open>dev->write\<close> and \<open>dev->flush\<close>.\<close>

fun dev_read :: "blockdev \<Rightarrow> nat \<Rightarrow> nat \<Rightarrow> bytes \<Rightarrow> block_state \<Rightarrow> bool \<times> bytes \<times> block_state" where
  "dev_read (DiskDev i) = disk_read i"
| "dev_read (PartDev i) = part_read i"

fun dev_write :: "blockdev \<Rightarrow> nat \<Rightarrow> nat \<Rightarrow> bytes \<Rightarrow> block_state \<Rightarrow> bool \<times> block_state" where
  "dev_write (DiskDev i) = disk_write i"
| "dev_write (PartDev i) = part_write i"

fun dev_flush :: "blockdev \<Rightarrow> block_state \<Rightarrow> bool \<times> block_state" where
  "dev_flush (DiskDev i) = disk_flush i"
| "dev_flush (PartDev i) = part_flush i"

fun dev_info :: "blockdev \<Rightarrow> block_state \<Rightarrow> block_device option" where
  "dev_info (DiskDev i) st = (if i < length (g_disks st) then Some (fst (g_disks st ! i)) else None)"
| "dev_info (PartDev i) st = (if i < length (g_parts st) then Some (fst (g_parts st ! i)) else None)"

section \<open>Names and registration\<close>

definition digit_char :: "nat \<Rightarrow> char" where
  "digit_char d = char_of (48 + d)"

text \<open>The digits of a number, least significant first, in a buffer of \<open>k\<close> characters.\<close>

fun rev_digits :: "nat \<Rightarrow> nat \<Rightarrow> string" where
  "rev_digits 0 n = []"
| "rev_digits (Suc k) n = digit_char (n mod 10) # (if n div 10 \<noteq> 0 then rev_digits k (n div 10) else [])"

definition make_disk_name :: "nat \<Rightarrow> string" where
  "make_disk_name disk_index = take 23 (''disk'' @ rev (rev_digits 16 disk_index))"

definition make_part_name :: "string \<Rightarrow> nat \<Rightarrow> string" where
  "make_part_name parent_name n =
     take 23 (parent_name @ ''p'' @ rev (rev_digits 16 (if n = 0 then 1 else n)))"

definition register_disk :: "disk_backend \<Rightarrow> nat \<Rightarrow> block_state \<Rightarrow> nat option \<times> block_state" where
  "register_disk be i st =
     (if length (g_disks st) \<ge> MAX_DISKS then (None, st)
      else if be = DISK_BACKEND_NONE then (None, st)
      else
        let n = length (g_disks st);
            c = \<lparr>backend = be, backend_index = i, part_table = PART_TABLE_NONE\<rparr>;
            d = \<lparr>dev_name = make_disk_name n, sector_size = 512, total_sectors = hw_sectors (hw st) be i,
                 present = disk_backend_present c (hw st), removable = (be = DISK_BACKEND_USB_STORAGE)\<rparr>
        in (Some n, st\<lparr>g_disks := g_disks st @ [(d, c)]\<rparr>))"

definition register_partition ::
  "nat \<Rightarrow> nat \<Rightarrow> nat \<Rightarrow> nat \<Rightarrow> bool \<Rightarrow> u8 \<Rightarrow> bytes \<Rightarrow> bytes \<Rightarrow> block_state \<Rightarrow> block_state" where
  "register_partition par num start count gpt mtype tguid pguid st =
     (if par \<ge> length (g_disks st) \<or> length (g_parts st) \<ge> MAX_PARTITIONS \<or> count = 0 then st
      else
        let pd = fst (g_disks st ! par);
            c = \<lparr>parent = par, lba_start = start, lba_count = count, part_number = num, mbr_type = mtype,
                 is_gpt = gpt, gpt_type_guid = (if gpt then tguid else replicate 16 0),
                 gpt_part_guid = (if gpt then pguid else replicate 16 0)\<rparr>;
            d = \<lparr>dev_name = make_part_name (dev_name pd) num, sector_size = sector_size pd,
                 total_sectors = count, present = present pd, removable = removable pd\<rparr>
        in st\<lparr>g_parts := g_parts st @ [(d, c)]\<rparr>)"

section \<open>Partition tables\<close>

text \<open>A slot of the MBR at byte \<open>446 + 16 * i\<close>: its type, first sector and number of sectors.\<close>

definition mbr_entry :: "bytes \<Rightarrow> nat \<Rightarrow> u8 \<times> nat \<times> nat" where
  "mbr_entry mbr i = (mbr ! (446 + 16 * i + 4), unat (get_u32 mbr (446 + 16 * i + 8)),
     unat (get_u32 mbr (446 + 16 * i + 12)))"

function mbr_loop :: "nat \<Rightarrow> bytes \<Rightarrow> nat \<Rightarrow> nat \<Rightarrow> block_state \<Rightarrow> nat \<times> block_state" where
  "mbr_loop par mbr i added st =
     (if i < 4 \<and> length (g_parts st) < MAX_PARTITIONS then
        (let (ty, start, count) = mbr_entry mbr i in
         if ty = 0 \<or> count = 0 then mbr_loop par mbr (i + 1) added st
         else if ty = 0xEE then mbr_loop par mbr (i + 1) added st
         else mbr_loop par mbr (i + 1) (added + 1)
                (register_partition par (i + 1) start count False ty [] [] st))
      else (added, st))"
  by pat_completeness auto
termination by (relation "measure (\<lambda>(par, mbr, i, added, st). 4 - i)") auto

declare mbr_loop.simps [simp del]

definition probe_mbr_partitions :: "nat \<Rightarrow> bytes \<Rightarrow> block_state \<Rightarrow> nat \<times> block_state" where
  "probe_mbr_partitions par mbr st =
     (if \<not> (mbr ! 510 = 0x55 \<and> mbr ! 511 = 0xAA) then (0, st) else mbr_loop par mbr 0 0 st)"

definition guid_is_zero :: "bytes \<Rightarrow> bool" where
  "guid_is_zero g = (\<forall>i < 16. g ! i = 0)"

record gpt_header =
  gh_signature :: bytes
  gh_header_size :: nat
  gh_part_entry_lba :: nat
  gh_num_part_entries :: nat
  gh_part_entry_size :: nat

definition decode_gpt_header :: "bytes \<Rightarrow> gpt_header" where
  "decode_gpt_header b = \<lparr>gh_signature = slice 0 8 b, gh_header_size = unat (get_u32 b 12),
     gh_part_entry_lba = unat (get_u64 b 72), gh_num_part_entries = unat (get_u32 b 80),
     gh_part_entry_size = unat (get_u32 b 84)\<rparr>"

definition gpt_sig :: bytes where
  "gpt_sig = [0x45, 0x46, 0x49, 0x20, 0x50, 0x41, 0x52, 0x54]"

definition gpt_header_ok :: "gpt_header \<Rightarrow> bool" where
  "gpt_header_ok gh = (gh_signature gh = gpt_sig \<and>
     \<not> (gh_header_size gh < 92 \<or> gh_header_size gh > 512) \<and>
     \<not> (gh_part_entry_size gh < 128 \<or> gh_part_entry_size gh > 1024) \<and>
     \<not> (gh_num_part_entries gh = 0 \<or> gh_num_part_entries gh > 4096))"

record gpt_entry =
  ge_type_guid :: bytes
  ge_unique_guid :: bytes
  ge_first_lba :: nat
  ge_last_lba :: nat

definition decode_gpt_entry :: "bytes \<Rightarrow> nat \<Rightarrow> gpt_entry" where
  "decode_gpt_entry b off = \<lparr>ge_type_guid = slice off 16 b, ge_unique_guid = slice (off + 16) 16 b,
     ge_first_lba = unat (get_u64 b (off + 32)), ge_last_lba = unat (get_u64 b (off + 40))\<rparr>"

function gpt_loop :: "nat \<Rightarrow> bytes \<Rightarrow> nat \<Rightarrow> nat \<Rightarrow> nat \<Rightarrow> nat \<Rightarrow> block_state \<Rightarrow> nat \<times> block_state" where
  "gpt_loop par ent entry_size nentries i added st =
     (if i < nentries \<and> length (g_parts st) < MAX_PARTITIONS then
        (let ge = decode_gpt_entry ent (i * entry_size) in
         if guid_is_zero (ge_type_guid ge) then gpt_loop par ent entry_size nentries (i + 1) added st
         else if ge_first_lba ge = 0 \<and> ge_last_lba ge = 0 then gpt_loop par ent entry_size nentries (i + 1) added st
         else if ge_last_lba ge < ge_first_lba ge then gpt_loop par ent entry_size nentries (i + 1) added st
         else
           let count = (ge_last_lba ge - ge_first_lba ge + 1) mod 2 ^ 64 in
           gpt_loop par ent entry_size nentries (i + 1) (added + 1)
             (register_partition par (i + 1) (ge_first_lba ge) count True 0
                (ge_type_guid ge) (ge_unique_guid ge) st))
      else (added, st))"
  by pat_completeness auto
termination by (relation "measure (\<lambda>(par, ent, es, n, i, added, st). n - i)") auto

declare gpt_loop.simps [simp del]

text \<open>Pages for the buffers come from the page allocator and go back to it.\<close>

definition block_pmm_alloc :: "nat \<Rightarrow> block_state \<Rightarrow> nat \<times> block_state" where
  "block_pmm_alloc n st = (let (a, p) = pmm_alloc_pages n (bl_pmm st) in (a, st\<lparr>bl_pmm := p\<rparr>))"

definition block_pmm_free :: "nat \<Rightarrow> nat \<Rightarrow> block_state \<Rightarrow> block_state" where
  "block_pmm_free a n st = st\<lparr>bl_pmm := pmm_free_pages a n (bl_pmm st)\<rparr>"

definition probe_gpt_entries :: "nat \<Rightarrow> gpt_header \<Rightarrow> block_state \<Rightarrow> bool \<times> block_state" where
  "probe_gpt_entries par gh st =
     (let total_bytes = gh_part_entry_size gh * gh_num_part_entries gh;
          sectors_needed = (total_bytes + 511) div 512 in
      if sectors_needed = 0 then (False, st)
      else if sectors_needed > 1024 then (False, st)
      else
        let pages = (sectors_needed * 512 + PAGE_SIZE - 1) div PAGE_SIZE;
            (phys2, st1) = block_pmm_alloc pages st in
        if phys2 = 0 then (False, st1)
        else
          let (ok, ent, st2) = disk_read par (gh_part_entry_lba gh) sectors_needed
                                 (replicate (pages * PAGE_SIZE) 0) st1 in
          if \<not> ok then (False, block_pmm_free phys2 pages st2)
          else
            let (added, st3) = gpt_loop par ent (gh_part_entry_size gh) (gh_num_part_entries gh) 0 0 st2
            in (True, block_pmm_free phys2 pages st3))"

definition probe_gpt_partitions :: "nat \<Rightarrow> block_state \<Rightarrow> bool \<times> block_state" where
  "probe_gpt_partitions par st =
     (if par \<ge> length (g_disks st) \<or> sector_size (fst (g_disks st ! par)) \<noteq> 512 then (False, st) else
      let (phys, p) = pmm_alloc (bl_pmm st); st1 = st\<lparr>bl_pmm := p\<rparr> in
      if phys = 0 then (False, st1)
      else
        let (ok, hdrb, st2) = disk_read par 1 1 (replicate 512 0) st1 in
        if \<not> ok then (False, st2\<lparr>bl_pmm := pmm_free phys (bl_pmm st2)\<rparr>)
        else
          let gh = decode_gpt_header hdrb; st3 = st2\<lparr>bl_pmm := pmm_free phys (bl_pmm st2)\<rparr> in
          if \<not> gpt_header_ok gh then (False, st3)
          else probe_gpt_entries par gh st3)"

definition probe_partitions_for_disk :: "nat \<Rightarrow> block_state \<Rightarrow> part_table_type \<times> block_state" where
  "probe_partitions_for_disk i st =
     (if i \<ge> length (g_disks st) then (PART_TABLE_NONE, st) else
      let (phys0, p) = pmm_alloc (bl_pmm st); st1 = st\<lparr>bl_pmm := p\<rparr> in
      if phys0 = 0 then (PART_TABLE_NONE, st1)
      else
        let (ok, lba0, st2) = disk_read i 0 1 (replicate 512 0) st1 in
        if \<not> ok then (PART_TABLE_NONE, st2\<lparr>bl_pmm := pmm_free phys0 (bl_pmm st2)\<rparr>)
        else
          let (has_gpt, st3) = probe_gpt_partitions i st2 in
          if has_gpt then (PART_TABLE_GPT, st3\<lparr>bl_pmm := pmm_free phys0 (bl_pmm st3)\<rparr>)
          else
            let (added_mbr, st4) = probe_mbr_partitions i lba0 st3;
                st5 = st4\<lparr>bl_pmm := pmm_free phys0 (bl_pmm st4)\<rparr>
            in (if added_mbr > 0 then PART_TABLE_MBR else PART_TABLE_NONE, st5))"

section \<open>Building and querying the registry\<close>

definition set_part_table :: "nat \<Rightarrow> part_table_type \<Rightarrow> block_state \<Rightarrow> block_state" where
  "set_part_table i t st =
     st\<lparr>g_disks := (g_disks st)[i := (fst (g_disks st ! i), (snd (g_disks st ! i))\<lparr>part_table := t\<rparr>)]\<rparr>"

text \<open>The registration loops of \<open>block_init\<close>, from backend index \<open>i\<close> to \<open>n\<close>.\<close>

function register_disks :: "disk_backend \<Rightarrow> nat \<Rightarrow> nat \<Rightarrow> block_state \<Rightarrow> block_state" where
  "register_disks be i n st =
     (if i < n \<and> length (g_disks st) < MAX_DISKS then
        (case register_disk be i st of
           (None, st1) \<Rightarrow> st1
         | (Some k, st1) \<Rightarrow> register_disks be (i + 1) n
             (if be = DISK_BACKEND_AHCI
              then st1\<lparr>g_registered_ahci_count := g_registered_ahci_count st1 + 1\<rparr>
              else st1\<lparr>g_registered_usb_count := g_registered_usb_count st1 + 1\<rparr>))
      else st)"
  by pat_completeness auto
termination by (relation "measure (\<lambda>(be, i, n, st). n - i)") auto

declare register_disks.simps [simp del]

definition probe_disk :: "nat \<Rightarrow> block_state \<Rightarrow> block_state" where
  "probe_disk i st =
     (let st1 = sync_disk_presence i st in
      if \<not> disk_present i st1 then st1
      else
        let (t, st2) = probe_partitions_for_disk i st1; st3 = set_part_table i t st2
        in if i = 0 then st3\<lparr>g_boot_part_table := t\<rparr> else st3)"

definition block_init :: "(hw \<Rightarrow> hw) \<Rightarrow> block_state \<Rightarrow> block_state" where
  "block_init usb_storage_rescan st =
     (let st0 = st\<lparr>g_disks := [], g_parts := [], g_boot_part_table := PART_TABLE_NONE, g_ready := False,
                   g_registered_ahci_count := 0, g_registered_usb_count := 0,
                   hw := usb_storage_rescan (hw st)\<rparr>;
          st1 = register_disks DISK_BACKEND_AHCI 0 (ahci_disk_count (hw st0)) st0;
          st2 = register_disks DISK_BACKEND_USB_STORAGE 0 (usb_storage_disk_count (hw st0)) st1 in
      if g_disks st2 = [] then st2
      else fold probe_disk [0..<length (g_disks st2)] (st2\<lparr>g_ready := True\<rparr>))"

text \<open>The loops of \<open>block_rescan\<close> and \<open>block_poll_hotplug\<close> register a disk and probe it at once.\<close>

function rescan_disks :: "disk_backend \<Rightarrow> nat \<Rightarrow> nat \<Rightarrow> nat \<Rightarrow> block_state \<Rightarrow> nat \<times> block_state" where
  "rescan_disks be i n added st =
     (if i < n \<and> length (g_disks st) < MAX_DISKS then
        (case register_disk be i st of
           (None, st1) \<Rightarrow> (added, st1)
         | (Some k, st1) \<Rightarrow>
           let st2 = (if disk_present k st1 then
                        let (t, st') = probe_partitions_for_disk k st1; st'' = set_part_table k t st'
                        in if be = DISK_BACKEND_AHCI \<and> i = 0 then st''\<lparr>g_boot_part_table := t\<rparr> else st''
                      else st1)
           in rescan_disks be (i + 1) n (added + 1)
                (if be = DISK_BACKEND_AHCI
                 then st2\<lparr>g_registered_ahci_count := g_registered_ahci_count st2 + 1\<rparr>
                 else st2\<lparr>g_registered_usb_count := g_registered_usb_count st2 + 1\<rparr>))
      else (added, st))"
  by pat_completeness auto
termination by (relation "measure (\<lambda>(be, i, n, added, st). n - i)") auto

declare rescan_disks.simps [simp del]

definition block_rescan :: "(hw \<Rightarrow> hw) \<Rightarrow> (hw \<Rightarrow> hw) \<Rightarrow> block_state \<Rightarrow> nat \<times> block_state" where
  "block_rescan pci_enumerate usb_storage_full_rescan st =
     (let st1 = sync_all_device_presence st;
          st2 = st1\<lparr>hw := usb_storage_full_rescan (pci_enumerate (hw st1))\<rparr>;
          st3 = sync_all_device_presence st2;
          ahci_count = ahci_disk_count (hw st3); usb_count = usb_storage_disk_count (hw st3);
          (a1, st4) = rescan_disks DISK_BACKEND_AHCI (g_registered_ahci_count st3) ahci_count 0 st3;
          (a2, st5) = rescan_disks DISK_BACKEND_USB_STORAGE (g_registered_usb_count st4) usb_count a1 st4
      in (a2, if g_disks st5 \<noteq> [] then st5\<lparr>g_ready := True\<rparr> else st5))"

definition block_poll_hotplug :: "(hw \<Rightarrow> hw) \<Rightarrow> block_state \<Rightarrow> nat \<times> block_state" where
  "block_poll_hotplug usb_storage_rescan st =
     (let st1 = sync_all_device_presence st;
          st2 = st1\<lparr>hw := usb_storage_rescan (hw st1)\<rparr>;
          st3 = sync_all_device_presence st2;
          usb_count = usb_storage_disk_count (hw st3);
          (a, st4) = rescan_disks DISK_BACKEND_USB_STORAGE (g_registered_usb_count st3) usb_count 0 st3
      in (a, if g_disks st4 \<noteq> [] then st4\<lparr>g_ready := True\<rparr> else st4))"

definition block_boot_device :: "block_state \<Rightarrow> blockdev option \<times> block_state" where
  "block_boot_device st =
     (if \<not> g_ready st \<or> g_disks st = [] then (None, st) else (Some (DiskDev 0), sync_all_device_presence st))"

fun block_device_is_present :: "blockdev \<Rightarrow> block_state \<Rightarrow> bool \<times> block_state" where
  "block_device_is_present (PartDev i) st =
     (if i < length (g_parts st)
      then let st1 = sync_part_presence i st in (present (fst (g_parts st1 ! i)), st1) else (False, st))"
| "block_device_is_present (DiskDev i) st =
     (let st1 = sync_disk_presence i st in (disk_present i st1, st1))"

definition block_device_is_removable :: "blockdev option \<Rightarrow> block_state \<Rightarrow> bool" where
  "block_device_is_removable dev st =
     (case dev of None \<Rightarrow> False
      | Some d \<Rightarrow> (case dev_info d st of None \<Rightarrow> False | Some i \<Rightarrow> removable i))"

definition block_disk_count :: "block_state \<Rightarrow> nat \<times> block_state" where
  "block_disk_count st = (let st1 = sync_all_device_presence st in (length (g_disks st1), st1))"

definition block_disk_device :: "nat \<Rightarrow> block_state \<Rightarrow> blockdev option \<times> block_state" where
  "block_disk_device i st =
     (if i \<ge> length (g_disks st) then (None, st) else (Some (DiskDev i), sync_disk_presence i st))"

definition find_disk_named :: "string \<Rightarrow> block_state \<Rightarrow> nat option" where
  "find_disk_named name st =
     find (\<lambda>i. present (fst (g_disks st ! i)) \<and> dev_name (fst (g_disks st ! i)) = name) [0..<length (g_disks st)]"

definition find_part_named :: "string \<Rightarrow> block_state \<Rightarrow> nat option" where
  "find_part_named name st =
     find (\<lambda>i. present (fst (g_parts st ! i)) \<and> dev_name (fst (g_parts st ! i)) = name) [0..<length (g_parts st)]"

definition block_device_by_name :: "string \<Rightarrow> block_state \<Rightarrow> blockdev option \<times> block_state" where
  "block_device_by_name name st =
     (if name = [] then (None, st) else
      let st1 = sync_all_device_presence st in
      (case find_disk_named name st1 of
         Some i \<Rightarrow> Some (DiskDev i)
       | None \<Rightarrow> (case find_part_named name st1 of Some i \<Rightarrow> Some (PartDev i) | None \<Rightarrow> None), st1))"

definition block_partition_count :: "block_state \<Rightarrow> nat \<times> block_state" where
  "block_partition_count st = (let st1 = sync_all_device_presence st in (length (g_parts st1), st1))"

definition block_partition_device :: "nat \<Rightarrow> block_state \<Rightarrow> blockdev option \<times> block_state" where
  "block_partition_device i st =
     (if i \<ge> length (g_parts st) then (None, st) else (Some (PartDev i), sync_part_presence i st))"

definition block_partition_lookup :: "nat \<Rightarrow> nat \<Rightarrow> block_state \<Rightarrow> blockdev option \<times> block_state" where
  "block_partition_lookup disk_index num st =
     (if num = 0 then (None, st) else
      case block_disk_device disk_index st of
        (None, st1) \<Rightarrow> (None, st1)
      | (Some d, st1) \<Rightarrow>
        if \<not> disk_present disk_index st1 then (None, st1)
        else (map_option PartDev (find (\<lambda>i. parent (snd (g_parts st1 ! i)) = disk_index \<and>
                 part_number (snd (g_parts st1 ! i)) = num \<and> present (fst (g_parts st1 ! i)))
               [0..<length (g_parts st1)]), st1))"

definition block_partition_table_type :: "block_state \<Rightarrow> part_table_type" where
  "block_partition_table_type st = g_boot_part_table st"

definition block_disk_partition_table_type :: "nat \<Rightarrow> block_state \<Rightarrow> part_table_type \<times> block_state" where
  "block_disk_partition_table_type i st =
     (if i \<ge> length (g_disks st) then (PART_TABLE_NONE, st) else
      let st1 = sync_disk_presence i st in
      (if disk_present i st1 then part_table (snd (g_disks st1 ! i)) else PART_TABLE_NONE, st1))"

section \<open>Geometry\<close>

text \<open>What presence updates and I/O never change: the contexts, names and sizes of all devices.\<close>

definition dev_static :: "block_device \<Rightarrow> string \<times> nat \<times> nat" where
  "dev_static d = (dev_name d, sector_size d, total_sectors d)"

definition same_devices :: "block_state \<Rightarrow> block_state \<Rightarrow> bool" where
  "same_devices st st' \<longleftrightarrow>
     map snd (g_disks st') = map snd (g_disks st) \<and> map snd (g_parts st') = map snd (g_parts st) \<and>
     map (dev_static \<circ> fst) (g_disks st') = map (dev_static \<circ> fst) (g_disks st) \<and>
     map (dev_static \<circ> fst) (g_parts st') = map (dev_static \<circ> fst) (g_parts st)"

lemma same_devices_refl [simp]: "same_devices st st"
  by (simp add: same_devices_def)

lemma same_devices_trans: "same_devices a b \<Longrightarrow> same_devices b c \<Longrightarrow> same_devices a c"
  by (simp add: same_devices_def)

lemma same_devices_length:
  "same_devices st st' \<Longrightarrow> length (g_disks st') = length (g_disks st)"
  "same_devices st st' \<Longrightarrow> length (g_parts st') = length (g_parts st)"
  using map_eq_imp_length_eq by (auto simp: same_devices_def)

lemma map_eq_nth: "map f xs = map f ys \<Longrightarrow> i < length ys \<Longrightarrow> f (xs ! i) = f (ys ! i)"
  by (metis length_map nth_map)

lemma same_devices_ctx:
  assumes "same_devices st st'"
  shows "i < length (g_disks st) \<Longrightarrow> snd (g_disks st' ! i) = snd (g_disks st ! i)"
    "i < length (g_parts st) \<Longrightarrow> snd (g_parts st' ! i) = snd (g_parts st ! i)"
  using assms map_eq_nth [of snd "g_disks st'" "g_disks st" i] map_eq_nth [of snd "g_parts st'" "g_parts st" i]
  by (simp_all add: same_devices_def)

lemma same_devices_static:
  assumes "same_devices st st'"
  shows "i < length (g_disks st) \<Longrightarrow> dev_static (fst (g_disks st' ! i)) = dev_static (fst (g_disks st ! i))"
    "i < length (g_parts st) \<Longrightarrow> dev_static (fst (g_parts st' ! i)) = dev_static (fst (g_parts st ! i))"
  using assms map_eq_nth [of "dev_static \<circ> fst" "g_disks st'" "g_disks st" i]
    map_eq_nth [of "dev_static \<circ> fst" "g_parts st'" "g_parts st" i]
  by (simp_all add: same_devices_def)

lemma map_update_same: "i < length xs \<Longrightarrow> f x = f (xs ! i) \<Longrightarrow> map f (xs[i := x]) = map f xs"
  by (metis list_update_id map_update)

lemma sync_disk_presence_same [simp]: "same_devices st (sync_disk_presence i st)"
  by (auto simp: sync_disk_presence_def same_devices_def dev_static_def case_prod_unfold Let_def
      intro!: map_update_same)

lemma sync_disk_presence_frame [simp]:
  "hw (sync_disk_presence i st) = hw st" "g_parts (sync_disk_presence i st) = g_parts st"
  "bl_pmm (sync_disk_presence i st) = bl_pmm st"
  by (auto simp: sync_disk_presence_def case_prod_unfold Let_def)

lemma set_part_present_same [simp]: "i < length (g_parts st) \<Longrightarrow> same_devices st (set_part_present i v st)"
  by (auto simp: set_part_present_def same_devices_def dev_static_def intro!: map_update_same)

lemma set_part_present_frame [simp]:
  "hw (set_part_present i v st) = hw st" "g_disks (set_part_present i v st) = g_disks st"
  "bl_pmm (set_part_present i v st) = bl_pmm st"
  by (auto simp: set_part_present_def)

lemma sync_part_presence_same [simp]: "same_devices st (sync_part_presence i st)"
proof (cases "i < length (g_parts st)")
  case True
  let ?c = "parent (snd (g_parts st ! i))" and ?st = "sync_disk_presence (parent (snd (g_parts st ! i))) st"
  have "same_devices ?st (sync_part_presence i st)"
    using True by (auto simp: sync_part_presence_def case_prod_unfold Let_def same_devices_def dev_static_def
        intro!: map_update_same)
  then show ?thesis using same_devices_trans sync_disk_presence_same by blast
qed (simp add: sync_part_presence_def)

lemma sync_part_presence_hw [simp]: "hw (sync_part_presence i st) = hw st"
  "bl_pmm (sync_part_presence i st) = bl_pmm st"
  by (auto simp: sync_part_presence_def case_prod_unfold Let_def)

lemma fold_same:
  assumes "\<And>i st. same_devices st (f i st) \<and> hw (f i st) = hw st \<and> bl_pmm (f i st) = bl_pmm st"
  shows "same_devices st (fold f is st) \<and> hw (fold f is st) = hw st \<and> bl_pmm (fold f is st) = bl_pmm st"
proof (induction "is" arbitrary: st)
  case (Cons i "is")
  then show ?case using assms [of st i] same_devices_trans by (metis fold_simps(2))
qed simp

lemma sync_all_same [simp]:
  "same_devices st (sync_all_device_presence st)" "hw (sync_all_device_presence st) = hw st"
  "bl_pmm (sync_all_device_presence st) = bl_pmm st"
proof -
  define st1 where "st1 = fold sync_disk_presence [0..<length (g_disks st)] st"
  have 1: "same_devices st st1 \<and> hw st1 = hw st \<and> bl_pmm st1 = bl_pmm st"
    unfolding st1_def by (rule fold_same) simp
  have 2: "same_devices st1 (sync_all_device_presence st) \<and> hw (sync_all_device_presence st) = hw st1 \<and>
      bl_pmm (sync_all_device_presence st) = bl_pmm st1"
    unfolding sync_all_device_presence_def Let_def st1_def [symmetric] by (rule fold_same) simp
  from 1 2 same_devices_trans show "same_devices st (sync_all_device_presence st)"
    "hw (sync_all_device_presence st) = hw st" "bl_pmm (sync_all_device_presence st) = bl_pmm st" by auto
qed

text \<open>Where a device's sectors are: backend, disk of the backend, first sector.\<close>

fun dev_location :: "block_state \<Rightarrow> blockdev \<Rightarrow> disk_backend \<times> nat \<times> nat" where
  "dev_location st (DiskDev i) = (let c = snd (g_disks st ! i) in (backend c, backend_index c, 0))"
| "dev_location st (PartDev i) =
     (let p = snd (g_parts st ! i); c = snd (g_disks st ! parent p) in (backend c, backend_index c, lba_start p))"

fun dev_exists :: "block_state \<Rightarrow> blockdev \<Rightarrow> bool" where
  "dev_exists st (DiskDev i) = (i < length (g_disks st))"
| "dev_exists st (PartDev i) = (i < length (g_parts st))"

definition dev_media :: "block_state \<Rightarrow> blockdev \<Rightarrow> nat \<Rightarrow> bytes" where
  "dev_media st d l = (case dev_location st d of (be, i, s) \<Rightarrow> hw_media (hw st) be i (s + l))"

text \<open>The sectors a device may touch, as (backend, disk, sector).\<close>

fun dev_sectors :: "block_state \<Rightarrow> blockdev \<Rightarrow> (disk_backend \<times> nat \<times> nat) set" where
  "dev_sectors st (DiskDev i) = (case dev_location st (DiskDev i) of (be, k, s) \<Rightarrow> {(be, k, l) | l. True})"
| "dev_sectors st (PartDev i) = (case dev_location st (PartDev i) of (be, k, s) \<Rightarrow>
     {(be, k, l) | l. s \<le> l \<and> l < s + lba_count (snd (g_parts st ! i))})"

definition disk_ok :: "block_device \<times> disk_ctx \<Rightarrow> bool" where
  "disk_ok x \<longleftrightarrow> sector_size (fst x) = SECTOR \<and> backend (snd x) \<noteq> DISK_BACKEND_NONE"

definition part_ok :: "nat \<Rightarrow> block_device \<times> part_ctx \<Rightarrow> bool" where
  "part_ok n x \<longleftrightarrow> sector_size (fst x) = SECTOR \<and> parent (snd x) < n \<and> 0 < lba_count (snd x) \<and>
     lba_start (snd x) + lba_count (snd x) \<le> 2 ^ 64 \<and> total_sectors (fst x) = lba_count (snd x)"

definition block_wf :: "block_state \<Rightarrow> bool" where
  "block_wf st \<longleftrightarrow> length (g_disks st) \<le> MAX_DISKS \<and> length (g_parts st) \<le> MAX_PARTITIONS \<and>
     (\<forall>x \<in> set (g_disks st). disk_ok x) \<and> (\<forall>x \<in> set (g_parts st). part_ok (length (g_disks st)) x) \<and>
     (\<forall>be i l. length (hw_media (hw st) be i l) = SECTOR)"

section \<open>Transfers\<close>

fun dev_in_range :: "block_state \<Rightarrow> blockdev \<Rightarrow> nat \<Rightarrow> nat \<Rightarrow> bool" where
  "dev_in_range st (DiskDev i) lba n = True"
| "dev_in_range st (PartDev i) lba n = (lba + n \<le> lba_count (snd (g_parts st ! i)))"

lemma same_devices_location:
  assumes "same_devices st st'" "dev_exists st d"
    "\<And>i. d = PartDev i \<Longrightarrow> parent (snd (g_parts st ! i)) < length (g_disks st)"
  shows "dev_location st' d = dev_location st d" "dev_in_range st' d = dev_in_range st d"
    "dev_sectors st' d = dev_sectors st d" "dev_exists st' d"
  using assms same_devices_ctx [OF assms(1)] same_devices_length [OF assms(1)]
  by (cases d; auto simp: Let_def fun_eq_iff)+

lemma read_sectors_shift: "read_sectors (\<lambda>l. m (s + l)) lba n = read_sectors m (s + lba) n"
proof -
  have "map (\<lambda>l. m (s + l)) [lba..<lba + n] = map m (map ((+) s) [lba..<lba + n])" by simp
  also have "map ((+) s) [lba..<lba + n] = [s + lba..<s + lba + n]"
    by (rule nth_equalityI) auto
  finally show ?thesis by (simp add: read_sectors_def)
qed

lemma length_read_sectors: "(\<And>l. length (m l) = SECTOR) \<Longrightarrow> length (read_sectors m lba n) = SECTOR * n"
  by (induction n) (auto simp: read_sectors_def)

lemma disk_read_spec:
  assumes "disk_read i lba count buf st = (ok, buf', st')"
  shows "same_devices st st'" "hw_media (hw st') = hw_media (hw st)" "bl_pmm st' = bl_pmm st"
    "ok \<Longrightarrow> buf' = splice 0 (read_sectors (dev_media st (DiskDev i)) lba count) buf"
proof -
  let ?s = "sync_disk_presence i st"
  have "snd (g_disks ?s ! i) = snd (g_disks st ! i)" if "i < length (g_disks st)"
    using same_devices_ctx [OF sync_disk_presence_same] that by blast
  moreover have m: "dev_media st (DiskDev i) = hw_media (hw st) (backend (snd (g_disks st ! i))) (backend_index (snd (g_disks st ! i)))"
    by (simp add: dev_media_def Let_def fun_eq_iff)
  ultimately show "ok \<Longrightarrow> buf' = splice 0 (read_sectors (dev_media st (DiskDev i)) lba count) buf"
    using assms unfolding m
    by (auto simp: disk_read_def backend_read_def transfer_def Let_def case_prod_unfold split: if_splits option.splits)
  have "same_devices st ?s" by simp
  then show "same_devices st st'" "hw_media (hw st') = hw_media (hw st)" "bl_pmm st' = bl_pmm st"
    using assms by (auto simp: disk_read_def backend_read_def tick_def Let_def case_prod_unfold same_devices_def
        split: if_splits)
qed

lemma disk_write_spec:
  assumes "disk_write i lba count buf st = (ok, st')"
  shows "same_devices st st'" "bl_pmm st' = bl_pmm st"
    "\<exists>n \<le> count. (ok \<longrightarrow> n = count) \<and> (n > 0 \<longrightarrow> i < length (g_disks st)) \<and>
       (\<forall>be k l. hw_media (hw st') be k l =
         (if (be, k, 0) = dev_location st (DiskDev i) \<and> lba \<le> l \<and> l < lba + n
          then slice (SECTOR * (l - lba)) SECTOR buf else hw_media (hw st) be k l))"
proof -
  let ?s = "sync_disk_presence i st"
  have c: "snd (g_disks ?s ! i) = snd (g_disks st ! i)" if "i < length (g_disks st)"
    using same_devices_ctx [OF sync_disk_presence_same] that by blast
  have "same_devices st ?s" by simp
  then show "same_devices st st'" "bl_pmm st' = bl_pmm st"
    using assms by (auto simp: disk_write_def Let_def case_prod_unfold same_devices_def split: if_splits)
  consider "i \<ge> length (g_disks st) \<or> \<not> present (fst (g_disks ?s ! i)) \<or> backend (snd (g_disks ?s ! i)) = DISK_BACKEND_NONE"
      "\<not> ok" "hw st' = hw st"
    | "i < length (g_disks st)"
      "ok = fst (backend_write (backend (snd (g_disks st ! i))) (backend_index (snd (g_disks st ! i))) lba count buf (hw st))"
      "hw st' = snd (backend_write (backend (snd (g_disks st ! i))) (backend_index (snd (g_disks st ! i))) lba count buf (hw st))"
    using assms c by (auto simp: disk_write_def Let_def case_prod_unfold split: if_splits)
  then show "\<exists>n \<le> count. (ok \<longrightarrow> n = count) \<and> (n > 0 \<longrightarrow> i < length (g_disks st)) \<and>
       (\<forall>be k l. hw_media (hw st') be k l =
         (if (be, k, 0) = dev_location st (DiskDev i) \<and> lba \<le> l \<and> l < lba + n
          then slice (SECTOR * (l - lba)) SECTOR buf else hw_media (hw st) be k l))"
  proof cases
    case 1
    then show ?thesis by (intro exI [of _ 0]) auto
  next
    case 2
    then show ?thesis
      by (intro exI [of _ "snd (transfer count (hw st))"])
        (auto simp: backend_write_def transfer_def write_sectors_def tick_def Let_def case_prod_unfold
          split: option.splits)
  qed
qed

lemma part_read_spec:
  assumes wf: "block_wf st" and i: "i < length (g_parts st)"
    and rd: "part_read i lba count buf st = (ok, buf', st')"
  shows "same_devices st st'" "hw_media (hw st') = hw_media (hw st)" "bl_pmm st' = bl_pmm st"
    "ok \<Longrightarrow> dev_in_range st (PartDev i) lba count \<and>
       buf' = splice 0 (read_sectors (dev_media st (PartDev i)) lba count) buf"
proof -
  let ?p = "snd (g_parts st ! i)"
  let ?s1 = "sync_disk_presence (parent ?p) st"
  let ?s2 = "set_part_present i (disk_present (parent ?p) ?s1) ?s1"
  have ok: "parent ?p < length (g_disks st)" "lba_count ?p \<noteq> 0" "lba_start ?p + lba_count ?p \<le> 2 ^ 64"
    using wf nth_mem [OF i] by (auto simp: block_wf_def part_ok_def)
  have s2: "same_devices st ?s2"
    by (rule same_devices_trans [OF sync_disk_presence_same set_part_present_same]) (use i in simp)
  have hw2: "hw ?s2 = hw st" "bl_pmm ?s2 = bl_pmm st" by auto
  have cases: "(\<not> ok \<and> st' = st) \<or> (\<not> ok \<and> st' = ?s2) \<or>
      (part_in_bounds ?p lba count \<and> disk_read (parent ?p) ((lba_start ?p + lba) mod 2 ^ 64) count buf ?s2 = (ok, buf', st'))"
    using rd i by (auto simp: part_read_def Let_def split: if_splits)
  have "same_devices st st' \<and> hw_media (hw st') = hw_media (hw st) \<and> bl_pmm st' = bl_pmm st"
    using cases
  proof (elim disjE conjE)
    assume "disk_read (parent ?p) ((lba_start ?p + lba) mod 2 ^ 64) count buf ?s2 = (ok, buf', st')"
    from disk_read_spec(1-3) [OF this] show ?thesis using s2 hw2 same_devices_trans by auto
  qed (use s2 hw2 in simp_all)
  then show "same_devices st st'" "hw_media (hw st') = hw_media (hw st)" "bl_pmm st' = bl_pmm st" by auto
  assume "ok"
  then have b: "part_in_bounds ?p lba count"
    and r: "disk_read (parent ?p) ((lba_start ?p + lba) mod 2 ^ 64) count buf ?s2 = (ok, buf', st')" using cases by auto
  have rng: "lba + count \<le> lba_count ?p" using b ok(2) by (auto simp: part_in_bounds_def)
  have "dev_location ?s2 (DiskDev (parent ?p)) = dev_location st (DiskDev (parent ?p))"
    using same_devices_location(1) [OF s2, of "DiskDev (parent ?p)"] ok(1) by simp
  then have m: "dev_media st (PartDev i) = (\<lambda>l. dev_media ?s2 (DiskDev (parent ?p)) (lba_start ?p + l))"
    by (simp add: dev_media_def Let_def fun_eq_iff split: prod.splits)
  have "(lba_start ?p + lba) mod 2 ^ 64 = lba_start ?p + lba \<or> count = 0" using rng ok(3) by auto
  then have "read_sectors (dev_media ?s2 (DiskDev (parent ?p))) ((lba_start ?p + lba) mod 2 ^ 64) count =
      read_sectors (dev_media st (PartDev i)) lba count"
    unfolding m read_sectors_shift by (auto simp: read_sectors_def)
  then show "dev_in_range st (PartDev i) lba count \<and>
       buf' = splice 0 (read_sectors (dev_media st (PartDev i)) lba count) buf"
    using disk_read_spec(4) [OF r \<open>ok\<close>] rng by simp
qed

lemma part_write_spec:
  assumes wf: "block_wf st" and i: "i < length (g_parts st)"
    and wr: "part_write i lba count buf st = (ok, st')"
  shows "same_devices st st'" "bl_pmm st' = bl_pmm st"
    "\<exists>n \<le> count. (ok \<longrightarrow> n = count) \<and> (ok \<or> n > 0 \<longrightarrow> dev_in_range st (PartDev i) lba count) \<and>
       (\<forall>be k l. hw_media (hw st') be k l =
         (if (be, k, lba_start (snd (g_parts st ! i))) = dev_location st (PartDev i) \<and>
             lba_start (snd (g_parts st ! i)) + lba \<le> l \<and> l < lba_start (snd (g_parts st ! i)) + lba + n
          then slice (SECTOR * (l - (lba_start (snd (g_parts st ! i)) + lba))) SECTOR buf
          else hw_media (hw st) be k l))" (is "?P")
proof -
  let ?p = "snd (g_parts st ! i)"
  let ?s1 = "sync_disk_presence (parent ?p) st"
  let ?s2 = "set_part_present i (disk_present (parent ?p) ?s1) ?s1"
  have ok: "parent ?p < length (g_disks st)" "lba_count ?p \<noteq> 0" "lba_start ?p + lba_count ?p \<le> 2 ^ 64"
    using wf nth_mem [OF i] by (auto simp: block_wf_def part_ok_def)
  have s2: "same_devices st ?s2"
    by (rule same_devices_trans [OF sync_disk_presence_same set_part_present_same]) (use i in simp)
  have cases: "(\<not> ok \<and> st' = st) \<or> (\<not> ok \<and> st' = ?s2) \<or> (part_in_bounds ?p lba count \<and> count > 0 \<and>
      disk_write (parent ?p) ((lba_start ?p + lba) mod 2 ^ 64) count buf ?s2 = (ok, st'))"
    using wr i by (auto simp: part_write_def Let_def split: if_splits)
  have "same_devices st st' \<and> bl_pmm st' = bl_pmm st \<and> ?P"
    using cases
  proof (elim disjE conjE)
    assume b: "part_in_bounds ?p lba count" "count > 0"
      and w: "disk_write (parent ?p) ((lba_start ?p + lba) mod 2 ^ 64) count buf ?s2 = (ok, st')"
    have rng: "lba + count \<le> lba_count ?p" using b ok(2) by (auto simp: part_in_bounds_def)
    then have lba: "(lba_start ?p + lba) mod 2 ^ 64 = lba_start ?p + lba" using ok(3) b(2) by auto
    have loc: "dev_location ?s2 (DiskDev (parent ?p)) = dev_location st (DiskDev (parent ?p))"
      using same_devices_location(1) [OF s2, of "DiskDev (parent ?p)"] ok(1) by simp
    from disk_write_spec(3) [OF w, unfolded lba loc] rng
    have ?P by (auto simp: Let_def)
    then show ?thesis using disk_write_spec(1,2) [OF w] s2 same_devices_trans by auto
  next
    assume "\<not> ok" "st' = ?s2"
    then show ?thesis using s2 by auto
  qed auto
  then show "same_devices st st'" "bl_pmm st' = bl_pmm st" ?P by auto
qed

text \<open>The two kinds of device together.\<close>

lemma dev_location_parent:
  assumes "block_wf st" "dev_exists st d"
  shows "\<And>i. d = PartDev i \<Longrightarrow> parent (snd (g_parts st ! i)) < length (g_disks st)"
  using assms by (auto simp: block_wf_def part_ok_def)

lemma dev_read_spec:
  assumes wf: "block_wf st" and d: "dev_exists st d" and rd: "dev_read d lba count buf st = (ok, buf', st')"
  shows "same_devices st st' \<and> hw_media (hw st') = hw_media (hw st) \<and> bl_pmm st' = bl_pmm st \<and>
    (ok \<longrightarrow> dev_in_range st d lba count \<and> buf' = splice 0 (read_sectors (dev_media st d) lba count) buf)"
proof (cases d)
  case (DiskDev i)
  then show ?thesis using disk_read_spec [of i lba count buf st] rd by auto
next
  case (PartDev i)
  then show ?thesis using part_read_spec [OF wf, of i lba count buf] rd d by auto
qed

definition wrote :: "block_state \<Rightarrow> blockdev \<Rightarrow> nat \<Rightarrow> nat \<Rightarrow> bytes \<Rightarrow> block_state \<Rightarrow> bool" where
  "wrote st d lba n buf st' \<longleftrightarrow> (case dev_location st d of (be0, k0, s) \<Rightarrow>
     \<forall>be k l. hw_media (hw st') be k l =
       (if be = be0 \<and> k = k0 \<and> s + lba \<le> l \<and> l < s + lba + n
        then slice (SECTOR * (l - (s + lba))) SECTOR buf else hw_media (hw st) be k l))"

lemma dev_write_spec:
  assumes wf: "block_wf st" and d: "dev_exists st d" and wr: "dev_write d lba count buf st = (ok, st')"
  shows "same_devices st st' \<and> bl_pmm st' = bl_pmm st \<and> (\<exists>n \<le> count. (ok \<longrightarrow> n = count) \<and>
      (ok \<or> n > 0 \<longrightarrow> dev_in_range st d lba count) \<and> wrote st d lba n buf st')"
proof (cases d)
  case (DiskDev i)
  then show ?thesis using disk_write_spec [of i lba count buf st ok st'] wr by (auto simp: wrote_def Let_def)
next
  case (PartDev i)
  then show ?thesis using part_write_spec [OF wf, of i lba count buf ok st'] wr d by (auto simp: wrote_def Let_def)
qed

section \<open>Devices as arrays of 4 KiB blocks\<close>

definition dev_block :: "block_state \<Rightarrow> blockdev \<Rightarrow> nat \<Rightarrow> bytes" where
  "dev_block st d n = (if dev_in_range st d (8 * n) 8 then read_sectors (dev_media st d) (8 * n) 8 else [])"

definition dev_ok :: "block_state \<Rightarrow> blockdev \<Rightarrow> bool" where
  "dev_ok st d \<longleftrightarrow> block_wf st \<and> dev_exists st d"

lemma dev_ok_location:
  assumes "dev_ok st d" "same_devices st st'"
  shows "dev_location st' d = dev_location st d" "dev_in_range st' d = dev_in_range st d"
    "dev_sectors st' d = dev_sectors st d" "dev_exists st' d"
proof -
  have wf: "block_wf st" and ex: "dev_exists st d" using assms(1) by (simp_all add: dev_ok_def)
  note loc = same_devices_location [OF assms(2) ex dev_location_parent [OF wf ex]]
  show "dev_location st' d = dev_location st d" "dev_in_range st' d = dev_in_range st d"
    "dev_sectors st' d = dev_sectors st d" "dev_exists st' d" using loc by blast+
qed

lemma map_eq_forall:
  assumes "map f xs = map f ys" "\<And>x. P x = Q (f x)"
  shows "(\<forall>x \<in> set xs. P x) = (\<forall>y \<in> set ys. P y)"
proof -
  have "(\<forall>x \<in> set zs. P x) = (\<forall>z \<in> set (map f zs). Q z)" for zs using assms(2) by simp
  then show ?thesis using assms(1) by metis
qed

lemma block_wf_same:
  assumes wf: "block_wf st" and same: "same_devices st st'"
    and m: "\<And>be i l. length (hw_media (hw st') be i l) = SECTOR"
  shows "block_wf st'"
proof -
  have d: "map (\<lambda>x. (dev_static (fst x), snd x)) (g_disks st') = map (\<lambda>x. (dev_static (fst x), snd x)) (g_disks st)"
    "map (\<lambda>x. (dev_static (fst x), snd x)) (g_parts st') = map (\<lambda>x. (dev_static (fst x), snd x)) (g_parts st)"
    using same same_devices_length [OF same]
    by (auto simp: same_devices_def list_eq_iff_nth_eq)
  have "(\<forall>x \<in> set (g_disks st'). disk_ok x) = (\<forall>x \<in> set (g_disks st). disk_ok x)"
    by (rule map_eq_forall [OF d(1), where Q = "\<lambda>((nm, ss, t), c). ss = SECTOR \<and> backend c \<noteq> DISK_BACKEND_NONE"])
      (simp add: disk_ok_def dev_static_def)
  moreover have "(\<forall>x \<in> set (g_parts st'). part_ok n x) = (\<forall>x \<in> set (g_parts st). part_ok n x)" for n
    by (rule map_eq_forall [OF d(2), where Q = "\<lambda>((nm, ss, t), c). ss = SECTOR \<and> parent c < n \<and>
          0 < lba_count c \<and> lba_start c + lba_count c \<le> 2 ^ 64 \<and> t = lba_count c"])
      (simp add: part_ok_def dev_static_def)
  ultimately show ?thesis using wf m same_devices_length [OF same] by (simp add: block_wf_def)
qed

lemma dev_read_wf: "dev_ok st d \<Longrightarrow> dev_read d lba count buf st = (ok, buf', st') \<Longrightarrow> block_wf st'"
  using dev_read_spec [of st d lba count buf ok buf' st'] block_wf_same [of st st']
  by (auto simp: dev_ok_def block_wf_def)

lemma wrote_wf:
  assumes "block_wf st" "same_devices st st'" "wrote st d lba n buf st'" "SECTOR * n \<le> length buf"
  shows "block_wf st'"
proof (rule block_wf_same [OF assms(1,2)])
  fix be i l
  obtain be0 k0 s where loc: "dev_location st d = (be0, k0, s)" by (cases "dev_location st d") auto
  have old: "length (hw_media (hw st) be i l) = SECTOR" using assms(1) by (simp add: block_wf_def)
  show "length (hw_media (hw st') be i l) = SECTOR"
  proof (cases "be = be0 \<and> i = k0 \<and> s + lba \<le> l \<and> l < s + lba + n")
    case True
    then have "SECTOR * (l - (s + lba)) + SECTOR \<le> length buf" using assms(4) by linarith
    then show ?thesis using assms(3) True loc by (simp add: wrote_def)
  qed (use assms(3) old loc in \<open>auto simp: wrote_def\<close>)
qed

lemma wrote_media:
  assumes "dev_ok st d" "same_devices st st'" "wrote st d lba n buf st'"
  shows "dev_media st' d l = (if lba \<le> l \<and> l < lba + n then slice (SECTOR * (l - lba)) SECTOR buf else dev_media st d l)"
proof -
  obtain be k s where loc: "dev_location st d = (be, k, s)" by (cases "dev_location st d") auto
  show ?thesis
    using assms(3) dev_ok_location(1) [OF assms(1,2)] by (simp add: dev_media_def wrote_def loc)
qed

lemma concat_slices: "length buf = k * n \<Longrightarrow> concat (map (\<lambda>j. slice (k * j) k buf) [0..<n]) = buf"
proof (induction n arbitrary: buf)
  case (Suc n)
  have "concat (map (\<lambda>j. slice (k * j) k (take (k * n) buf)) [0..<n]) = take (k * n) buf"
    by (rule Suc.IH) (use Suc.prems in simp)
  moreover have "map (\<lambda>j. slice (k * j) k (take (k * n) buf)) [0..<n] = map (\<lambda>j. slice (k * j) k buf) [0..<n]"
  proof (rule map_cong [OF refl])
    fix j assume "j \<in> set [0..<n]"
    then have "Suc j \<le> n" by auto
    then have "k * j + k \<le> k * n" using mult_le_mono2 [of "Suc j" n k] by simp
    then show "slice (k * j) k (take (k * n) buf) = slice (k * j) k buf"
      by (simp add: slice_def drop_take min_def)
  qed
  moreover have "slice (k * n) k buf = drop (k * n) buf" using Suc.prems by (simp add: slice_def)
  ultimately show ?case by simp
qed simp

lemma read_sectors_same:
  assumes "\<And>l. lba \<le> l \<Longrightarrow> l < lba + n \<Longrightarrow> m l = slice (SECTOR * (l - lba)) SECTOR buf" "length buf = SECTOR * n"
  shows "read_sectors m lba n = buf"
proof -
  have "map m [lba..<lba + n] = map (\<lambda>j. slice (SECTOR * j) SECTOR buf) [0..<n]"
    by (rule nth_equalityI) (use assms(1) in auto)
  then show ?thesis using concat_slices [OF assms(2)] by (simp add: read_sectors_def)
qed

lemma read_sectors_cong: "(\<And>l. lba \<le> l \<Longrightarrow> l < lba + n \<Longrightarrow> m l = m' l) \<Longrightarrow> read_sectors m lba n = read_sectors m' lba n"
  unfolding read_sectors_def by (rule arg_cong [where f = concat]) auto

lemma wrote_block_same:
  assumes "dev_ok st d" "same_devices st st'" "wrote st d (8 * b) 8 buf st'" "length buf = 4096"
    "dev_in_range st d (8 * b) 8"
  shows "dev_block st' d b = buf"
  using assms dev_ok_location [OF assms(1,2)] wrote_media [OF assms(1-3)]
  by (simp add: dev_block_def read_sectors_same)

lemma wrote_block_other:
  assumes "dev_ok st d" "same_devices st st'" "wrote st d (8 * b) n buf st'" "n \<le> 8" "m \<noteq> b"
  shows "dev_block st' d m = dev_block st d m"
proof -
  have "read_sectors (dev_media st' d) (8 * m) 8 = read_sectors (dev_media st d) (8 * m) 8"
    using assms(4,5) wrote_media [OF assms(1-3)] by (intro read_sectors_cong) auto
  then show ?thesis using dev_ok_location [OF assms(1,2)] by (simp add: dev_block_def)
qed

lemma wrote_other_device:
  assumes d: "dev_ok st d" and d2: "dev_ok st d2" and same: "same_devices st st'"
    and w: "wrote st d lba n buf st'" and rng: "n > 0 \<Longrightarrow> dev_in_range st d lba n"
    and dis: "dev_sectors st d \<inter> dev_sectors st d2 = {}"
  shows "dev_block st' d2 m = dev_block st d2 m"
proof (cases "dev_in_range st d2 (8 * m) 8")
  case False
  then show ?thesis using dev_ok_location [OF d2 same] by (simp add: dev_block_def)
next
  case True
  obtain be k s where loc: "dev_location st d = (be, k, s)" by (cases "dev_location st d") auto
  obtain be2 k2 s2 where loc2: "dev_location st d2 = (be2, k2, s2)" by (cases "dev_location st d2") auto
  have in2: "(be2, k2, s2 + l) \<in> dev_sectors st d2" if "8 * m \<le> l" "l < 8 * m + 8" for l
    using True that loc2 by (cases d2) auto
  have in1: "(be, k, l) \<in> dev_sectors st d" if "s + lba \<le> l" "l < s + lba + n" for l
    using rng that loc by (cases d) auto
  have "dev_media st' d2 l = dev_media st d2 l" if "8 * m \<le> l" "l < 8 * m + 8" for l
    using w in1 [of "s2 + l"] in2 [OF that] dis dev_ok_location(1) [OF d2 same] loc2
    by (auto simp: dev_media_def wrote_def loc)
  then have "read_sectors (dev_media st' d2) (8 * m) 8 = read_sectors (dev_media st d2) (8 * m) 8"
    by (intro read_sectors_cong) auto
  then show ?thesis using dev_ok_location [OF d2 same] by (simp add: dev_block_def)
qed

lemma length_dev_block: "dev_ok st d \<Longrightarrow> dev_in_range st d (8 * n) 8 \<Longrightarrow> length (dev_block st d n) = 4096"
  by (cases "dev_location st d")
    (simp add: dev_block_def length_read_sectors dev_media_def dev_ok_def block_wf_def)

section \<open>The registry stays well formed\<close>

text \<open>\<open>keeps st st'\<close>: a well-formed registry stays one.\<close>

definition keeps :: "block_state \<Rightarrow> block_state \<Rightarrow> bool" where
  "keeps st st' \<longleftrightarrow> (block_wf st \<longrightarrow> block_wf st')"

lemma keeps_refl [simp]: "keeps st st"
  by (simp add: keeps_def)

lemma keeps_trans: "keeps a b \<Longrightarrow> keeps b c \<Longrightarrow> keeps a c"
  by (simp add: keeps_def)

lemma block_wf_pmm [simp]: "block_wf (st\<lparr>bl_pmm := p\<rparr>) = block_wf st"
  by (simp add: block_wf_def)

lemma keeps_pmm: "keeps st st' \<Longrightarrow> keeps st (st'\<lparr>bl_pmm := p\<rparr>)"
  by (simp add: keeps_def)

lemma keeps_from_pmm: "keeps (st\<lparr>bl_pmm := p\<rparr>) st' \<Longrightarrow> keeps st st'"
  by (simp add: keeps_def)

lemma keeps_same:
  assumes same: "same_devices st st'" and m: "hw_media (hw st') = hw_media (hw st)"
  shows "keeps st st'"
proof -
  have "block_wf st'" if "block_wf st" by (rule block_wf_same [OF that same]) (use that m in \<open>simp add: block_wf_def\<close>)
  then show ?thesis by (simp add: keeps_def)
qed

lemma keeps_disk_read: "disk_read i lba n buf st = (ok, buf', st') \<Longrightarrow> keeps st st'"
  using disk_read_spec(1,2) keeps_same by blast

lemma keeps_register_partition:
  "start + count \<le> 2 ^ 64 \<Longrightarrow> keeps st (register_partition par num start count gpt ty tg pg st)"
  by (auto simp: keeps_def register_partition_def block_wf_def part_ok_def disk_ok_def Let_def)

lemma mbr_loop_step:
  assumes "i < 4 \<and> length (g_parts st) < MAX_PARTITIONS"
  shows "\<exists>a q. mbr_loop par mbr i added st = mbr_loop par mbr (i + 1) a q \<and> keeps st q"
proof -
  obtain ty start count where e: "mbr_entry mbr i = (ty, start, count)" by (metis prod_cases3)
  have "start < 2 ^ 32" "count < 2 ^ 32"
    using e unsigned_less [of "get_u32 mbr (446 + 16 * i + 8)"] unsigned_less [of "get_u32 mbr (446 + 16 * i + 12)"]
    by (auto simp: mbr_entry_def)
  then have k: "keeps st (register_partition par (i + 1) start count False ty [] [] st)"
    by (intro keeps_register_partition) simp
  note eq = mbr_loop.simps [of par mbr i added st, unfolded if_P [OF assms] Let_def e prod.case]
  show ?thesis
  proof (cases "ty = 0 \<or> count = 0 \<or> ty = 0xEE")
    case True
    then have "mbr_loop par mbr i added st = mbr_loop par mbr (i + 1) added st" using eq by (auto split: if_splits)
    then show ?thesis using keeps_refl by blast
  next
    case False
    then show ?thesis using eq k by auto
  qed
qed

lemma keeps_mbr_loop: "keeps st (snd (mbr_loop par mbr i added st))"
proof (induction "4 - i" arbitrary: i added st rule: less_induct)
  case less
  show ?case
  proof (cases "i < 4 \<and> length (g_parts st) < MAX_PARTITIONS")
    case True
    then obtain a q where q: "mbr_loop par mbr i added st = mbr_loop par mbr (i + 1) a q" "keeps st q"
      using mbr_loop_step by blast
    have "keeps q (snd (mbr_loop par mbr (i + 1) a q))" using True by (intro less) auto
    with q show ?thesis by (metis keeps_trans)
  next
    case False
    then show ?thesis by (simp add: mbr_loop.simps [of par mbr i] if_not_P [OF False])
  qed
qed

lemma gpt_loop_step:
  assumes "i < n \<and> length (g_parts st) < MAX_PARTITIONS"
  shows "\<exists>a q. gpt_loop par ent es n i added st = gpt_loop par ent es n (i + 1) a q \<and> keeps st q"
proof -
  define ge where "ge = decode_gpt_entry ent (i * es)"
  define count where "count = (ge_last_lba ge - ge_first_lba ge + 1) mod 2 ^ 64"
  have lst: "ge_last_lba ge < 2 ^ 64"
    using unsigned_less [of "get_u64 ent (i * es + 40)"] by (simp add: ge_def decode_gpt_entry_def)
  have "count \<le> ge_last_lba ge - ge_first_lba ge + 1" by (simp add: count_def)
  note eq = gpt_loop.simps [of par ent es n i added st, unfolded if_P [OF assms] Let_def ge_def [symmetric]
      count_def [symmetric]]
  show ?thesis
  proof (cases "guid_is_zero (ge_type_guid ge) \<or> (ge_first_lba ge = 0 \<and> ge_last_lba ge = 0) \<or> ge_last_lba ge < ge_first_lba ge")
    case True
    then have "gpt_loop par ent es n i added st = gpt_loop par ent es n (i + 1) added st"
      using eq by (auto split: if_splits)
    then show ?thesis using keeps_refl by blast
  next
    case False
    have "ge_first_lba ge + count \<le> 2 ^ 64" using False lst \<open>count \<le> _\<close> by linarith
    then have "keeps st (register_partition par (i + 1) (ge_first_lba ge) count True 0
        (ge_type_guid ge) (ge_unique_guid ge) st)" by (rule keeps_register_partition)
    then show ?thesis using eq False by auto
  qed
qed

lemma keeps_gpt_loop: "keeps st (snd (gpt_loop par ent es n i added st))"
proof (induction "n - i" arbitrary: i added st rule: less_induct)
  case less
  show ?case
  proof (cases "i < n \<and> length (g_parts st) < MAX_PARTITIONS")
    case True
    then obtain a q where q: "gpt_loop par ent es n i added st = gpt_loop par ent es n (i + 1) a q" "keeps st q"
      using gpt_loop_step by blast
    have "keeps q (snd (gpt_loop par ent es n (i + 1) a q))" using True by (intro less) auto
    with q show ?thesis by (metis keeps_trans)
  next
    case False
    then show ?thesis by (simp add: gpt_loop.simps [of par ent es n i] if_not_P [OF False])
  qed
qed

lemma keeps_probe_gpt_entries: "keeps st (snd (probe_gpt_entries par gh st))"
proof -
  define n where "n = (gh_part_entry_size gh * gh_num_part_entries gh + 511) div 512"
  define pages where "pages = (n * 512 + PAGE_SIZE - 1) div PAGE_SIZE"
  obtain a p where al: "pmm_alloc_pages pages (bl_pmm st) = (a, p)" by fastforce
  obtain ok ent st2 where rd: "disk_read par (gh_part_entry_lba gh) n (replicate (pages * PAGE_SIZE) 0)
      (st\<lparr>bl_pmm := p\<rparr>) = (ok, ent, st2)" by (metis prod_cases3)
  obtain added st3 where lp: "gpt_loop par ent (gh_part_entry_size gh) (gh_num_part_entries gh) 0 0 st2 = (added, st3)"
    by fastforce
  have k2: "keeps st st2" by (rule keeps_from_pmm [OF keeps_disk_read [OF rd]])
  have k3: "keeps st st3" using keeps_trans [OF k2] keeps_gpt_loop [of st2] lp by (metis snd_conv)
  show ?thesis
    using keeps_pmm [OF k2] keeps_pmm [OF k3] keeps_pmm [OF keeps_refl, of st]
    unfolding probe_gpt_entries_def block_pmm_alloc_def block_pmm_free_def Let_def
      n_def [symmetric] pages_def [symmetric] al prod.case rd lp
    by simp
qed

lemma keeps_probe_gpt: "keeps st (snd (probe_gpt_partitions par st))"
proof -
  obtain a p where al: "pmm_alloc (bl_pmm st) = (a, p)" by fastforce
  obtain ok hdr st2 where rd: "disk_read par 1 1 (replicate 512 0) (st\<lparr>bl_pmm := p\<rparr>) = (ok, hdr, st2)"
    by (metis prod_cases3)
  have k2: "keeps st st2" by (rule keeps_from_pmm [OF keeps_disk_read [OF rd]])
  have k3: "keeps st (st2\<lparr>bl_pmm := q\<rparr>)" for q by (rule keeps_pmm [OF k2])
  have k4: "keeps st (snd (probe_gpt_entries par gh (st2\<lparr>bl_pmm := q\<rparr>)))" for gh q
    by (rule keeps_trans [OF k3 keeps_probe_gpt_entries])
  show ?thesis
    using k3 k4 keeps_pmm [OF keeps_refl, of st] unfolding probe_gpt_partitions_def Let_def al prod.case rd by simp
qed

lemma keeps_probe: "keeps st (snd (probe_partitions_for_disk i st))"
proof -
  obtain a p where al: "pmm_alloc (bl_pmm st) = (a, p)" by fastforce
  obtain ok lba0 st2 where rd: "disk_read i 0 1 (replicate 512 0) (st\<lparr>bl_pmm := p\<rparr>) = (ok, lba0, st2)"
    by (metis prod_cases3)
  obtain has_gpt st3 where gp: "probe_gpt_partitions i st2 = (has_gpt, st3)" by fastforce
  obtain added st4 where mb: "probe_mbr_partitions i lba0 st3 = (added, st4)" by fastforce
  have k2: "keeps st st2" by (rule keeps_from_pmm [OF keeps_disk_read [OF rd]])
  have k3: "keeps st st3" using keeps_trans [OF k2] keeps_probe_gpt [of st2 i] gp by simp
  have "keeps st3 st4" using keeps_mbr_loop [of st3 i lba0 0 0] mb by (auto simp: probe_mbr_partitions_def split: if_splits)
  then have k4: "keeps st st4" by (rule keeps_trans [OF k3])
  show ?thesis
    using keeps_pmm [OF k2] keeps_pmm [OF k3] keeps_pmm [OF k4] keeps_pmm [OF keeps_refl, of st]
    unfolding probe_partitions_for_disk_def Let_def al prod.case rd gp mb by simp
qed

lemma keeps_set_part_table: "keeps st (set_part_table i t st)"
proof (cases "i < length (g_disks st)")
  case True
  have "set ((g_disks st)[i := (fst (g_disks st ! i), (snd (g_disks st ! i))\<lparr>part_table := t\<rparr>)]) \<subseteq>
      insert (fst (g_disks st ! i), (snd (g_disks st ! i))\<lparr>part_table := t\<rparr>) (set (g_disks st))"
    by (rule set_update_subset_insert)
  moreover have "disk_ok (fst (g_disks st ! i), (snd (g_disks st ! i))\<lparr>part_table := t\<rparr>)" if "block_wf st"
    using that nth_mem [OF True] by (auto simp: block_wf_def disk_ok_def)
  ultimately show ?thesis by (auto simp: keeps_def set_part_table_def block_wf_def)
qed (simp add: set_part_table_def list_update_beyond not_less)

lemma block_wf_flags [simp]:
  "block_wf (st\<lparr>g_boot_part_table := t\<rparr>) = block_wf st" "block_wf (st\<lparr>g_ready := r\<rparr>) = block_wf st"
  "block_wf (st\<lparr>g_registered_ahci_count := n\<rparr>) = block_wf st"
  "block_wf (st\<lparr>g_registered_usb_count := n\<rparr>) = block_wf st"
  by (simp_all add: block_wf_def)

lemma keeps_probe_disk: "keeps st (probe_disk i st)"
proof -
  let ?s = "sync_disk_presence i st"
  obtain t st2 where pr: "probe_partitions_for_disk i ?s = (t, st2)" by fastforce
  have k1: "keeps st ?s" by (rule keeps_same) simp_all
  have "keeps st st2" using keeps_trans [OF k1] keeps_probe [of ?s i] pr by simp
  then have "keeps st (set_part_table i t st2)" using keeps_trans keeps_set_part_table by blast
  then show ?thesis using k1 unfolding probe_disk_def Let_def pr prod.case by (auto simp: keeps_def)
qed

lemma part_ok_mono: "part_ok n x \<Longrightarrow> part_ok (Suc n) x"
  by (simp add: part_ok_def)

lemma keeps_register_disk: "register_disk be i st = (r, st') \<Longrightarrow> keeps st st'"
  by (auto simp: keeps_def register_disk_def block_wf_def disk_ok_def Let_def part_ok_mono split: if_splits)

lemma keeps_register_disks: "keeps st (register_disks be i n st)"
proof (induction be i n st rule: register_disks.induct)
  case (1 be i n st)
  obtain r st1 where rg: "register_disk be i st = (r, st1)" by fastforce
  have k: "keeps st st1" by (rule keeps_register_disk [OF rg])
  show ?case
  proof (cases "i < n \<and> length (g_disks st) < MAX_DISKS")
    case True
    then show ?thesis
      using 1 [OF True] rg k
      by (cases r) (auto simp: register_disks.simps [of be i n st] keeps_def split: if_splits)
  next
    case False
    then show ?thesis by (simp add: register_disks.simps [of be i n st] if_not_P [OF False])
  qed
qed

lemma keeps_fold: "(\<And>i st. keeps st (f i st)) \<Longrightarrow> keeps st (fold f is st)"
  by (induction "is" arbitrary: st) (auto intro: keeps_trans)

definition hw_ok :: "hw \<Rightarrow> bool" where
  "hw_ok h \<longleftrightarrow> (\<forall>be i l. length (hw_media h be i l) = SECTOR)"

lemma block_init_keeps:
  assumes "hw_ok (rescan (hw st))"
  shows "block_wf (block_init rescan st)"
proof -
  let ?st0 = "st\<lparr>g_disks := [], g_parts := [], g_boot_part_table := PART_TABLE_NONE, g_ready := False,
                   g_registered_ahci_count := 0, g_registered_usb_count := 0, hw := rescan (hw st)\<rparr>"
  have "block_wf ?st0" using assms by (simp add: block_wf_def hw_ok_def)
  then show ?thesis
    using keeps_register_disks keeps_fold [of probe_disk, OF keeps_probe_disk]
    unfolding block_init_def Let_def keeps_def by simp
qed

lemma keeps_rescan_disks: "keeps st (snd (rescan_disks be i n added st))"
proof (induction "n - i" arbitrary: i added st rule: less_induct)
  case less
  obtain r st1 where rg: "register_disk be i st = (r, st1)" by fastforce
  have k: "keeps st st1" by (rule keeps_register_disk [OF rg])
  show ?case
  proof (cases "i < n \<and> length (g_disks st) < MAX_DISKS")
    case True
    note eq = rescan_disks.simps [of be i n added st, unfolded if_P [OF True] rg prod.case]
    show ?thesis
    proof (cases r)
      case None
      then show ?thesis using eq k by simp
    next
      case (Some d)
      obtain t st' where pr: "probe_partitions_for_disk d st1 = (t, st')" by fastforce
      have "keeps st1 st'" using keeps_probe [of st1 d] pr by simp
      then have k': "keeps st (set_part_table d t st')" using k keeps_trans keeps_set_part_table by blast
      have "\<exists>q. rescan_disks be i n added st = rescan_disks be (i + 1) n (added + 1) q \<and> keeps st q"
        using eq k k' unfolding Some Let_def pr prod.case option.case by (auto simp: keeps_def)
      then obtain q where q: "rescan_disks be i n added st = rescan_disks be (i + 1) n (added + 1) q" "keeps st q"
        by blast
      have "keeps q (snd (rescan_disks be (i + 1) n (added + 1) q))" using True by (intro less) auto
      with q show ?thesis by (metis keeps_trans)
    qed
  next
    case False
    then show ?thesis by (simp add: rescan_disks.simps [of be i n] if_not_P [OF False])
  qed
qed

lemma keeps_rescan_hw: "(\<And>h. hw_ok h \<Longrightarrow> hw_ok (f h)) \<Longrightarrow> keeps st (st\<lparr>hw := f (hw st)\<rparr>)"
  by (simp add: keeps_def block_wf_def hw_ok_def)

lemma keeps_sync_all: "keeps st (sync_all_device_presence st)"
  by (rule keeps_same) simp_all

lemma keeps_ready: "keeps st st' \<Longrightarrow> keeps st (if c then st'\<lparr>g_ready := True\<rparr> else st')"
  by (simp add: keeps_def)

lemma keeps_rescan_bus:
  assumes "\<And>h. hw_ok h \<Longrightarrow> hw_ok (f h)"
  shows "keeps st (sync_all_device_presence
    ((sync_all_device_presence st)\<lparr>hw := f (hw (sync_all_device_presence st))\<rparr>))"
  using keeps_sync_all keeps_rescan_hw [OF assms] by (meson keeps_def)

lemma keeps_block_rescan:
  assumes "\<And>h. hw_ok h \<Longrightarrow> hw_ok (pci h)" "\<And>h. hw_ok h \<Longrightarrow> hw_ok (usb h)"
  shows "keeps st (snd (block_rescan pci usb st))"
proof -
  define st3 where "st3 = sync_all_device_presence ((sync_all_device_presence st)\<lparr>hw := usb (pci (hw (sync_all_device_presence st)))\<rparr>)"
  obtain a1 st4 where r1: "rescan_disks DISK_BACKEND_AHCI (g_registered_ahci_count st3) (ahci_disk_count (hw st3)) 0 st3 = (a1, st4)"
    by fastforce
  obtain a2 st5 where r2: "rescan_disks DISK_BACKEND_USB_STORAGE (g_registered_usb_count st4) (usb_storage_disk_count (hw st3)) a1 st4 = (a2, st5)"
    by fastforce
  have "keeps st st3"
    unfolding st3_def by (rule keeps_rescan_bus [where f = "\<lambda>h. usb (pci h)"]) (use assms in blast)
  moreover have "keeps st3 st4" using keeps_rescan_disks [of st3] r1 by (metis snd_conv)
  moreover have "keeps st4 st5" using keeps_rescan_disks [of st4] r2 by (metis snd_conv)
  ultimately have "keeps st st5" by (blast intro: keeps_trans)
  then show ?thesis
    unfolding block_rescan_def Let_def st3_def [symmetric] r1 prod.case r2 snd_conv by (rule keeps_ready)
qed

lemma keeps_block_poll_hotplug:
  assumes "\<And>h. hw_ok h \<Longrightarrow> hw_ok (usb h)"
  shows "keeps st (snd (block_poll_hotplug usb st))"
proof -
  define st3 where "st3 = sync_all_device_presence ((sync_all_device_presence st)\<lparr>hw := usb (hw (sync_all_device_presence st))\<rparr>)"
  obtain a st4 where r: "rescan_disks DISK_BACKEND_USB_STORAGE (g_registered_usb_count st3) (usb_storage_disk_count (hw st3)) 0 st3 = (a, st4)"
    by fastforce
  have "keeps st st3"
    unfolding st3_def by (rule keeps_rescan_bus [where f = usb]) (rule assms)
  moreover have "keeps st3 st4" using keeps_rescan_disks [of st3] r by (metis snd_conv)
  ultimately have "keeps st st4" by (blast intro: keeps_trans)
  then show ?thesis
    unfolding block_poll_hotplug_def Let_def st3_def [symmetric] r prod.case snd_conv by (rule keeps_ready)
qed

lemma keeps_dev_read: "dev_read d lba n buf st = (ok, buf', st') \<Longrightarrow> keeps st st'"
proof (cases "dev_exists st d")
  case True
  assume "dev_read d lba n buf st = (ok, buf', st')"
  then show ?thesis using dev_read_wf [of st d] True by (auto simp: keeps_def dev_ok_def)
next
  case False
  assume "dev_read d lba n buf st = (ok, buf', st')"
  then show ?thesis using False by (cases d) (auto simp: disk_read_def part_read_def)
qed

lemma keeps_dev_write:
  assumes "dev_write d lba n buf st = (ok, st')" "SECTOR * n \<le> length buf"
  shows "keeps st st'"
proof (cases "dev_exists st d")
  case True
  have "block_wf st'" if wf: "block_wf st"
  proof -
    obtain k where k: "k \<le> n" "wrote st d lba k buf st'" "same_devices st st'"
      using dev_write_spec [OF wf True assms(1)] by blast
    have "SECTOR * k \<le> length buf" using k(1) assms(2) by linarith
    with wrote_wf [OF wf k(3,2)] show ?thesis by blast
  qed
  then show ?thesis by (simp add: keeps_def)
next
  case False
  then show ?thesis using assms by (cases d) (auto simp: disk_write_def part_write_def)
qed

section \<open>Reachable registries\<close>

text \<open>Everything the kernel does to the registry after \<open>block_init\<close>.\<close>

inductive registry_step :: "block_state \<Rightarrow> block_state \<Rightarrow> bool" where
  rescan: "(\<And>h. hw_ok h \<Longrightarrow> hw_ok (pci h)) \<Longrightarrow> (\<And>h. hw_ok h \<Longrightarrow> hw_ok (usb h)) \<Longrightarrow>
    registry_step st (snd (block_rescan pci usb st))"
| poll: "(\<And>h. hw_ok h \<Longrightarrow> hw_ok (usb h)) \<Longrightarrow> registry_step st (snd (block_poll_hotplug usb st))"
| sync: "registry_step st (sync_all_device_presence st)"
| dread: "dev_read d lba n buf st = (ok, buf', st') \<Longrightarrow> registry_step st st'"
| dwrite: "dev_write d lba n buf st = (ok, st') \<Longrightarrow> SECTOR * n \<le> length buf \<Longrightarrow> registry_step st st'"

inductive registry_reachable :: "block_state \<Rightarrow> bool" where
  boot: "hw_ok (usb (hw st)) \<Longrightarrow> registry_reachable (block_init usb st)"
| step: "registry_reachable st \<Longrightarrow> registry_step st st' \<Longrightarrow> registry_reachable st'"

lemma registry_step_keeps: "registry_step st st' \<Longrightarrow> keeps st st'"
  by (induction rule: registry_step.induct)
    (auto intro: keeps_block_rescan keeps_block_poll_hotplug keeps_sync_all keeps_dev_read keeps_dev_write)

lemma registry_reachable_wf: "registry_reachable st \<Longrightarrow> block_wf st"
  by (induction rule: registry_reachable.induct)
    (auto intro: block_init_keeps dest: registry_step_keeps simp: keeps_def)

section \<open>Properties\<close>

text \<open>One AHCI disk with one partition at sector 64, 128 sectors long.\<close>

definition example_hw :: hw where
  "example_hw = \<lparr>hw_media = (\<lambda>_ _ _. replicate 512 0), hw_sectors = (\<lambda>_ _. 4096),
     usb_storage_is_present = (\<lambda>_. False), ahci_disk_count = 1, usb_storage_disk_count = 0, io_time = 0,
     io_fault = (\<lambda>_. None)\<rparr>"

definition example_block :: block_state where
  "example_block = \<lparr>
     g_disks = [(\<lparr>dev_name = ''disk0'', sector_size = 512, total_sectors = 4096, present = True, removable = False\<rparr>,
                 \<lparr>backend = DISK_BACKEND_AHCI, backend_index = 0, part_table = PART_TABLE_MBR\<rparr>)],
     g_parts = [(\<lparr>dev_name = ''disk0p1'', sector_size = 512, total_sectors = 128, present = True, removable = False\<rparr>,
                 \<lparr>parent = 0, lba_start = 64, lba_count = 128, part_number = 1, mbr_type = 0x83, is_gpt = False,
                  gpt_type_guid = replicate 16 0, gpt_part_guid = replicate 16 0\<rparr>)],
     g_ready = True, g_registered_ahci_count = 1, g_registered_usb_count = 0,
     g_boot_part_table = PART_TABLE_MBR, bl_pmm = example_pmm, hw = example_hw\<rparr>"

lemma example_block_wf: "block_wf example_block"
  by (simp add: block_wf_def example_block_def example_hw_def disk_ok_def part_ok_def)

text \<open>C16: however the kernel polls, rescans, reads and writes after \<open>block_init\<close>, the registry has at most 8
  disks and 64 partitions, every partition lies on a registered disk, is not empty and does not
  wrap around the 64-bit sector range, and every sector keeps its size.\<close>

theorem block_registry_invariant:
  assumes "registry_reachable st"
  shows "block_wf st"
  by (rule registry_reachable_wf [OF assms])

theorem block_registry_invariant_witness: "block_wf (snd (block_poll_hotplug (\<lambda>h. h) (block_init (\<lambda>h. h) example_block)))"
proof (rule block_registry_invariant)
  have "hw_ok (hw example_block)" using example_block_wf by (simp add: hw_ok_def block_wf_def)
  then show "registry_reachable (snd (block_poll_hotplug (\<lambda>h. h) (block_init (\<lambda>h. h) example_block)))"
    by (intro registry_reachable.step [OF registry_reachable.boot registry_step.poll]) simp_all
qed

text \<open>C17: a write to a partition, whether it succeeds, is refused or breaks off half way, changes no
  sector outside the partition.\<close>

theorem part_write_confined:
  assumes "block_wf st" and "i < length (g_parts st)" and "part_write i lba count buf st = (ok, st')"
    and "hw_media (hw st') be k l \<noteq> hw_media (hw st) be k l"
  shows "(be, k, l) \<in> dev_sectors st (PartDev i)"
  using part_write_spec(3) [OF assms(1-3)] assms(4) by (fastforce simp: Let_def split: if_splits)

theorem part_write_confined_witness:
  "(DISK_BACKEND_AHCI, 0, 67) \<in> dev_sectors example_block (PartDev 0)"
proof (rule part_write_confined [OF example_block_wf, where lba = 3 and count = 1 and buf = "replicate 512 1"])
  show "part_write 0 3 1 (replicate 512 1) example_block =
      (fst (part_write 0 3 1 (replicate 512 1) example_block), snd (part_write 0 3 1 (replicate 512 1) example_block))"
    by simp
  have "slice 0 512 (replicate 512 (1 :: u8)) = replicate 512 1" by (simp add: slice_def)
  moreover have "replicate 512 (1 :: u8) \<noteq> replicate 512 0" by (simp add: replicate_eq_replicate)
  ultimately show "hw_media (hw (snd (part_write 0 3 1 (replicate 512 1) example_block))) DISK_BACKEND_AHCI 0 67 \<noteq>
      hw_media (hw example_block) DISK_BACKEND_AHCI 0 67"
    by (simp add: part_write_def example_block_def example_hw_def sync_disk_presence_def disk_backend_present_def
        disk_present_def set_part_present_def part_in_bounds_def disk_write_def backend_write_def transfer_def
        tick_def write_sectors_def)
qed (simp add: example_block_def)

text \<open>When a transfer succeeds.\<close>

lemma disk_transfer_iff:
  "fst (disk_read i lba count buf st) \<longleftrightarrow>
     i < length (g_disks st) \<and> disk_backend_present (snd (g_disks st ! i)) (hw st) \<and> io_fault (hw st) (io_time (hw st)) = None"
  "fst (disk_write i lba count buf st) \<longleftrightarrow>
     i < length (g_disks st) \<and> disk_backend_present (snd (g_disks st ! i)) (hw st) \<and> io_fault (hw st) (io_time (hw st)) = None"
  by (auto simp: disk_read_def disk_write_def backend_read_def backend_write_def transfer_def sync_disk_presence_def disk_backend_present_def
      Let_def case_prod_unfold split: option.splits)

lemma part_transfer_iff:
  assumes "i < length (g_parts st)" "p = snd (g_parts st ! i)"
  shows "fst (part_read i lba count buf st) \<longleftrightarrow> count \<noteq> 0 \<and> part_in_bounds p lba count \<and> parent p < length (g_disks st) \<and>
       disk_backend_present (snd (g_disks st ! parent p)) (hw st) \<and> io_fault (hw st) (io_time (hw st)) = None"
    "fst (part_write i lba count buf st) \<longleftrightarrow> count \<noteq> 0 \<and> part_in_bounds p lba count \<and> parent p < length (g_disks st) \<and>
       disk_backend_present (snd (g_disks st ! parent p)) (hw st) \<and> io_fault (hw st) (io_time (hw st)) = None"
  using assms
  by (auto simp: part_read_def part_write_def disk_transfer_iff disk_present_def sync_disk_presence_def Let_def case_prod_unfold)

lemma disk_write_hw:
  "usb_storage_is_present (hw (snd (disk_write i lba count buf st))) = usb_storage_is_present (hw st)"
  by (auto simp: disk_write_def backend_write_def tick_def Let_def case_prod_unfold)

lemma dev_write_hw:
  "usb_storage_is_present (hw (snd (dev_write d lba count buf st))) = usb_storage_is_present (hw st)"
  by (cases d) (auto simp: part_write_def disk_write_hw Let_def)

lemma dev_read_after_write:
  assumes "dev_ok st d" "dev_write d lba count buf st = (True, st')" "io_fault (hw st') (io_time (hw st')) = None"
  shows "fst (dev_read d lba count out st')"
proof -
  have ex: "block_wf st" "dev_exists st d" using assms(1) by (simp_all add: dev_ok_def)
  have same: "same_devices st st'" using dev_write_spec [OF ex assms(2)] by blast
  have w: "fst (dev_write d lba count buf st)" "usb_storage_is_present (hw st') = usb_storage_is_present (hw st)"
    using assms(2) dev_write_hw [of d lba count buf st] by simp_all
  have pr: "disk_backend_present c (hw st') = disk_backend_present c (hw st)" for c
    using w(2) by (simp add: disk_backend_present_def cong: disk_backend.case_cong)
  note ctx = same_devices_ctx [OF same] same_devices_length [OF same]
  show ?thesis
  proof (cases d)
    case (DiskDev i)
    then show ?thesis using w(1) ctx assms(3) pr by (simp add: disk_transfer_iff)
  next
    case (PartDev i)
    have i: "i < length (g_parts st)" using ex(2) PartDev by simp
    then have i': "i < length (g_parts st')" "snd (g_parts st' ! i) = snd (g_parts st ! i)" using ctx by simp_all
    show ?thesis using w(1) ctx assms(3) pr part_transfer_iff [OF i refl] part_transfer_iff [OF i'(1) i'(2) [symmetric]] PartDev by simp
  qed
qed

lemma dev_read_block_value:
  assumes "dev_ok st d" "length out = 4096" "dev_read d (8 * m) 8 out st = (True, x, t)"
  shows "x = dev_block st d m"
proof -
  have ex: "block_wf st" "dev_exists st d" using assms(1) by (simp_all add: dev_ok_def)
  have r: "dev_in_range st d (8 * m) 8" "x = splice 0 (read_sectors (dev_media st d) (8 * m) 8) out"
    using dev_read_spec [OF ex assms(3)] by simp_all
  have "length (dev_media st d l) = SECTOR" for l using ex(1) by (simp add: dev_media_def block_wf_def case_prod_unfold)
  then show ?thesis using r assms(2) by (simp add: dev_block_def splice_def length_read_sectors)
qed

text \<open>C18: a block that was written to a device is what the next read of it returns, and that read succeeds unless the hardware
  faults. A read of any other block of the device, or of any block of a device with other sectors, returns what
  it returned before the write.\<close>

theorem dev_write_read:
  assumes "dev_ok st d" and "dev_ok st d2" and "dev_sectors st d \<inter> dev_sectors st d2 = {}"
    and "length buf = 4096" and "dev_write d (8 * b) 8 buf st = (True, st')" and "length out = 4096"
  shows "(\<forall>ok x t. dev_read d (8 * b) 8 out st' = (ok, x, t) \<longrightarrow>
       (ok \<longrightarrow> x = buf) \<and> (io_fault (hw st') (io_time (hw st')) = None \<longrightarrow> ok)) \<and>
    (\<forall>e m x y t t'. e = d \<and> m \<noteq> b \<or> e = d2 \<longrightarrow>
       dev_read e (8 * m) 8 out st = (True, x, t) \<longrightarrow> dev_read e (8 * m) 8 out st' = (True, y, t') \<longrightarrow> x = y)"
proof -
  have w: "same_devices st st'" "dev_in_range st d (8 * b) 8" "wrote st d (8 * b) 8 buf st'"
    using dev_write_spec [OF _ _ assms(5)] assms(1) by (auto simp: dev_ok_def)
  have ok: "dev_ok st' d" "dev_ok st' d2"
    using wrote_wf [OF _ w(1,3)] assms(1,4) dev_ok_location(4) [OF assms(1) w(1)] dev_ok_location(4) [OF assms(2) w(1)]
    by (simp_all add: dev_ok_def)
  have v: "dev_block st' d b = buf" "m \<noteq> b \<Longrightarrow> dev_block st' d m = dev_block st d m" "dev_block st' d2 m = dev_block st d2 m" for m
    using wrote_block_same [OF assms(1) w(1,3) assms(4) w(2)] wrote_block_other [OF assms(1) w(1,3)]
      wrote_other_device [OF assms(1,2) w(1,3) _ assms(3)] w(2) by blast+
  have val: "x = dev_block t e m" if "dev_ok t e" "dev_read e (8 * m) 8 out t = (True, x, t1)" for e m t x t1
    by (rule dev_read_block_value [OF that(1) assms(6) that(2)])
  have "(r \<longrightarrow> x = buf) \<and> (io_fault (hw st') (io_time (hw st')) = None \<longrightarrow> r)" if "dev_read d (8 * b) 8 out st' = (r, x, t)" for r x t
    using that val [OF ok(1), of b x t] v(1) dev_read_after_write [OF assms(1,5), of out] by auto
  moreover have "x = y" if "e = d \<and> m \<noteq> b \<or> e = d2" "dev_read e (8 * m) 8 out st = (True, x, t)" "dev_read e (8 * m) 8 out st' = (True, y, t')"
    for e m x y t t'
  proof -
    have "dev_ok st e" "dev_ok st' e" "dev_block st' e m = dev_block st e m" using that(1) assms(1,2) ok v(2,3) by auto
    then show ?thesis using val [OF _ that(2)] val [OF _ that(3)] by simp
  qed
  ultimately show ?thesis by blast
qed

definition example_block2 :: block_state where
  "example_block2 = example_block\<lparr>g_parts := g_parts example_block @
     [(\<lparr>dev_name = ''disk0p2'', sector_size = 512, total_sectors = 100, present = True, removable = False\<rparr>,
       \<lparr>parent = 0, lba_start = 192, lba_count = 100, part_number = 2, mbr_type = 0x83, is_gpt = False,
        gpt_type_guid = replicate 16 0, gpt_part_guid = replicate 16 0\<rparr>)]\<rparr>"

theorem dev_write_read_witness:
  "fst (snd (dev_read (PartDev 0) 16 8 (replicate 4096 0) (snd (dev_write (PartDev 0) 16 8 (replicate 4096 7) example_block2)))) =
     replicate 4096 7"
proof -
  have wf: "dev_ok example_block2 (PartDev 0)" "dev_ok example_block2 (PartDev 1)"
    by (auto simp: dev_ok_def block_wf_def example_block2_def example_block_def example_hw_def disk_ok_def part_ok_def)
  have dis: "dev_sectors example_block2 (PartDev 0) \<inter> dev_sectors example_block2 (PartDev 1) = {}"
    by (auto simp: example_block2_def example_block_def)
  let ?st = "snd (dev_write (PartDev 0) 16 8 (replicate 4096 7) example_block2)"
  have "fst (dev_write (PartDev 0) 16 8 (replicate 4096 7) example_block2)" "io_fault (hw ?st) (io_time (hw ?st)) = None"
    by (simp_all add: example_block2_def part_write_def example_block_def example_hw_def sync_disk_presence_def
        disk_backend_present_def disk_present_def set_part_present_def part_in_bounds_def disk_write_def
        backend_write_def transfer_def tick_def)
  then have ok: "dev_write (PartDev 0) (8 * 2) 8 (replicate 4096 7) example_block2 = (True, ?st)"
      and nf: "io_fault (hw ?st) (io_time (hw ?st)) = None" by (simp_all add: prod_eq_iff)
  obtain r x t where rd: "dev_read (PartDev 0) (8 * 2) 8 (replicate 4096 0) ?st = (r, x, t)" by (metis prod_cases3)
  have "length (replicate 4096 (7 :: u8)) = 4096" "length (replicate 4096 (0 :: u8)) = 4096" by (simp_all only: length_replicate)
  from conjunct1 [OF dev_write_read [OF wf dis this(1) ok this(2)]] rd nf have "x = replicate 4096 7" by blast
  moreover have "(16 :: nat) = 8 * 2" by simp
  ultimately show ?thesis using rd by (metis fst_conv snd_conv)
qed

end
