(* ===== verification/Bcache.thy ===== *)
theory Bcache
  imports Block
begin

text \<open>
  The buffer cache, \<open>src/src/fs/bcache.c\<close>, over the block layer. A \<open>bcache_buf_t*\<close> is the index of a
  buffer in \<open>g_bufs\<close>; the LRU list (most recent first) and the hash chains are lists of such
  indices, so the list surgery on \<open>prev\<close>, \<open>next\<close> and \<open>hnext\<close> is consing and removing. The hash
  mixes the address of the device structure, which \<open>dev_addr\<close> gives (NULL is 0). An operation given
  a NULL buffer does nothing; here there is no index to call it with. The 64-bit statistics
  counters are unbounded.
  Proved: the cache is transparent. The contents a client sees (\<open>view\<close>: the cached block if there
  is one, else the block on the device) do not change when buffers are fetched, evicted or written
  back, whether transfers succeed or fail; a write changes exactly one block; two buffers never
  hold the same block, pinned buffers are never evicted, and a successful sync makes the device
  equal to the view.
\<close>

unbundle bit_operations_syntax

section \<open>State\<close>

abbreviation (input) BCACHE_BLOCK_SIZE :: nat where "BCACHE_BLOCK_SIZE \<equiv> 4096"
abbreviation (input) BCACHE_SECTORS_PER_BLOCK :: nat where "BCACHE_SECTORS_PER_BLOCK \<equiv> 8"

record bcache_buf =
  b_dev :: "blockdev option"
  b_block :: nat
  refcnt :: nat
  valid :: bool
  dirty :: bool
  b_data :: bytes

record bcache_stats =
  hits :: nat
  misses :: nat
  evictions :: nat
  writebacks :: nat
  sync_calls :: nat
  total_bufs :: nat
  used_bufs :: nat
  dirty_bufs :: nat

record bcache =
  g_bufs :: "bcache_buf list"
  g_ht :: "nat list list"
  g_lru :: "nat list"
  g_stats :: bcache_stats
  bc_ready :: bool
  dev_addr :: "blockdev \<Rightarrow> u64"
  blk :: block_state

abbreviation g_nbufs :: "bcache \<Rightarrow> nat" where "g_nbufs s \<equiv> length (g_bufs s)"
abbreviation g_ht_cap :: "bcache \<Rightarrow> nat" where "g_ht_cap s \<equiv> length (g_ht s)"

definition upd_buf :: "nat \<Rightarrow> (bcache_buf \<Rightarrow> bcache_buf) \<Rightarrow> bcache \<Rightarrow> bcache" where
  "upd_buf i f s = s\<lparr>g_bufs := (g_bufs s)[i := f (g_bufs s ! i)]\<rparr>"

definition upd_stats :: "(bcache_stats \<Rightarrow> bcache_stats) \<Rightarrow> bcache \<Rightarrow> bcache" where
  "upd_stats f s = s\<lparr>g_stats := f (g_stats s)\<rparr>"

section \<open>Internal helpers\<close>

definition key_hash :: "u64 \<Rightarrow> nat \<Rightarrow> u64" where
  "key_hash addr block_no =
     (let x = addr XOR (word_of_nat block_no * 11400714819323198485);
          x = x XOR drop_bit 33 x;
          x = x * 0xff51afd7ed558ccd
      in x XOR drop_bit 33 x)"

definition ht_index :: "bcache \<Rightarrow> blockdev option \<Rightarrow> nat \<Rightarrow> nat" where
  "ht_index s d n =
     unat (key_hash (case d of None \<Rightarrow> 0 | Some d \<Rightarrow> dev_addr s d) n) mod g_ht_cap s"

definition lru_remove :: "nat \<Rightarrow> bcache \<Rightarrow> bcache" where
  "lru_remove b s = s\<lparr>g_lru := remove1 b (g_lru s)\<rparr>"

definition lru_push_front :: "nat \<Rightarrow> bcache \<Rightarrow> bcache" where
  "lru_push_front b s = s\<lparr>g_lru := b # g_lru s\<rparr>"

definition lru_touch :: "nat \<Rightarrow> bcache \<Rightarrow> bcache" where
  "lru_touch b s = lru_push_front b (lru_remove b s)"

definition ht_remove :: "nat \<Rightarrow> bcache \<Rightarrow> bcache" where
  "ht_remove b s =
     (if g_ht_cap s = 0 then s else
      let idx = ht_index s (b_dev (g_bufs s ! b)) (b_block (g_bufs s ! b))
      in s\<lparr>g_ht := (g_ht s)[idx := remove1 b (g_ht s ! idx)]\<rparr>)"

definition ht_insert :: "nat \<Rightarrow> bcache \<Rightarrow> bcache" where
  "ht_insert b s =
     (if g_ht_cap s = 0 then s else
      let idx = ht_index s (b_dev (g_bufs s ! b)) (b_block (g_bufs s ! b))
      in s\<lparr>g_ht := (g_ht s)[idx := b # g_ht s ! idx]\<rparr>)"

definition ht_lookup :: "blockdev \<Rightarrow> nat \<Rightarrow> bcache \<Rightarrow> nat option" where
  "ht_lookup d n s =
     (if g_ht_cap s = 0 then None
      else find (\<lambda>i. valid (g_bufs s ! i) \<and> b_dev (g_bufs s ! i) = Some d \<and> b_block (g_bufs s ! i) = n)
             (g_ht s ! ht_index s (Some d) n))"

definition sector_size_ok :: "blockdev \<Rightarrow> block_state \<Rightarrow> bool" where
  "sector_size_ok d st = (case dev_info d st of None \<Rightarrow> False | Some i \<Rightarrow> sector_size i = 512)"

definition dev_read_block :: "blockdev \<Rightarrow> nat \<Rightarrow> bytes \<Rightarrow> block_state \<Rightarrow> bool \<times> bytes \<times> block_state" where
  "dev_read_block d n buf st =
     (if \<not> sector_size_ok d st then (False, buf, st)
      else dev_read d ((n * BCACHE_SECTORS_PER_BLOCK) mod 2 ^ 64) BCACHE_SECTORS_PER_BLOCK buf st)"

definition dev_write_block :: "blockdev \<Rightarrow> nat \<Rightarrow> bytes \<Rightarrow> block_state \<Rightarrow> bool \<times> block_state" where
  "dev_write_block d n buf st =
     (if \<not> sector_size_ok d st then (False, st)
      else dev_write d ((n * BCACHE_SECTORS_PER_BLOCK) mod 2 ^ 64) BCACHE_SECTORS_PER_BLOCK buf st)"

definition writeback_one :: "nat \<Rightarrow> bcache \<Rightarrow> bool \<times> bcache" where
  "writeback_one b s =
     (if \<not> valid (g_bufs s ! b) then (True, s)
      else if \<not> dirty (g_bufs s ! b) then (True, s)
      else case b_dev (g_bufs s ! b) of
        None \<Rightarrow> (False, s)
      | Some d \<Rightarrow>
        let (ok, st) = dev_write_block d (b_block (g_bufs s ! b)) (b_data (g_bufs s ! b)) (blk s);
            s1 = s\<lparr>blk := st\<rparr> in
        if \<not> ok then (False, s1)
        else
          (True, upd_stats (\<lambda>t. t\<lparr>dirty_bufs := dirty_bufs t - 1, writebacks := writebacks t + 1\<rparr>)
                   (upd_buf b (\<lambda>x. x\<lparr>dirty := False\<rparr>) s1)))"

definition find_evictable :: "bcache \<Rightarrow> nat option" where
  "find_evictable s = find (\<lambda>i. refcnt (g_bufs s ! i) = 0) (rev (g_lru s))"

section \<open>The interface\<close>

definition empty_buf :: bcache_buf where
  "empty_buf = \<lparr>b_dev = None, b_block = 0, refcnt = 0, valid = False, dirty = False, b_data = []\<rparr>"

definition init_buf :: "nat \<Rightarrow> bcache \<Rightarrow> bcache" where
  "init_buf i s =
     (let (phys, p) = pmm_alloc (bl_pmm (blk s)); s1 = s\<lparr>blk := (blk s)\<lparr>bl_pmm := p\<rparr>\<rparr> in
      if phys = 0 then s1
      else lru_push_front i (upd_buf i (\<lambda>b. empty_buf\<lparr>b_data := replicate BCACHE_BLOCK_SIZE 0\<rparr>) s1))"

text \<open>\<open>mem_ok\<close> says whether both allocations from the kernel heap succeed; \<open>bc_ready\<close> is that
  \<open>g_bufs\<close> and \<open>g_ht\<close> are set.\<close>

definition bcache_init :: "bool \<Rightarrow> nat \<Rightarrow> bcache \<Rightarrow> bcache" where
  "bcache_init mem_ok num0 s =
     (let num_bufs = (if num0 = 0 then 128 else num0);
          s1 = upd_stats (\<lambda>t. t\<lparr>total_bufs := num_bufs\<rparr>) s in
      if \<not> mem_ok then s1\<lparr>bc_ready := False\<rparr>
      else fold init_buf [0..<num_bufs]
             (s1\<lparr>g_bufs := replicate num_bufs empty_buf, g_ht := replicate ((num_bufs * 2 + 1) mod 2 ^ 32) [],
                 g_lru := [], bc_ready := True\<rparr>))"

text \<open>\<open>bcache_get\<close> on a miss: the victim is written back and unhooked, then filled.\<close>

definition bcache_fill :: "blockdev \<Rightarrow> nat \<Rightarrow> nat \<Rightarrow> bcache \<Rightarrow> nat option \<times> bcache" where
  "bcache_fill d n v s =
     (let s1 = upd_buf v (\<lambda>x. x\<lparr>b_dev := Some d, b_block := n, valid := True, dirty := False\<rparr>) s;
          (rok, buf, st) = dev_read_block d n (b_data (g_bufs s1 ! v)) (blk s1);
          s2 = upd_buf v (\<lambda>x. x\<lparr>b_data := buf\<rparr>) (s1\<lparr>blk := st\<rparr>) in
      if \<not> rok then (None, upd_buf v (\<lambda>x. x\<lparr>valid := False, b_dev := None, b_block := 0\<rparr>) s2)
      else
        let s3 = lru_touch v (upd_buf v (\<lambda>x. x\<lparr>refcnt := 1\<rparr>) (ht_insert v s2))
        in (Some v, upd_stats (\<lambda>t. if used_bufs t < total_bufs t
                                   then t\<lparr>used_bufs := used_bufs t + 1\<rparr> else t) s3))"

definition bcache_get :: "blockdev \<Rightarrow> nat \<Rightarrow> bcache \<Rightarrow> nat option \<times> bcache" where
  "bcache_get d n s =
     (if \<not> bc_ready s \<or> g_nbufs s = 0 then (None, s) else
      case ht_lookup d n s of
        Some b \<Rightarrow>
          (Some b, lru_touch b (upd_buf b (\<lambda>x. x\<lparr>refcnt := (refcnt x + 1) mod 2 ^ 32\<rparr>)
             (upd_stats (\<lambda>t. t\<lparr>hits := hits t + 1\<rparr>) s)))
      | None \<Rightarrow>
        let s1 = upd_stats (\<lambda>t. t\<lparr>misses := misses t + 1\<rparr>) s in
        case find_evictable s1 of
          None \<Rightarrow> (None, s1)
        | Some v \<Rightarrow>
          let (ok, s2) = (if valid (g_bufs s1 ! v) \<and> dirty (g_bufs s1 ! v) then writeback_one v s1 else (True, s1)) in
          if \<not> ok then (None, s2)
          else bcache_fill d n v
            (if valid (g_bufs s2 ! v)
             then upd_stats (\<lambda>t. t\<lparr>evictions := evictions t + 1\<rparr>) (ht_remove v s2) else s2))"

definition bcache_put :: "nat \<Rightarrow> bcache \<Rightarrow> bcache" where
  "bcache_put b s =
     (if refcnt (g_bufs s ! b) = 0 then s else upd_buf b (\<lambda>x. x\<lparr>refcnt := refcnt x - 1\<rparr>) s)"

definition bcache_mark_dirty :: "nat \<Rightarrow> bcache \<Rightarrow> bcache" where
  "bcache_mark_dirty b s =
     (if \<not> valid (g_bufs s ! b) then s
      else if \<not> dirty (g_bufs s ! b)
      then upd_stats (\<lambda>t. t\<lparr>dirty_bufs := dirty_bufs t + 1\<rparr>) (upd_buf b (\<lambda>x. x\<lparr>dirty := True\<rparr>) s)
      else s)"

definition sync_one :: "blockdev option \<Rightarrow> nat \<Rightarrow> bool \<times> bcache \<Rightarrow> bool \<times> bcache" where
  "sync_one d i r =
     (let (ok, s) = r; b = g_bufs s ! i in
      if \<not> valid b \<or> (d \<noteq> None \<and> b_dev b \<noteq> d) \<or> \<not> dirty b then (ok, s)
      else let (w, s') = writeback_one i s in (ok \<and> w, s'))"

definition bcache_sync_dev :: "blockdev \<Rightarrow> bcache \<Rightarrow> bool \<times> bcache" where
  "bcache_sync_dev d s =
     (let s1 = upd_stats (\<lambda>t. t\<lparr>sync_calls := sync_calls t + 1\<rparr>) s in
      if \<not> bc_ready s1 then (True, s1)
      else
        let (ok, s2) = fold (sync_one (Some d)) [0..<g_nbufs s1] (True, s1);
            (fok, st) = dev_flush d (blk s2)
        in (ok \<and> fok, s2\<lparr>blk := st\<rparr>))"

definition bcache_sync_all :: "bcache \<Rightarrow> bool \<times> bcache" where
  "bcache_sync_all s =
     (let s1 = upd_stats (\<lambda>t. t\<lparr>sync_calls := sync_calls t + 1\<rparr>) s in
      if \<not> bc_ready s1 then (True, s1) else fold (sync_one None) [0..<g_nbufs s1] (True, s1))"

definition bcache_data :: "nat \<Rightarrow> bcache \<Rightarrow> bytes" where
  "bcache_data b s = b_data (g_bufs s ! b)"

definition bcache_dev :: "nat \<Rightarrow> bcache \<Rightarrow> blockdev option" where
  "bcache_dev b s = b_dev (g_bufs s ! b)"

definition bcache_blockno :: "nat \<Rightarrow> bcache \<Rightarrow> nat" where
  "bcache_blockno b s = b_block (g_bufs s ! b)"

definition bcache_is_dirty :: "nat \<Rightarrow> bcache \<Rightarrow> bool" where
  "bcache_is_dirty b s = dirty (g_bufs s ! b)"

definition bcache_stats_of :: "bcache \<Rightarrow> bcache_stats" where
  "bcache_stats_of s = g_stats s"

text \<open>A client changes the data of a buffer it holds and marks it dirty.\<close>

definition bcache_store :: "nat \<Rightarrow> bytes \<Rightarrow> bcache \<Rightarrow> bcache" where
  "bcache_store b d s = bcache_mark_dirty b (upd_buf b (\<lambda>x. x\<lparr>b_data := d\<rparr>) s)"

section \<open>The contents a client sees\<close>

definition holds :: "bcache \<Rightarrow> blockdev \<Rightarrow> nat \<Rightarrow> nat \<Rightarrow> bool" where
  "holds s d n i \<longleftrightarrow> valid (g_bufs s ! i) \<and> b_dev (g_bufs s ! i) = Some d \<and> b_block (g_bufs s ! i) = n"

definition view :: "bcache \<Rightarrow> blockdev \<Rightarrow> nat \<Rightarrow> bytes" where
  "view s d n = (case find (holds s d n) [0..<g_nbufs s] of Some i \<Rightarrow> b_data (g_bufs s ! i) | None \<Rightarrow> dev_block (blk s) d n)"

definition lru_ok :: "bcache \<Rightarrow> bool" where
  "lru_ok s \<longleftrightarrow> distinct (g_lru s) \<and> (\<forall>i \<in> set (g_lru s). i < g_nbufs s \<and> length (b_data (g_bufs s ! i)) = BCACHE_BLOCK_SIZE)"

definition ht_ok :: "bcache \<Rightarrow> bool" where
  "ht_ok s \<longleftrightarrow> 0 < g_ht_cap s \<and> (\<forall>k < g_ht_cap s. distinct (g_ht s ! k) \<and>
     (\<forall>i. i \<in> set (g_ht s ! k) \<longleftrightarrow> i < g_nbufs s \<and> valid (g_bufs s ! i) \<and>
        ht_index s (b_dev (g_bufs s ! i)) (b_block (g_bufs s ! i)) = k))"

definition no_dups :: "bcache \<Rightarrow> bool" where
  "no_dups s \<longleftrightarrow> (\<forall>i < g_nbufs s. \<forall>j < g_nbufs s. \<forall>d n. holds s d n i \<longrightarrow> holds s d n j \<longrightarrow> i = j)"

definition devs_ok :: "blockdev set \<Rightarrow> block_state \<Rightarrow> bool" where
  "devs_ok D st \<longleftrightarrow> block_wf st \<and> (\<forall>d \<in> D. dev_exists st d) \<and>
     (\<forall>d \<in> D. \<forall>e \<in> D. d \<noteq> e \<longrightarrow> dev_sectors st d \<inter> dev_sectors st e = {})"

text \<open>A valid buffer holds a block of a device in use; a clean one equals the device.\<close>

definition buf_ok :: "blockdev set \<Rightarrow> block_state \<Rightarrow> bcache_buf \<Rightarrow> bool" where
  "buf_ok D st b \<longleftrightarrow> (valid b \<longrightarrow> (\<exists>d \<in> D. b_dev b = Some d \<and> b_block b < 2 ^ 61 \<and>
     dev_in_range st d (8 * b_block b) 8 \<and> (dirty b \<or> b_data b = dev_block st d (b_block b))))"

definition bc_inv :: "blockdev set \<Rightarrow> bcache \<Rightarrow> bool" where
  "bc_inv D s \<longleftrightarrow> lru_ok s \<and> ht_ok s \<and> no_dups s \<and> devs_ok D (blk s) \<and>
     (\<forall>i < g_nbufs s. buf_ok D (blk s) (g_bufs s ! i) \<and> (valid (g_bufs s ! i) \<longrightarrow> i \<in> set (g_lru s)))"

lemma find_SomeD: "find P xs = Some x \<Longrightarrow> x \<in> set xs \<and> P x"
  by (auto simp: find_Some_iff)

lemma find_unique:
  assumes "P i" "i \<in> set xs" "\<And>j. j \<in> set xs \<Longrightarrow> P j \<Longrightarrow> j = i"
  shows "find P xs = Some i"
proof (cases "find P xs")
  case None
  then show ?thesis using assms(1,2) by (auto simp: find_None_iff)
next
  case (Some j)
  then have "j \<in> set xs" "P j" by (auto dest: find_SomeD)
  then show ?thesis using Some assms(3) by blast
qed

lemma view_held: "no_dups s \<Longrightarrow> i < g_nbufs s \<Longrightarrow> holds s d n i \<Longrightarrow> view s d n = b_data (g_bufs s ! i)"
proof -
  assume nd: "no_dups s" and i: "i < g_nbufs s" "holds s d n i"
  have "find (holds s d n) [0..<g_nbufs s] = Some i"
  proof (rule find_unique)
    fix j
    assume j: "j \<in> set [0..<g_nbufs s]" "holds s d n j"
    then have "j < g_nbufs s" by simp
    then show "j = i" using nd [unfolded no_dups_def, rule_format, of j i d n] i j(2) by blast
  qed (use i in simp_all)
  then show ?thesis by (simp add: view_def)
qed

lemma view_not_held: "\<not> (\<exists>i < g_nbufs s. holds s d n i) \<Longrightarrow> view s d n = dev_block (blk s) d n"
  by (auto simp: view_def dest!: find_SomeD split: option.split)

lemma upd_buf_simps [simp]:
  "g_ht (upd_buf i f s) = g_ht s" "g_lru (upd_buf i f s) = g_lru s" "g_stats (upd_buf i f s) = g_stats s"
  "bc_ready (upd_buf i f s) = bc_ready s" "dev_addr (upd_buf i f s) = dev_addr s" "blk (upd_buf i f s) = blk s"
  "g_nbufs (upd_buf i f s) = g_nbufs s"
  "j < g_nbufs s \<Longrightarrow> g_bufs (upd_buf i f s) ! j = (if j = i then f (g_bufs s ! i) else g_bufs s ! j)"
  by (simp_all add: upd_buf_def)

lemma upd_buf_upd_buf [simp]: "i < g_nbufs s \<Longrightarrow> upd_buf i f (upd_buf i g s) = upd_buf i (\<lambda>x. f (g x)) s"
  by (simp add: upd_buf_def)

lemma upd_stats_simps [simp]:
  "g_bufs (upd_stats f s) = g_bufs s" "g_ht (upd_stats f s) = g_ht s" "g_lru (upd_stats f s) = g_lru s"
  "bc_ready (upd_stats f s) = bc_ready s" "dev_addr (upd_stats f s) = dev_addr s" "blk (upd_stats f s) = blk s"
  by (simp_all add: upd_stats_def)

lemma upd_stats_commute:
  "upd_buf i g (upd_stats f s) = upd_stats f (upd_buf i g s)" "(upd_stats f s)\<lparr>blk := st\<rparr> = upd_stats f (s\<lparr>blk := st\<rparr>)"
  "lru_touch i (upd_stats f s) = upd_stats f (lru_touch i s)" "ht_insert i (upd_stats f s) = upd_stats f (ht_insert i s)"
  "ht_remove i (upd_stats f s) = upd_stats f (ht_remove i s)"
  by (simp_all add: upd_buf_def upd_stats_def lru_touch_def lru_push_front_def lru_remove_def ht_insert_def
      ht_remove_def ht_index_def Let_def cong: option.case_cong)

lemma lru_touch_simps [simp]:
  "g_bufs (lru_touch i s) = g_bufs s" "g_ht (lru_touch i s) = g_ht s" "g_lru (lru_touch i s) = i # remove1 i (g_lru s)"
  "bc_ready (lru_touch i s) = bc_ready s" "dev_addr (lru_touch i s) = dev_addr s" "blk (lru_touch i s) = blk s"
  by (simp_all add: lru_touch_def lru_push_front_def lru_remove_def)

lemma ht_op_simps [simp]:
  "g_bufs (ht_remove i s) = g_bufs s" "g_lru (ht_remove i s) = g_lru s" "g_ht_cap (ht_remove i s) = g_ht_cap s"
  "bc_ready (ht_remove i s) = bc_ready s" "dev_addr (ht_remove i s) = dev_addr s" "blk (ht_remove i s) = blk s"
  "g_bufs (ht_insert i s) = g_bufs s" "g_lru (ht_insert i s) = g_lru s" "g_ht_cap (ht_insert i s) = g_ht_cap s"
  "bc_ready (ht_insert i s) = bc_ready s" "dev_addr (ht_insert i s) = dev_addr s" "blk (ht_insert i s) = blk s"
  by (simp_all add: ht_remove_def ht_insert_def Let_def)

lemma ht_index_cong: "dev_addr s' = dev_addr s \<Longrightarrow> g_ht_cap s' = g_ht_cap s \<Longrightarrow> ht_index s' = ht_index s"
  by (intro ext) (simp add: ht_index_def cong: option.case_cong)

lemma ht_index_less: "ht_ok s \<Longrightarrow> ht_index s d n < g_ht_cap s"
  by (simp add: ht_ok_def ht_index_def)

lemma view_cong: "g_bufs s' = g_bufs s \<Longrightarrow> blk s' = blk s \<Longrightarrow> view s' = view s"
  by (intro ext) (simp add: view_def holds_def [abs_def] cong: option.case_cong)

lemma ht_ok_cong:
  "g_bufs s' = g_bufs s \<Longrightarrow> g_ht s' = g_ht s \<Longrightarrow> dev_addr s' = dev_addr s \<Longrightarrow> ht_ok s' = ht_ok s"
  using ht_index_cong [of s' s] by (simp add: ht_ok_def)

lemma no_dups_cong: "g_bufs s' = g_bufs s \<Longrightarrow> no_dups s' = no_dups s"
  by (simp add: no_dups_def holds_def)

lemma bc_inv_cong:
  assumes "g_bufs s' = g_bufs s" "g_ht s' = g_ht s" "g_lru s' = g_lru s" "dev_addr s' = dev_addr s" "blk s' = blk s"
  shows "bc_inv D s' = bc_inv D s"
  using assms ht_ok_cong [of s' s] no_dups_cong [of s' s] by (simp add: bc_inv_def lru_ok_def)

lemma bc_inv_stats [simp]: "bc_inv D (upd_stats f s) = bc_inv D s" "view (upd_stats f s) = view s"
  by (rule bc_inv_cong view_cong; simp)+

lemma ht_lookup_iff:
  assumes inv: "bc_inv D s"
  shows "ht_lookup d n s = Some i \<longleftrightarrow> i < g_nbufs s \<and> holds s d n i"
proof -
  let ?k = "ht_index s (Some d) n"
  have ht: "ht_ok s" and nd: "no_dups s" using inv by (simp_all add: bc_inv_def)
  have lk: "ht_lookup d n s = find (holds s d n) (g_ht s ! ?k)"
    using ht by (simp add: ht_lookup_def ht_ok_def holds_def [abs_def] cong: conj_cong)
  have chain: "i \<in> set (g_ht s ! ?k) \<and> holds s d n i \<longleftrightarrow> i < g_nbufs s \<and> holds s d n i" for i
    using ht ht_index_less [OF ht, of "Some d" n] by (auto simp: ht_ok_def holds_def)
  show ?thesis
  proof
    assume "ht_lookup d n s = Some i"
    then show "i < g_nbufs s \<and> holds s d n i" using chain [of i] find_SomeD [of "holds s d n" "g_ht s ! ?k" i] lk by auto
  next
    assume "i < g_nbufs s \<and> holds s d n i"
    then show "ht_lookup d n s = Some i"
      unfolding lk using chain nd [unfolded no_dups_def] by (intro find_unique) blast+
  qed
qed

lemma ht_lookup_None: "bc_inv D s \<Longrightarrow> ht_lookup d n s = None \<longleftrightarrow> \<not> (\<exists>i < g_nbufs s. holds s d n i)"
  using ht_lookup_iff [of D s d n] by (metis not_None_eq)

section \<open>What each step keeps\<close>

text \<open>\<open>silent D s s'\<close>: the step keeps the invariant, every block's contents and every reference count.\<close>

definition refs :: "bcache \<Rightarrow> nat list" where
  "refs s = map refcnt (g_bufs s)"

definition silent :: "blockdev set \<Rightarrow> bcache \<Rightarrow> bcache \<Rightarrow> bool" where
  "silent D s s' \<longleftrightarrow> bc_inv D s' \<and> (\<forall>d \<in> D. \<forall>n. view s' d n = view s d n) \<and> refs s' = refs s \<and>
     bc_ready s' = bc_ready s \<and> same_devices (blk s) (blk s')"

lemma silent_refl: "bc_inv D s \<Longrightarrow> silent D s s"
  by (simp add: silent_def)

lemma silent_trans: "silent D a b \<Longrightarrow> silent D b c \<Longrightarrow> silent D a c"
  by (auto simp: silent_def intro: same_devices_trans)

lemma silent_inv: "silent D s s' \<Longrightarrow> bc_inv D s'"
  by (simp add: silent_def)

lemma silent_nbufs: "silent D s s' \<Longrightarrow> g_nbufs s' = g_nbufs s"
  unfolding silent_def refs_def by (metis length_map)

lemma silent_stats: "silent D s s' \<Longrightarrow> silent D s (upd_stats f s')"
  by (simp add: silent_def refs_def)

lemma silent_touch:
  assumes "bc_inv D s" "i \<in> set (g_lru s)"
  shows "silent D s (lru_touch i s)"
proof -
  have "set (i # remove1 i (g_lru s)) = set (g_lru s)" "distinct (i # remove1 i (g_lru s))"
    using assms by (auto simp: bc_inv_def lru_ok_def)
  then show ?thesis
    using assms ht_ok_cong [of "lru_touch i s" s] no_dups_cong [of "lru_touch i s" s] view_cong [of "lru_touch i s" s]
    by (auto simp: silent_def bc_inv_def lru_ok_def refs_def)
qed

lemma devs_ok_same:
  assumes "devs_ok D st" "same_devices st st'" "block_wf st'"
  shows "devs_ok D st'"
proof -
  have "dev_ok st d" if "d \<in> D" for d using assms(1) that by (simp add: devs_ok_def dev_ok_def)
  note loc = dev_ok_location [OF this assms(2)]
  show ?thesis using assms(1,3) loc(3,4) by (simp add: devs_ok_def)
qed

lemma devs_okD: "devs_ok D st \<Longrightarrow> d \<in> D \<Longrightarrow> dev_ok st d"
  by (simp add: devs_ok_def dev_ok_def)

lemma inv_dev_ok: "bc_inv D s \<Longrightarrow> d \<in> D \<Longrightarrow> dev_ok (blk s) d"
  by (auto simp: bc_inv_def intro: devs_okD)

lemma inv_valid:
  assumes "bc_inv D s" "i < g_nbufs s" "valid (g_bufs s ! i)"
  obtains d where "d \<in> D" "dev_ok (blk s) d" "holds s d (b_block (g_bufs s ! i)) i" "b_block (g_bufs s ! i) < 2 ^ 61"
    "dev_in_range (blk s) d (8 * b_block (g_bufs s ! i)) 8" "i \<in> set (g_lru s)" "length (b_data (g_bufs s ! i)) = BCACHE_BLOCK_SIZE"
    "dirty (g_bufs s ! i) \<or> b_data (g_bufs s ! i) = dev_block (blk s) d (b_block (g_bufs s ! i))"
proof -
  have "buf_ok D (blk s) (g_bufs s ! i)" "i \<in> set (g_lru s)" "lru_ok s" "devs_ok D (blk s)"
    using assms by (auto simp: bc_inv_def)
  then show thesis using that assms(3) devs_okD [of D "blk s"] by (auto simp: buf_ok_def holds_def lru_ok_def)
qed

lemma view_length:
  assumes "bc_inv D s" "d \<in> D" "dev_in_range (blk s) d (8 * n) 8"
  shows "length (view s d n) = BCACHE_BLOCK_SIZE"
proof (cases "\<exists>i < g_nbufs s. holds s d n i")
  case True
  then obtain i where i: "i < g_nbufs s" "holds s d n i" by blast
  then show ?thesis using inv_valid [OF assms(1) i(1)] view_held [of s i d n] assms(1)
    by (auto simp: holds_def bc_inv_def)
next
  case False
  then show ?thesis using view_not_held [OF False] length_dev_block [OF inv_dev_ok [OF assms(1,2)] assms(3)] by simp
qed

text \<open>The device changes only under dirty buffers.\<close>

lemma silent_blk:
  assumes inv: "bc_inv D s" and same: "same_devices (blk s) st" and wf: "block_wf st"
    and ch: "\<And>d n. d \<in> D \<Longrightarrow> dev_block st d n = dev_block (blk s) d n \<or> (\<exists>i < g_nbufs s. holds s d n i \<and> dirty (g_bufs s ! i))"
  shows "silent D s (s\<lparr>blk := st\<rparr>)"
proof -
  let ?t = "s\<lparr>blk := st\<rparr>"
  have h: "holds ?t = holds s" by (simp add: holds_def [abs_def])
  have parts: "lru_ok s" "ht_ok s" "no_dups s" "devs_ok D (blk s)" using inv by (simp_all add: bc_inv_def)
  have b: "buf_ok D st (g_bufs s ! i)" if i: "i < g_nbufs s" for i
  proof (cases "valid (g_bufs s ! i)")
    case True
    let ?n = "b_block (g_bufs s ! i)"
    obtain d where d: "d \<in> D" "dev_ok (blk s) d" "holds s d ?n i" "?n < 2 ^ 61" "dev_in_range (blk s) d (8 * ?n) 8"
      "dirty (g_bufs s ! i) \<or> b_data (g_bufs s ! i) = dev_block (blk s) d ?n"
      using inv_valid [OF inv i True] by metis
    have "dirty (g_bufs s ! i) \<or> dev_block st d ?n = dev_block (blk s) d ?n"
      using ch [OF d(1), of ?n] parts(3) i d(3) unfolding no_dups_def by blast
    then show ?thesis using d dev_ok_location(2) [OF d(2) same] by (auto simp: buf_ok_def holds_def)
  qed (simp add: buf_ok_def)
  have v: "view ?t d n = view s d n" if d: "d \<in> D" for d n
  proof (cases "\<exists>i < g_nbufs s. holds s d n i")
    case True
    then obtain i where i: "i < g_nbufs s" "holds s d n i" by blast
    have "no_dups ?t" using parts(3) no_dups_cong [of ?t s] by simp
    then show ?thesis using view_held [of ?t i d n] view_held [OF parts(3) i] i h by simp
  next
    case False
    then show ?thesis using ch [OF d, of n] view_not_held [OF False] view_not_held [of ?t d n] h by auto
  qed
  have "bc_inv D ?t"
    using inv b devs_ok_same [OF parts(4) same wf] parts ht_ok_cong [of ?t s] no_dups_cong [of ?t s]
    by (simp add: bc_inv_def lru_ok_def)
  then show ?thesis using v same by (simp add: silent_def refs_def)
qed

text \<open>A buffer changes but for its key, its validity and its size.\<close>

definition keeps_key :: "(bcache_buf \<Rightarrow> bcache_buf) \<Rightarrow> bcache_buf \<Rightarrow> bool" where
  "keeps_key f x \<longleftrightarrow> b_dev (f x) = b_dev x \<and> b_block (f x) = b_block x \<and> valid (f x) = valid x \<and>
     length (b_data (f x)) = length (b_data x)"

lemma upd_keep:
  assumes "keeps_key f (g_bufs s ! i)" "i < g_nbufs s"
  shows "j < g_nbufs s \<Longrightarrow> holds (upd_buf i f s) d n j = holds s d n j" "ht_ok (upd_buf i f s) = ht_ok s"
    "no_dups (upd_buf i f s) = no_dups s" "lru_ok (upd_buf i f s) = lru_ok s"
proof -
  show h: "holds (upd_buf i f s) d n j = holds s d n j" if "j < g_nbufs s" for d n j
    using assms that by (auto simp: holds_def keeps_key_def)
  show "no_dups (upd_buf i f s) = no_dups s" using h by (simp add: no_dups_def)
  have "ht_index (upd_buf i f s) = ht_index s" by (rule ht_index_cong) simp_all
  moreover have "valid (g_bufs (upd_buf i f s) ! j) = valid (g_bufs s ! j)" "b_dev (g_bufs (upd_buf i f s) ! j) = b_dev (g_bufs s ! j)"
    "b_block (g_bufs (upd_buf i f s) ! j) = b_block (g_bufs s ! j)"
    "length (b_data (g_bufs (upd_buf i f s) ! j)) = length (b_data (g_bufs s ! j))" if "j < g_nbufs s" for j
    using assms that by (auto simp: keeps_key_def)
  ultimately show "ht_ok (upd_buf i f s) = ht_ok s" "lru_ok (upd_buf i f s) = lru_ok s"
    by (auto simp: ht_ok_def lru_ok_def)
qed

lemma upd_keep_inv:
  assumes "bc_inv D s" "keeps_key f (g_bufs s ! i)" "i < g_nbufs s" "buf_ok D (blk s) (f (g_bufs s ! i))"
  shows "bc_inv D (upd_buf i f s)"
  using assms upd_keep(2-4) [OF assms(2,3)] by (auto simp: bc_inv_def keeps_key_def)

lemma upd_keep_view:
  assumes "bc_inv D s" "keeps_key f (g_bufs s ! i)" "i < g_nbufs s"
  shows "view (upd_buf i f s) d n = (if holds s d n i then b_data (f (g_bufs s ! i)) else view s d n)"
proof (cases "\<exists>j < g_nbufs s. holds s d n j")
  case True
  then obtain j where j: "j < g_nbufs s" "holds s d n j" by blast
  have nd: "no_dups s" "no_dups (upd_buf i f s)" using assms(1) upd_keep(3) [OF assms(2,3)] by (simp_all add: bc_inv_def)
  have hi: "holds s d n i \<longleftrightarrow> j = i" using nd(1) j assms(3) unfolding no_dups_def by blast
  show ?thesis
    using view_held [OF nd(1) j] view_held [OF nd(2), of j d n] j upd_keep(1) [OF assms(2,3) j(1), of d n] hi assms(3) by simp
next
  case False
  then show ?thesis using view_not_held [OF False] view_not_held [of "upd_buf i f s" d n] upd_keep(1) [OF assms(2,3)] assms(3)
    by auto
qed

lemma refs_upd: "i < g_nbufs s \<Longrightarrow> refs (upd_buf i f s) = (refs s)[i := refcnt (f (g_bufs s ! i))]"
  by (simp add: refs_def upd_buf_def map_update)

lemma refs_upd_same: "i < g_nbufs s \<Longrightarrow> refcnt (f (g_bufs s ! i)) = refcnt (g_bufs s ! i) \<Longrightarrow> refs (upd_buf i f s) = refs s"
  by (simp add: refs_upd list_eq_iff_nth_eq nth_list_update refs_def)

lemma silent_upd:
  assumes "bc_inv D s" "keeps_key f (g_bufs s ! i)" "i < g_nbufs s" "buf_ok D (blk s) (f (g_bufs s ! i))"
    "b_data (f (g_bufs s ! i)) = b_data (g_bufs s ! i)" "refcnt (f (g_bufs s ! i)) = refcnt (g_bufs s ! i)"
  shows "silent D s (upd_buf i f s)"
proof -
  have "no_dups s" using assms(1) by (simp add: bc_inv_def)
  then have "view (upd_buf i f s) d n = view s d n" for d n
    using upd_keep_view [OF assms(1-3), of d n] view_held [of s i d n] assms(3,5) by simp
  then show ?thesis
    using upd_keep_inv [OF assms(1-4)] refs_upd_same [OF assms(3), of f] assms(6) by (simp add: silent_def)
qed

section \<open>Transfers of one block\<close>

lemma disk_read_length:
  assumes "\<And>be i l. length (hw_media (hw st) be i l) = SECTOR" "SECTOR * count \<le> length buf"
    "disk_read i lba count buf st = (ok, buf', st')"
  shows "length buf' = length buf"
proof -
  have "length (read_sectors (hw_media (hw st) be i) lba n) = SECTOR * n" for be i n
    using assms(1) by (simp add: length_read_sectors)
  moreover have "snd (transfer count (hw st)) \<le> count" by (simp add: transfer_def split: option.split)
  ultimately have "length (fst (snd (backend_read be i lba count buf (hw st)))) = length buf" for be i
    using assms(2) by (simp add: backend_read_def Let_def case_prod_unfold)
  then show ?thesis
    using assms(3) by (auto simp: disk_read_def Let_def case_prod_unfold split: if_splits)
qed

lemma dev_read_length:
  assumes "block_wf st" "dev_read d lba count buf st = (ok, buf', st')" "SECTOR * count \<le> length buf"
  shows "length buf' = length buf"
proof (cases d)
  case (DiskDev i)
  then show ?thesis using disk_read_length [of st count buf i lba ok buf' st'] assms by (simp add: block_wf_def)
next
  case (PartDev i)
  let ?p = "snd (g_parts st ! i)"
  let ?s = "set_part_present i (disk_present (parent ?p) (sync_disk_presence (parent ?p) st)) (sync_disk_presence (parent ?p) st)"
  have "buf' = buf \<or> disk_read (parent ?p) ((lba_start ?p + lba) mod 2 ^ 64) count buf ?s = (ok, buf', st')"
    using PartDev assms(2) by (auto simp: part_read_def Let_def split: if_splits)
  then show ?thesis using disk_read_length [of ?s count buf] assms(1,3) by (auto simp: block_wf_def)
qed

lemma dev_flush_spec:
  assumes "dev_flush d st = (ok, st')"
  shows "same_devices st st' \<and> hw_media (hw st') = hw_media (hw st)"
proof -
  have disk: "same_devices st st' \<and> hw_media (hw st') = hw_media (hw st)" if "disk_flush i st = (ok, st')" for i st
    using that sync_disk_presence_same [of st i]
    by (auto simp: disk_flush_def backend_flush_def tick_def Let_def case_prod_unfold same_devices_def split: if_splits)
  show ?thesis
  proof (cases d)
    case (DiskDev i)
    then show ?thesis using disk assms by simp
  next
    case (PartDev i)
    let ?p = "snd (g_parts st ! i)"
    let ?s = "set_part_present i (disk_present (parent ?p) (sync_disk_presence (parent ?p) st)) (sync_disk_presence (parent ?p) st)"
    have "st' = st \<or> i < length (g_parts st) \<and> (st' = ?s \<or> disk_flush (parent ?p) ?s = (ok, st'))"
      using PartDev assms by (auto simp: part_flush_def Let_def split: if_splits)
    moreover have "same_devices st ?s" if "i < length (g_parts st)"
      by (rule same_devices_trans [OF sync_disk_presence_same set_part_present_same]) (use that in simp)
    ultimately show ?thesis using disk [of "parent ?p" ?s] same_devices_trans [of st ?s st'] by auto
  qed
qed

lemma sector_size_ok: "dev_ok st d \<Longrightarrow> sector_size_ok d st"
  by (cases d) (auto simp: dev_ok_def block_wf_def sector_size_ok_def disk_ok_def part_ok_def)

lemma block_lba: "n < 2 ^ 61 \<Longrightarrow> n * BCACHE_SECTORS_PER_BLOCK mod 2 ^ 64 = 8 * n"
  by simp

lemma dev_block_same:
  assumes "dev_ok st d" "same_devices st st'" "hw_media (hw st') = hw_media (hw st)"
  shows "dev_block st' d n = dev_block st d n"
  using assms(3) dev_ok_location [OF assms(1,2)] by (simp add: dev_block_def dev_media_def [abs_def])

lemma dev_read_block_spec:
  assumes d: "dev_ok st d" and n: "n < 2 ^ 61" and len: "length buf = BCACHE_BLOCK_SIZE"
    and rd: "dev_read_block d n buf st = (ok, buf', st')"
  shows "same_devices st st' \<and> block_wf st' \<and> length buf' = BCACHE_BLOCK_SIZE \<and>
    (\<forall>e m. dev_ok st e \<longrightarrow> dev_block st' e m = dev_block st e m) \<and>
    (ok \<longrightarrow> dev_in_range st d (8 * n) 8 \<and> buf' = dev_block st d n)"
proof -
  have r: "dev_read d (8 * n) 8 buf st = (ok, buf', st')"
    using rd sector_size_ok [OF d] block_lba [OF n] by (simp add: dev_read_block_def)
  have wf: "block_wf st" "dev_exists st d" using d by (simp_all add: dev_ok_def)
  have media: "length (dev_media st d l) = SECTOR" for l
    using wf(1) by (simp add: dev_media_def block_wf_def split: prod.split)
  then have l: "length (read_sectors (dev_media st d) (8 * n) 8) = BCACHE_BLOCK_SIZE" by (simp add: length_read_sectors)
  note spec = dev_read_spec [OF wf r]
  have l': "length buf' = BCACHE_BLOCK_SIZE" using dev_read_length [OF wf(1) r] len by simp
  have "splice 0 (read_sectors (dev_media st d) (8 * n) 8) buf = read_sectors (dev_media st d) (8 * n) 8"
    using l len by (simp add: splice_def)
  then have "ok \<longrightarrow> dev_in_range st d (8 * n) 8 \<and> buf' = dev_block st d n" using spec by (simp add: dev_block_def)
  moreover have "\<forall>e m. dev_ok st e \<longrightarrow> dev_block st' e m = dev_block st e m" using spec dev_block_same by blast
  ultimately show ?thesis using spec dev_read_wf [OF d r] l' by blast
qed

lemma dev_write_block_spec:
  assumes d: "dev_ok st d" and n: "n < 2 ^ 61" and len: "length buf = BCACHE_BLOCK_SIZE"
    and rng: "dev_in_range st d (8 * n) 8" and wr: "dev_write_block d n buf st = (ok, st')"
  shows "same_devices st st' \<and> block_wf st' \<and> (ok \<longrightarrow> dev_block st' d n = buf) \<and>
    (\<forall>m. m \<noteq> n \<longrightarrow> dev_block st' d m = dev_block st d m) \<and>
    (\<forall>e m. dev_ok st e \<longrightarrow> dev_sectors st d \<inter> dev_sectors st e = {} \<longrightarrow> dev_block st' e m = dev_block st e m)"
proof -
  have w: "dev_write d (8 * n) 8 buf st = (ok, st')"
    using wr sector_size_ok [OF d] block_lba [OF n] by (simp add: dev_write_block_def)
  have wf: "block_wf st" "dev_exists st d" using d by (simp_all add: dev_ok_def)
  obtain k where k: "same_devices st st'" "k \<le> 8" "ok \<Longrightarrow> k = 8" "wrote st d (8 * n) k buf st'"
    using dev_write_spec [OF wf w] by auto
  have "dev_in_range st d (8 * n) k" using rng k(2) by (cases d) auto
  moreover have "block_wf st'" using wrote_wf [OF wf(1) k(1,4)] len k(2) by simp
  moreover have "ok \<Longrightarrow> dev_block st' d n = buf"
    using wrote_block_same [OF d k(1) _ len rng] k(3,4) by simp
  ultimately show ?thesis
    using k(1) wrote_block_other [OF d k(1,4,2)] wrote_other_device [OF d _ k(1,4)] by blast
qed

text \<open>Writing back keeps the view even when the transfer breaks off: the buffer stays dirty.\<close>

lemma writeback_one_spec:
  assumes inv: "bc_inv D s" and i: "i < g_nbufs s" and wb: "writeback_one i s = (ok, s')"
  shows "silent D s s' \<and> (\<forall>j < g_nbufs s. g_bufs s' ! j = (if ok \<and> j = i \<and> valid (g_bufs s ! i)
      then (g_bufs s ! j)\<lparr>dirty := False\<rparr> else g_bufs s ! j)) \<and> g_lru s' = g_lru s"
proof (cases "valid (g_bufs s ! i) \<and> dirty (g_bufs s ! i)")
  case False
  then have "ok" "s' = s" using wb by (auto simp: writeback_one_def split: if_splits)
  then show ?thesis using silent_refl [OF inv] False by auto
next
  case True
  let ?b = "g_bufs s ! i"
  let ?n = "b_block ?b"
  obtain d where d: "d \<in> D" "dev_ok (blk s) d" "holds s d ?n i" "?n < 2 ^ 61" "dev_in_range (blk s) d (8 * ?n) 8"
    "length (b_data ?b) = BCACHE_BLOCK_SIZE"
    using inv_valid [OF inv i] True by metis
  obtain w st where dw: "dev_write_block d ?n (b_data ?b) (blk s) = (w, st)" by fastforce
  note wr = dev_write_block_spec [OF d(2,4,6,5) dw]
  have dis: "dev_sectors (blk s) d \<inter> dev_sectors (blk s) e = {}" if "e \<in> D" "e \<noteq> d" for e
    using inv d(1) that by (auto simp: bc_inv_def devs_ok_def)
  have "dev_block st e m = dev_block (blk s) e m \<or> (\<exists>i < g_nbufs s. holds s e m i \<and> dirty (g_bufs s ! i))" if e: "e \<in> D" for e m
    using wr dis [OF e] inv_dev_ok [OF inv e] True i d(3) by metis
  then have sil: "silent D s (s\<lparr>blk := st\<rparr>)" using wr by (intro silent_blk [OF inv]) blast+
  show ?thesis
  proof (cases w)
    case False
    then have "s' = s\<lparr>blk := st\<rparr>" "\<not> ok" using wb True d(3) dw by (auto simp: writeback_one_def holds_def)
    then show ?thesis using sil by simp
  next
    case w: True
    let ?t = "upd_buf i (\<lambda>x. x\<lparr>dirty := False\<rparr>) (s\<lparr>blk := st\<rparr>)"
    have s': "s' = upd_stats (\<lambda>t. t\<lparr>dirty_bufs := dirty_bufs t - 1, writebacks := writebacks t + 1\<rparr>) ?t" "ok"
      using wb True d(3) dw w by (auto simp: writeback_one_def holds_def)
    have "buf_ok D st (?b\<lparr>dirty := False\<rparr>)"
      using d dev_ok_location(2) [OF d(2), of st] wr w by (auto simp: buf_ok_def holds_def)
    then have "silent D (s\<lparr>blk := st\<rparr>) ?t"
      by (intro silent_upd [OF silent_inv [OF sil]]) (use i in \<open>auto simp: keeps_key_def\<close>)
    then have "silent D s s'" unfolding s'(1) by (intro silent_stats silent_trans [OF sil])
    then show ?thesis using s' i True by simp
  qed
qed

text \<open>A clean buffer may be dropped; an invalid one may be filled.\<close>

lemma silent_drop:
  assumes inv: "bc_inv D s" and i: "i < g_nbufs s" and v: "valid (g_bufs s ! i)" "\<not> dirty (g_bufs s ! i)"
  shows "silent D s (upd_buf i (\<lambda>x. x\<lparr>valid := False\<rparr>) (ht_remove i s))"
proof -
  let ?t = "upd_buf i (\<lambda>x. x\<lparr>valid := False\<rparr>) (ht_remove i s)"
  let ?k = "ht_index s (b_dev (g_bufs s ! i)) (b_block (g_bufs s ! i))"
  have parts: "lru_ok s" "ht_ok s" "no_dups s" using inv by (simp_all add: bc_inv_def)
  have h: "holds ?t d n j \<longleftrightarrow> holds s d n j \<and> j \<noteq> i" if "j < g_nbufs s" for d n j
    using that i by (auto simp: holds_def)
  have nd: "no_dups ?t" using parts(3) h unfolding no_dups_def by (simp, blast)
  have ix: "ht_index ?t = ht_index s" by (rule ht_index_cong) simp_all
  have k: "?k < g_ht_cap s" by (rule ht_index_less [OF parts(2)])
  have ht: "g_ht ?t = (g_ht s)[?k := remove1 i (g_ht s ! ?k)]"
    using parts(2) by (auto simp: ht_remove_def ht_ok_def Let_def)
  have "ht_ok ?t"
    using parts(2) k i unfolding ht_ok_def ix ht by (auto simp: nth_list_update split: if_splits)
  moreover have "lru_ok ?t" using parts(1) by (auto simp: lru_ok_def)
  ultimately have inv': "bc_inv D ?t" using inv nd i by (auto simp: bc_inv_def buf_ok_def)
  have "view ?t d n = view s d n" for d n
  proof (cases "holds s d n i")
    case True
    have "\<not> (\<exists>j < g_nbufs ?t. holds ?t d n j)" using True h parts(3) i by (auto simp: no_dups_def)
    then have "view ?t d n = dev_block (blk s) d n" using view_not_held [of ?t d n] by simp
    moreover have "b_data (g_bufs s ! i) = dev_block (blk s) d n"
      using inv_valid [OF inv i v(1)] v(2) True by (auto simp: holds_def)
    ultimately show ?thesis using view_held [OF parts(3) i True] by simp
  next
    case False
    have "find (holds ?t d n) [0..<g_nbufs s] = find (holds s d n) [0..<g_nbufs s]"
      by (rule find_cong) (use h False in auto)
    then show ?thesis using False by (auto simp: view_def i dest!: find_SomeD split: option.split)
  qed
  then show ?thesis using inv' i refs_upd_same [of i "ht_remove i s"] by (simp add: silent_def refs_def)
qed

lemma silent_invalid:
  assumes inv: "bc_inv D s" and i: "i < g_nbufs s" and v: "\<not> valid (g_bufs s ! i)" "\<not> valid (f (g_bufs s ! i))"
    and len: "length (b_data (f (g_bufs s ! i))) = length (b_data (g_bufs s ! i))"
    and r: "refcnt (f (g_bufs s ! i)) = refcnt (g_bufs s ! i)"
  shows "silent D s (upd_buf i f s)"
proof -
  let ?t = "upd_buf i f s"
  have h: "holds ?t d n j = holds s d n j" if "j < g_nbufs s" for d n j using that i v by (auto simp: holds_def)
  have ix: "ht_index ?t = ht_index s" by (rule ht_index_cong) simp_all
  have "ht_ok ?t" using inv v i unfolding bc_inv_def ht_ok_def ix by (auto split: if_splits)
  moreover have "no_dups ?t" using inv h by (simp add: bc_inv_def no_dups_def)
  moreover have "lru_ok ?t" using inv i len by (auto simp: bc_inv_def lru_ok_def)
  ultimately have inv': "bc_inv D ?t" using inv i v by (auto simp: bc_inv_def buf_ok_def)
  have "view ?t d n = view s d n" for d n
  proof -
    have "find (holds ?t d n) [0..<g_nbufs s] = find (holds s d n) [0..<g_nbufs s]"
      by (rule find_cong) (use h in auto)
    then show ?thesis using v i by (auto simp: view_def holds_def dest!: find_SomeD split: option.split)
  qed
  then show ?thesis using inv' refs_upd_same [OF i, of f] r by (simp add: silent_def)
qed

lemma fill_spec:
  assumes inv: "bc_inv D s" and i: "i \<in> set (g_lru s)" "\<not> valid (g_bufs s ! i)" and d: "d \<in> D" "n < 2 ^ 61"
    and rng: "dev_in_range (blk s) d (8 * n) 8" and free: "\<not> (\<exists>j < g_nbufs s. holds s d n j)"
    and f: "b_dev (f (g_bufs s ! i)) = Some d" "b_block (f (g_bufs s ! i)) = n" "valid (f (g_bufs s ! i))"
      "\<not> dirty (f (g_bufs s ! i))" "b_data (f (g_bufs s ! i)) = dev_block (blk s) d n"
  defines "t \<equiv> ht_insert i (upd_buf i f s)"
  shows "bc_inv D t" "view t = view s" "holds t d n i"
proof -
  have parts: "lru_ok s" "ht_ok s" "no_dups s" using inv by (simp_all add: bc_inv_def)
  have il: "i < g_nbufs s" using i(1) parts(1) by (simp add: lru_ok_def)
  have h: "holds t e m j \<longleftrightarrow> (if j = i then e = d \<and> m = n else holds s e m j)" if "j < g_nbufs s" for e m j
    using that f il by (auto simp: holds_def t_def)
  show hi: "holds t d n i" using h [OF il] by simp
  have nbufs: "g_nbufs t = g_nbufs s" by (simp add: t_def)
  have nd: "no_dups t" unfolding no_dups_def nbufs using parts(3) h free unfolding no_dups_def by (metis (full_types))
  have ix: "ht_index t = ht_index s" "ht_index (upd_buf i f s) = ht_index s" by (rule ht_index_cong; simp add: t_def)+
  let ?k = "ht_index s (Some d) n"
  have k: "?k < g_ht_cap s" by (rule ht_index_less [OF parts(2)])
  have ht: "g_ht t = (g_ht s)[?k := i # g_ht s ! ?k]"
    using parts(2) il f by (auto simp: t_def ht_insert_def ht_ok_def Let_def ix)
  have bt: "g_bufs t ! j = (if j = i then f (g_bufs s ! i) else g_bufs s ! j)" if "j < g_nbufs s" for j
    using that by (simp add: t_def)
  have chain: "j \<in> set (g_ht s ! m) \<longleftrightarrow> j < g_nbufs s \<and> valid (g_bufs s ! j) \<and> ht_index s (b_dev (g_bufs s ! j)) (b_block (g_bufs s ! j)) = m"
    "distinct (g_ht s ! m)" if "m < g_ht_cap s" for j m
    using parts(2) that by (simp_all add: ht_ok_def)
  have "ht_ok t"
    unfolding ht_ok_def ix ht nbufs using chain i(2) il f k bt by (auto simp: nth_list_update split: if_splits)
  moreover have "lru_ok t" using parts(1) f length_dev_block [OF inv_dev_ok [OF inv d(1)] rng] by (auto simp: lru_ok_def t_def)
  moreover have "buf_ok D (blk s) (f (g_bufs s ! i))" using f d rng by (auto simp: buf_ok_def)
  ultimately show "bc_inv D t" using inv nd i(1) by (auto simp: bc_inv_def t_def)
  show "view t = view s"
  proof (intro ext)
    fix e m
    show "view t e m = view s e m"
    proof (cases "e = d \<and> m = n")
      case True
      then show ?thesis using view_held [OF nd, of i d n] view_not_held [OF free] hi il f(5) nbufs bt by simp
    next
      case False
      then have "find (holds t e m) [0..<g_nbufs s] = find (holds s e m) [0..<g_nbufs s]"
        by (intro find_cong) (use h i(2) in \<open>auto simp: holds_def\<close>)
      then show ?thesis using i(2) bt nbufs
        by (auto simp: view_def holds_def t_def il dest!: find_SomeD split: option.split)
    qed
  qed
qed

section \<open>Fetching and releasing\<close>

lemma set_refcnt:
  assumes "bc_inv D s" "i < g_nbufs s"
  shows "bc_inv D (upd_buf i (\<lambda>x. x\<lparr>refcnt := g x\<rparr>) s)" "view (upd_buf i (\<lambda>x. x\<lparr>refcnt := g x\<rparr>) s) = view s"
proof -
  let ?f = "\<lambda>x. x\<lparr>refcnt := g x\<rparr>"
  have k: "keeps_key ?f (g_bufs s ! i)" by (simp add: keeps_key_def)
  have "buf_ok D (blk s) (g_bufs s ! i)" "no_dups s" using assms by (auto simp: bc_inv_def)
  then show "bc_inv D (upd_buf i ?f s)" using upd_keep_inv [OF assms(1) k assms(2)] by (auto simp: buf_ok_def)
  show "view (upd_buf i ?f s) = view s"
    using upd_keep_view [OF assms(1) k assms(2)] view_held [OF \<open>no_dups s\<close> assms(2)] by (auto simp: fun_eq_iff)
qed

text \<open>\<open>got D s d n r s'\<close>: what \<open>bcache_get\<close> promises. A buffer that was pinned is the same but for its
  reference count.\<close>

definition unpin :: "bcache_buf \<Rightarrow> bcache_buf" where
  "unpin b = b\<lparr>refcnt := 0\<rparr>"

definition got :: "blockdev set \<Rightarrow> bcache \<Rightarrow> blockdev \<Rightarrow> nat \<Rightarrow> nat option \<Rightarrow> bcache \<Rightarrow> bool" where
  "got D s d n r s' \<longleftrightarrow> bc_inv D s' \<and> (\<forall>e \<in> D. \<forall>m. view s' e m = view s e m) \<and> bc_ready s' = bc_ready s \<and>
     same_devices (blk s) (blk s') \<and> (\<forall>j < g_nbufs s. 0 < refcnt (g_bufs s ! j) \<longrightarrow> unpin (g_bufs s' ! j) = unpin (g_bufs s ! j)) \<and>
     (case r of None \<Rightarrow> refs s' = refs s
      | Some i \<Rightarrow> i < g_nbufs s \<and> holds s' d n i \<and> refs s' = (refs s)[i := (refs s ! i + 1) mod 2 ^ 32])"

lemma got_silent:
  "silent D s s' \<Longrightarrow> (\<And>j. j < g_nbufs s \<Longrightarrow> 0 < refcnt (g_bufs s ! j) \<Longrightarrow> g_bufs s' ! j = g_bufs s ! j) \<Longrightarrow> got D s d n None s'"
  by (simp add: got_def silent_def)

lemma got_after:
  assumes sil: "silent D s s1" and got: "got D s1 d n r s2"
    and pin: "\<And>j. j < g_nbufs s \<Longrightarrow> 0 < refcnt (g_bufs s ! j) \<Longrightarrow> g_bufs s1 ! j = g_bufs s ! j"
  shows "got D s d n r s2"
proof -
  have "g_nbufs s1 = g_nbufs s" "refs s1 = refs s" using sil silent_nbufs [OF sil] by (simp_all add: silent_def)
  then show ?thesis
    using sil got pin same_devices_trans [of "blk s" "blk s1" "blk s2"] by (auto simp: got_def silent_def split: option.splits)
qed

lemma got_stats: "got D s d n r s' \<Longrightarrow> got D s d n r (upd_stats f s')"
  by (simp add: got_def refs_def holds_def split: option.splits)

lemma pin_spec:
  assumes "bc_inv D s" "i < g_nbufs s" "holds s d n i" "\<And>x. g x = (refcnt x + 1) mod 2 ^ 32"
  shows "got D s d n (Some i) (lru_touch i (upd_buf i (\<lambda>x. x\<lparr>refcnt := g x\<rparr>) s))"
proof -
  let ?t = "upd_buf i (\<lambda>x. x\<lparr>refcnt := g x\<rparr>) s"
  have "i \<in> set (g_lru ?t)" using assms inv_valid [OF assms(1,2)] by (auto simp: holds_def)
  note touch = silent_touch [OF set_refcnt(1) [OF assms(1,2)] this]
  have "refs (lru_touch i ?t) = (refs s)[i := (refs s ! i + 1) mod 2 ^ 32]"
    using refs_upd [OF assms(2)] assms(2,4) by (simp add: refs_def)
  then show ?thesis
    using touch set_refcnt [OF assms(1,2), of g] assms(2,3) by (auto simp: got_def silent_def holds_def unpin_def)
qed

lemma upd_buf_blk: "(upd_buf i f s)\<lparr>blk := st\<rparr> = upd_buf i f (s\<lparr>blk := st\<rparr>)"
  by (simp add: upd_buf_def)

lemma bcache_fill_spec:
  assumes inv: "bc_inv D s" and v: "v \<in> set (g_lru s)" "\<not> valid (g_bufs s ! v)" "refcnt (g_bufs s ! v) = 0"
    and d: "d \<in> D" "n < 2 ^ 61" and free: "\<not> (\<exists>j < g_nbufs s. holds s d n j)"
    and fl: "bcache_fill d n v s = (r, s')"
  shows "got D s d n r s'"
proof -
  have il: "v < g_nbufs s" "length (b_data (g_bufs s ! v)) = BCACHE_BLOCK_SIZE"
    using inv v(1) by (auto simp: bc_inv_def lru_ok_def)
  obtain rok buf st where rd: "dev_read_block d n (b_data (g_bufs s ! v)) (blk s) = (rok, buf, st)"
    by (cases "dev_read_block d n (b_data (g_bufs s ! v)) (blk s)") auto
  have ok: "dev_ok (blk s) d" by (rule inv_dev_ok [OF inv d(1)])
  note spec = dev_read_block_spec [OF ok d(2) il(2) rd]
  let ?s = "s\<lparr>blk := st\<rparr>"
  have sil: "silent D s ?s" using spec inv_dev_ok [OF inv] by (intro silent_blk [OF inv]) blast+
  define f where "f = (\<lambda>x :: bcache_buf. x\<lparr>b_dev := Some d, b_block := n, valid := True, dirty := False, b_data := buf\<rparr>)"
  show ?thesis
  proof (cases rok)
    case False
    define g where "g = (\<lambda>x. (f x)\<lparr>valid := False, b_dev := None, b_block := 0\<rparr>)"
    have r: "r = None" "s' = upd_buf v g ?s"
      using fl False rd il unfolding bcache_fill_def Let_def by (auto simp: upd_buf_blk f_def g_def)
    have "silent D ?s (upd_buf v g ?s)"
      by (rule silent_invalid [OF silent_inv [OF sil]]) (use v il spec in \<open>auto simp: g_def f_def\<close>)
    then show ?thesis unfolding r using v(3) silent_trans [OF sil] by (intro got_silent) auto
  next
    case True
    let ?t = "ht_insert v (upd_buf v f ?s)"
    have r: "r = Some v" and s': "\<exists>h. s' = upd_stats h (lru_touch v (upd_buf v (\<lambda>x. x\<lparr>refcnt := 1\<rparr>) ?t))"
      using fl True rd il unfolding bcache_fill_def Let_def by (auto simp: upd_buf_blk f_def)
    have rng: "dev_in_range st d (8 * n) 8" "buf = dev_block st d n"
      using spec True ok dev_ok_location(2) [OF ok, of st] by auto
    have fill: "bc_inv D ?t" "view ?t = view ?s" "holds ?t d n v"
      using v d rng free by - (rule fill_spec [OF silent_inv [OF sil]]; simp add: f_def holds_def)+
    let ?u = "upd_buf v (\<lambda>x. x\<lparr>refcnt := 1\<rparr>) ?t"
    have iu: "bc_inv D ?u" "view ?u = view ?t" using set_refcnt [OF fill(1), of v "\<lambda>_. 1"] il by simp_all
    have tu: "silent D ?u (lru_touch v ?u)" using v(1) by (intro silent_touch [OF iu(1)]) simp
    have refs: "refs ?u = (refs s)[v := (refs s ! v + 1) mod 2 ^ 32]"
      using il v(3) by (simp add: refs_def upd_buf_def map_update)
    have "got D s d n r (lru_touch v ?u)"
      unfolding r got_def using tu iu fill sil refs il v(3) by (auto simp: silent_def holds_def)
    then show ?thesis using s' got_stats by auto
  qed
qed

lemma bcache_fill_valid:
  "v < g_nbufs s \<Longrightarrow> bcache_fill d n v (upd_buf v (\<lambda>x. x\<lparr>valid := False\<rparr>) s) = bcache_fill d n v s"
  by (simp add: bcache_fill_def Let_def)

lemma find_evictable_spec:
  assumes "bc_inv D s" "find_evictable s = Some v"
  shows "v \<in> set (g_lru s)" "refcnt (g_bufs s ! v) = 0" "v < g_nbufs s"
  using assms by (auto simp: find_evictable_def bc_inv_def lru_ok_def dest!: find_SomeD)

lemma silent_holds:
  assumes "\<And>j. j < g_nbufs s \<Longrightarrow> holds s' d n j \<Longrightarrow> holds s d n j" "g_nbufs s' = g_nbufs s" "\<not> (\<exists>j < g_nbufs s. holds s d n j)"
  shows "\<not> (\<exists>j < g_nbufs s'. holds s' d n j)"
  using assms by auto

lemma evict_fill_spec:
  assumes inv: "bc_inv D s" and v: "v \<in> set (g_lru s)" "refcnt (g_bufs s ! v) = 0" "\<not> (valid (g_bufs s ! v) \<and> dirty (g_bufs s ! v))"
    and d: "d \<in> D" "n < 2 ^ 61" and free: "\<not> (\<exists>j < g_nbufs s. holds s d n j)"
    and ev: "bcache_fill d n v (if valid (g_bufs s ! v) then upd_stats h (ht_remove v s) else s) = (r, s')"
  shows "got D s d n r s'"
proof (cases "valid (g_bufs s ! v)")
  case False
  then show ?thesis using bcache_fill_spec [OF inv v(1) False v(2) d free] ev by simp
next
  case True
  let ?t = "upd_stats h (upd_buf v (\<lambda>x. x\<lparr>valid := False\<rparr>) (ht_remove v s))"
  have il: "v < g_nbufs s" using inv v(1) by (auto simp: bc_inv_def lru_ok_def)
  have sil: "silent D s ?t" using silent_drop [OF inv il True] v(3) True by (intro silent_stats) blast
  have "bcache_fill d n v ?t = (r, s')"
    using ev True il bcache_fill_valid [of v "upd_stats h (ht_remove v s)" d n] by (simp add: upd_stats_commute)
  moreover have "\<not> (\<exists>j < g_nbufs ?t. holds ?t d n j)"
    by (rule silent_holds [OF _ _ free]) (use il in \<open>auto simp: holds_def split: if_splits\<close>)
  ultimately have "got D ?t d n r s'" using v il by (intro bcache_fill_spec [OF silent_inv [OF sil] _ _ _ d]) auto
  then show ?thesis by (rule got_after [OF sil]) (use v(2) in auto)
qed

lemma clean_victim_spec:
  assumes inv: "bc_inv D s" and v: "v < g_nbufs s" "refcnt (g_bufs s ! v) = 0" and free: "\<not> (\<exists>j < g_nbufs s. holds s d n j)"
    and wb: "(if valid (g_bufs s ! v) \<and> dirty (g_bufs s ! v) then writeback_one v s else (True, s)) = (ok, s')"
  shows "silent D s s'" "j < g_nbufs s \<Longrightarrow> 0 < refcnt (g_bufs s ! j) \<Longrightarrow> g_bufs s' ! j = g_bufs s ! j" "g_lru s' = g_lru s"
    "ok \<Longrightarrow> \<not> (valid (g_bufs s' ! v) \<and> dirty (g_bufs s' ! v))" "\<not> (\<exists>j < g_nbufs s'. holds s' d n j)"
    "refcnt (g_bufs s' ! v) = 0"
proof -
  have s': "silent D s s' \<and> g_lru s' = g_lru s \<and> (ok \<longrightarrow> \<not> (valid (g_bufs s' ! v) \<and> dirty (g_bufs s' ! v))) \<and>
      (\<forall>j < g_nbufs s. g_bufs s' ! j = g_bufs s ! j \<or> j = v \<and> g_bufs s' ! j = (g_bufs s ! j)\<lparr>dirty := False\<rparr>)"
    using wb writeback_one_spec [OF inv v(1), of ok s'] silent_refl [OF inv] v(1) by (auto split: if_splits)
  then show sil: "silent D s s'" and "g_lru s' = g_lru s" "ok \<Longrightarrow> \<not> (valid (g_bufs s' ! v) \<and> dirty (g_bufs s' ! v))" by auto
  show "j < g_nbufs s \<Longrightarrow> 0 < refcnt (g_bufs s ! j) \<Longrightarrow> g_bufs s' ! j = g_bufs s ! j" "refcnt (g_bufs s' ! v) = 0"
    using s' v by auto
  have "holds s' d n j = holds s d n j" if "j < g_nbufs s" for j using s' that by (auto simp: holds_def)
  then show "\<not> (\<exists>j < g_nbufs s'. holds s' d n j)" using free silent_nbufs [OF sil] by auto
qed

lemma bcache_miss_spec:
  assumes inv: "bc_inv D s" and d: "d \<in> D" "n < 2 ^ 61" and free: "\<not> (\<exists>j < g_nbufs s. holds s d n j)"
    and v: "find_evictable s = Some v"
    and wb: "(if valid (g_bufs s ! v) \<and> dirty (g_bufs s ! v) then writeback_one v s else (True, s)) = (ok, s2)"
    and r: "(if \<not> ok then (None, s2) else bcache_fill d n v
          (if valid (g_bufs s2 ! v) then upd_stats h (ht_remove v s2) else s2)) = (r, s')"
  shows "got D s d n r s'"
proof -
  note v' = find_evictable_spec [OF inv v]
  note cl = clean_victim_spec [OF inv v'(3,2) free wb]
  show ?thesis
  proof (cases ok)
    case False
    then show ?thesis using r got_silent [OF cl(1,2)] by auto
  next
    case True
    have vl: "v \<in> set (g_lru s2)" using v'(1) cl(3) by simp
    have "bcache_fill d n v (if valid (g_bufs s2 ! v) then upd_stats h (ht_remove v s2) else s2) = (r, s')"
      using r True by simp
    from evict_fill_spec [OF silent_inv [OF cl(1)] vl cl(6) cl(4) [OF True] d cl(5) this]
    show ?thesis by (rule got_after [OF cl(1) _ cl(2)])
  qed
qed

lemma bcache_get_spec:
  assumes inv: "bc_inv D s" and d: "d \<in> D" "n < 2 ^ 61" and gt: "bcache_get d n s = (r, s')"
  shows "got D s d n r s'"
proof (cases "\<not> bc_ready s \<or> g_nbufs s = 0")
  case True
  then have "r = None" "s' = s" using gt by (auto simp: bcache_get_def)
  then show ?thesis using got_silent [OF silent_refl [OF inv]] by simp
next
  case rdy: False
  show ?thesis
  proof (cases "ht_lookup d n s")
    case (Some b)
    then have b: "b < g_nbufs s" "holds s d n b" using ht_lookup_iff [OF inv] by auto
    have "r = Some b" "\<exists>h. s' = upd_stats h (lru_touch b (upd_buf b (\<lambda>x. x\<lparr>refcnt := (refcnt x + 1) mod 2 ^ 32\<rparr>) s))"
      using gt rdy Some unfolding bcache_get_def by (auto simp: upd_stats_commute)
    then show ?thesis using pin_spec [OF inv b, of "\<lambda>x. (refcnt x + 1) mod 2 ^ 32"] got_stats by auto
  next
    case None
    define s1 where "s1 = upd_stats (\<lambda>t. t\<lparr>misses := misses t + 1\<rparr>) s"
    have inv1: "bc_inv D s1" and sil: "silent D s s1" using inv silent_stats [OF silent_refl [OF inv]] by (simp_all add: s1_def)
    have pin: "g_bufs s1 = g_bufs s" by (simp add: s1_def)
    have free: "\<not> (\<exists>j < g_nbufs s1. holds s1 d n j)" using ht_lookup_None [OF inv, of d n] None by (simp add: s1_def holds_def)
    have "got D s1 d n r s'"
    proof (cases "find_evictable s1")
      case None2: None
      then have "r = None" "s' = s1" using gt rdy None by (auto simp: bcache_get_def s1_def)
      then show ?thesis using got_silent [OF silent_refl [OF inv1]] by simp
    next
      case (Some v)
      obtain ok s2 where wb: "(if valid (g_bufs s1 ! v) \<and> dirty (g_bufs s1 ! v) then writeback_one v s1 else (True, s1)) = (ok, s2)"
        by fastforce
      show ?thesis
        by (rule bcache_miss_spec [OF inv1 d free Some wb])
          (use gt [unfolded bcache_get_def Let_def, folded s1_def] rdy None Some wb in simp)
    qed
    then show ?thesis by (rule got_after [OF sil]) (simp add: pin)
  qed
qed

lemma bcache_put_spec:
  assumes "bc_inv D s" "i < g_nbufs s"
  shows "bc_inv D (bcache_put i s)" "view (bcache_put i s) = view s" "refs (bcache_put i s) = (refs s)[i := refs s ! i - 1]"
    "blk (bcache_put i s) = blk s" "bc_ready (bcache_put i s) = bc_ready s"
  using assms set_refcnt [OF assms, of "\<lambda>x. refcnt x - 1"] refs_upd [OF assms(2), of "\<lambda>x. x\<lparr>refcnt := refcnt x - 1\<rparr>"]
  by (auto simp: bcache_put_def refs_def intro!: list_update_same_conv [THEN iffD2, symmetric])

lemma bcache_store_spec:
  assumes inv: "bc_inv D s" and i: "i < g_nbufs s" "holds s d n i" and len: "length bs = BCACHE_BLOCK_SIZE"
  shows "bc_inv D (bcache_store i bs s)"
    "view (bcache_store i bs s) e m = (if e = d \<and> m = n then bs else view s e m)" "refs (bcache_store i bs s) = refs s"
    "blk (bcache_store i bs s) = blk s" "bc_ready (bcache_store i bs s) = bc_ready s"
proof -
  let ?f = "\<lambda>x. x\<lparr>b_data := bs, dirty := True\<rparr>"
  have v: "valid (g_bufs s ! i)" using i(2) by (simp add: holds_def)
  have "\<exists>h. bcache_store i bs s = upd_stats h (upd_buf i ?f s)"
  proof (cases "dirty (g_bufs s ! i)")
    case True
    have "(g_bufs s ! i)\<lparr>b_data := bs\<rparr> = ?f (g_bufs s ! i)" using True by (cases "g_bufs s ! i") simp
    then have "upd_buf i (\<lambda>x. x\<lparr>b_data := bs\<rparr>) s = upd_buf i ?f s" by (simp add: upd_buf_def)
    then have "bcache_store i bs s = upd_stats (\<lambda>t. t) (upd_buf i ?f s)"
      using True i(1) v by (auto simp: bcache_store_def bcache_mark_dirty_def upd_stats_def)
    then show ?thesis by blast
  qed (use v i in \<open>auto simp: bcache_store_def bcache_mark_dirty_def\<close>)
  then obtain h where st: "bcache_store i bs s = upd_stats h (upd_buf i ?f s)" by blast
  obtain d' where d': "length (b_data (g_bufs s ! i)) = BCACHE_BLOCK_SIZE" by (rule inv_valid [OF inv i(1) v])
  then have k: "keeps_key ?f (g_bufs s ! i)" using len by (simp add: keeps_key_def)
  have "buf_ok D (blk s) (g_bufs s ! i)" using inv i(1) by (simp add: bc_inv_def)
  then have "buf_ok D (blk s) (?f (g_bufs s ! i))" by (auto simp: buf_ok_def)
  then show "bc_inv D (bcache_store i bs s)" unfolding st using upd_keep_inv [OF inv k i(1)] by simp
  show "view (bcache_store i bs s) e m = (if e = d \<and> m = n then bs else view s e m)"
    unfolding st using upd_keep_view [OF inv k i(1), of e m] i(2) by (auto simp: holds_def)
  show "refs (bcache_store i bs s) = refs s" "blk (bcache_store i bs s) = blk s" "bc_ready (bcache_store i bs s) = bc_ready s"
    unfolding st using refs_upd_same [OF i(1), of ?f] by (simp_all add: refs_def)
qed

section \<open>Initialisation\<close>

definition fresh :: "nat \<Rightarrow> bcache \<Rightarrow> bcache \<Rightarrow> bool" where
  "fresh k s s' \<longleftrightarrow> g_nbufs s' = g_nbufs s \<and> g_ht s' = g_ht s \<and> dev_addr s' = dev_addr s \<and> bc_ready s' = bc_ready s \<and>
     (\<exists>p. blk s' = (blk s)\<lparr>bl_pmm := p\<rparr>) \<and> (\<forall>i < g_nbufs s'. \<not> valid (g_bufs s' ! i) \<and> refcnt (g_bufs s' ! i) = 0) \<and>
     distinct (g_lru s') \<and> (\<forall>i \<in> set (g_lru s'). i < k \<and> length (b_data (g_bufs s' ! i)) = BCACHE_BLOCK_SIZE)"

lemma init_buf_fresh:
  assumes "fresh k s s'" "k < g_nbufs s"
  shows "fresh (Suc k) s (init_buf k s')"
proof -
  obtain phys p where a: "pmm_alloc (bl_pmm (blk s')) = (phys, p)" by fastforce
  show ?thesis
  proof (cases "phys = 0")
    case True
    then show ?thesis using assms a by (auto simp: init_buf_def fresh_def less_Suc_eq)
  next
    case False
    let ?f = "\<lambda>b. empty_buf\<lparr>b_data := replicate BCACHE_BLOCK_SIZE 0\<rparr>"
    let ?s = "s'\<lparr>blk := (blk s')\<lparr>bl_pmm := p\<rparr>\<rparr>"
    have t: "init_buf k s' = lru_push_front k (upd_buf k ?f ?s)" using a False by (simp add: init_buf_def)
    have k: "k < g_nbufs s'" "k \<notin> set (g_lru s')" using assms by (auto simp: fresh_def)
    have b: "g_bufs (upd_buf k ?f ?s) ! i = (if i = k then ?f () else g_bufs s' ! i)" if "i < g_nbufs s'" for i
      using that by simp
    show ?thesis
      unfolding t using assms k b by (auto simp: fresh_def lru_push_front_def empty_buf_def less_Suc_eq)
  qed
qed

lemma init_bufs_fresh: "fresh 0 s s \<Longrightarrow> k \<le> g_nbufs s \<Longrightarrow> fresh k s (fold init_buf [0..<k] s)"
  by (induction k) (auto intro: init_buf_fresh)

lemma bcache_init_inv:
  assumes "devs_ok D (blk s)"
  shows "bc_inv D (bcache_init True num s)" "d \<in> D \<Longrightarrow> view (bcache_init True num s) d n = dev_block (blk s) d n"
    "\<forall>r \<in> set (refs (bcache_init True num s)). r = 0" "bc_ready (bcache_init True num s)"
proof -
  define k where "k = (if num = 0 then 128 else num)"
  define s0 where "s0 = (upd_stats (\<lambda>t. t\<lparr>total_bufs := k\<rparr>) s)\<lparr>g_bufs := replicate k empty_buf,
      g_ht := replicate ((k * 2 + 1) mod 2 ^ 32) [], g_lru := [], bc_ready := True\<rparr>"
  let ?t = "fold init_buf [0..<k] s0"
  have t: "bcache_init True num s = ?t" by (simp add: bcache_init_def k_def s0_def Let_def)
  have cap: "0 < (k * 2 + 1) mod 2 ^ 32"
  proof -
    have "even ((k * 2 + 1) mod 2 ^ 32) = even (k * 2 + 1)" by (rule dvd_mod_iff) simp
    then show ?thesis by (intro odd_pos) simp
  qed
  have "fresh 0 s0 s0"
    by (auto simp: fresh_def s0_def empty_buf_def intro!: exI [of _ "bl_pmm (blk s)"])
  then have f: "fresh k s0 ?t" by (intro init_bufs_fresh) (simp_all add: s0_def)
  then obtain p where p: "blk ?t = (blk s)\<lparr>bl_pmm := p\<rparr>" by (auto simp: fresh_def s0_def)
  have nv: "\<not> valid (g_bufs ?t ! i)" if "i < g_nbufs ?t" for i using f that by (simp add: fresh_def)
  have dev: "devs_ok D (blk ?t)"
    using assms devs_ok_same [OF assms, of "blk ?t"] unfolding p by (simp add: same_devices_def devs_ok_def)
  have n: "g_nbufs ?t = k" using f by (simp add: fresh_def s0_def)
  have "lru_ok ?t" using f n by (auto simp: fresh_def lru_ok_def)
  moreover have "ht_ok ?t"
  proof -
    have "g_ht ?t = replicate ((k * 2 + 1) mod 2 ^ 32) []" using f by (simp add: fresh_def s0_def)
    then show ?thesis using cap nv unfolding ht_ok_def by (metis distinct.simps(1) empty_iff length_replicate nth_replicate set_empty)
  qed
  moreover have "no_dups ?t" using nv by (auto simp: no_dups_def holds_def)
  ultimately show "bc_inv D (bcache_init True num s)" unfolding t bc_inv_def using dev nv by (auto simp: buf_ok_def)
  show "view (bcache_init True num s) d n = dev_block (blk s) d n" if "d \<in> D"
  proof -
    have "dev_ok (blk s) d" using assms that by (rule devs_okD)
    then have "dev_block (blk ?t) d n = dev_block (blk s) d n"
      unfolding p by (intro dev_block_same) (simp_all add: same_devices_def)
    then show ?thesis unfolding t using view_not_held [of ?t d n] nv by (auto simp: holds_def)
  qed
  show "\<forall>r \<in> set (refs (bcache_init True num s)). r = 0"
    unfolding t refs_def using f by (auto simp: fresh_def in_set_conv_nth)
  show "bc_ready (bcache_init True num s)" unfolding t using f by (simp add: fresh_def s0_def)
qed

section \<open>Synchronisation\<close>

definition wanted :: "blockdev option \<Rightarrow> bcache_buf \<Rightarrow> bool" where
  "wanted d b \<longleftrightarrow> valid b \<and> (d = None \<or> b_dev b = d)"

lemma sync_one_spec:
  assumes "bc_inv D s" "i < g_nbufs s" "sync_one d i (ok0, s) = (ok, s')"
  shows "silent D s s' \<and> (ok \<longrightarrow> ok0 \<and> (wanted d (g_bufs s' ! i) \<longrightarrow> \<not> dirty (g_bufs s' ! i))) \<and>
    (\<forall>j < g_nbufs s. wanted d (g_bufs s' ! j) = wanted d (g_bufs s ! j) \<and> (dirty (g_bufs s' ! j) \<longrightarrow> dirty (g_bufs s ! j)))"
proof (cases "wanted d (g_bufs s ! i) \<and> dirty (g_bufs s ! i)")
  case False
  then have "s' = s" "ok = ok0" using assms(3) by (auto simp: sync_one_def wanted_def split: if_splits)
  then show ?thesis using silent_refl [OF assms(1)] False by auto
next
  case True
  obtain w t where wb: "writeback_one i s = (w, t)" by fastforce
  then have "s' = t" "ok = (ok0 \<and> w)" using assms(3) True by (auto simp: sync_one_def wanted_def split: if_splits)
  then show ?thesis using writeback_one_spec [OF assms(1,2) wb] True assms(2) by (auto simp: wanted_def)
qed

lemma sync_fold_spec:
  assumes "bc_inv D s" "\<forall>i \<in> set is. i < g_nbufs s" "fold (sync_one d) is (ok0, s) = (ok, s')"
  shows "silent D s s' \<and> (ok \<longrightarrow> ok0 \<and> (\<forall>i \<in> set is. wanted d (g_bufs s' ! i) \<longrightarrow> \<not> dirty (g_bufs s' ! i))) \<and>
    (\<forall>j < g_nbufs s. wanted d (g_bufs s' ! j) = wanted d (g_bufs s ! j) \<and> (dirty (g_bufs s' ! j) \<longrightarrow> dirty (g_bufs s ! j)))"
  using assms
proof (induction "is" arbitrary: ok0 s)
  case Nil
  then show ?case using silent_refl by simp
next
  case (Cons i "is")
  obtain ok1 s1 where s1: "sync_one d i (ok0, s) = (ok1, s1)" by fastforce
  have il: "i < g_nbufs s" using Cons.prems(2) by simp
  note one = sync_one_spec [OF Cons.prems(1) il s1]
  then have sil: "silent D s s1" by blast
  have n: "g_nbufs s1 = g_nbufs s" by (rule silent_nbufs [OF sil])
  have "fold (sync_one d) is (ok1, s1) = (ok, s')" using Cons.prems(3) s1 by simp
  note rest = Cons.IH [OF silent_inv [OF sil] _ this]
  have "silent D s s'" using silent_trans [OF sil] rest Cons.prems(2) n by auto
  then show ?case using one rest Cons.prems(2) n by auto
qed

lemma sync_spec:
  assumes inv: "bc_inv D s" and f: "fold (sync_one o') [0..<g_nbufs s] (True, s) = (ok, s')" and d: "d \<in> D" "o' = None \<or> o' = Some d"
  shows "silent D s s' \<and> (ok \<longrightarrow> view s' d n = dev_block (blk s') d n)"
proof -
  have spec: "silent D s s'" "ok \<longrightarrow> (\<forall>i < g_nbufs s. wanted o' (g_bufs s' ! i) \<longrightarrow> \<not> dirty (g_bufs s' ! i))"
    using sync_fold_spec [OF inv _ f] by auto
  have inv': "bc_inv D s'" "no_dups s'" "g_nbufs s' = g_nbufs s"
    using silent_inv [OF spec(1)] silent_nbufs [OF spec(1)] by (simp_all add: bc_inv_def)
  have "view s' d n = dev_block (blk s') d n" if ok
  proof (cases "\<exists>i < g_nbufs s'. holds s' d n i")
    case True
    then obtain i where i: "i < g_nbufs s'" "holds s' d n i" by blast
    then have "\<not> dirty (g_bufs s' ! i)" using spec(2) that d(2) inv'(3) by (auto simp: wanted_def holds_def)
    then show ?thesis using view_held [OF inv'(2) i] inv_valid [OF inv'(1) i(1)] i(2) by (auto simp: holds_def)
  qed (use view_not_held in blast)
  then show ?thesis using spec(1) by blast
qed

lemma bcache_sync_dev_spec:
  assumes inv: "bc_inv D s" and d: "d \<in> D" and sy: "bcache_sync_dev d s = (ok, s')"
  shows "silent D s s' \<and> (ok \<and> bc_ready s \<longrightarrow> view s' d n = dev_block (blk s') d n)"
proof -
  define s1 where "s1 = upd_stats (\<lambda>t. t\<lparr>sync_calls := sync_calls t + 1\<rparr>) s"
  have inv1: "bc_inv D s1" and sil1: "silent D s s1" using inv silent_stats [OF silent_refl [OF inv]] by (simp_all add: s1_def)
  show ?thesis
  proof (cases "bc_ready s1")
    case False
    then show ?thesis using sy sil1 by (auto simp: bcache_sync_dev_def s1_def)
  next
    case True
    obtain ok2 s2 where f: "fold (sync_one (Some d)) [0..<g_nbufs s1] (True, s1) = (ok2, s2)" by fastforce
    obtain fok st where fl: "dev_flush d (blk s2) = (fok, st)" by fastforce
    have r: "ok = (ok2 \<and> fok)" "s' = s2\<lparr>blk := st\<rparr>"
      using sy [unfolded bcache_sync_dev_def Let_def, folded s1_def] True f fl by auto
    have sp: "silent D s1 s2" "ok2 \<longrightarrow> view s2 d n = dev_block (blk s2) d n"
      using sync_spec [OF inv1 f d, of n] by auto
    note fs = dev_flush_spec [OF fl]
    have blocks: "dev_block st e m = dev_block (blk s2) e m" if "e \<in> D" for e m
      using dev_block_same [OF inv_dev_ok [OF silent_inv [OF sp(1)] that]] fs by blast
    have wf: "block_wf st"
      using fs block_wf_same [of "blk s2" st] silent_inv [OF sp(1)] by (auto simp: bc_inv_def devs_ok_def block_wf_def)
    have s2: "silent D s2 s'" unfolding r(2) using fs wf blocks by (intro silent_blk [OF silent_inv [OF sp(1)]]) blast+
    then have "view s' d n = view s2 d n" using d by (simp add: silent_def)
    then show ?thesis using silent_trans [OF silent_trans [OF sil1 sp(1)] s2] sp(2) blocks [OF d] r by simp
  qed
qed

lemma bcache_sync_all_spec:
  assumes inv: "bc_inv D s" and sy: "bcache_sync_all s = (ok, s')"
  shows "silent D s s' \<and> (ok \<and> bc_ready s \<longrightarrow> (\<forall>d \<in> D. \<forall>n. view s' d n = dev_block (blk s') d n))"
proof -
  define s1 where "s1 = upd_stats (\<lambda>t. t\<lparr>sync_calls := sync_calls t + 1\<rparr>) s"
  have inv1: "bc_inv D s1" and sil1: "silent D s s1" using inv silent_stats [OF silent_refl [OF inv]] by (simp_all add: s1_def)
  show ?thesis
  proof (cases "bc_ready s1")
    case False
    then show ?thesis using sy sil1 by (auto simp: bcache_sync_all_def s1_def)
  next
    case True
    then have f: "fold (sync_one None) [0..<g_nbufs s1] (True, s1) = (ok, s')"
      using sy [unfolded bcache_sync_all_def Let_def, folded s1_def] by simp
    have "silent D s1 s'" using sync_fold_spec [OF inv1 _ f] by simp
    then show ?thesis using sync_spec [OF inv1 f] silent_trans [OF sil1] by blast
  qed
qed

section \<open>The cache as an array of blocks\<close>

text \<open>A client that copies a block out, or changes a block in place and marks it dirty, as the file
  systems do: fetch, use, release.\<close>

definition bread :: "blockdev \<Rightarrow> nat \<Rightarrow> bcache \<Rightarrow> bytes option \<times> bcache" where
  "bread d n s = (case bcache_get d n s of
     (None, s1) \<Rightarrow> (None, s1)
   | (Some b, s1) \<Rightarrow> (Some (bcache_data b s1), bcache_put b s1))"

definition bmodify :: "blockdev \<Rightarrow> nat \<Rightarrow> (bytes \<Rightarrow> bytes) \<Rightarrow> bcache \<Rightarrow> bool \<times> bcache" where
  "bmodify d n f s = (case bcache_get d n s of
     (None, s1) \<Rightarrow> (False, s1)
   | (Some b, s1) \<Rightarrow> (True, bcache_put b (bcache_store b (f (bcache_data b s1)) s1)))"

text \<open>Between operations no buffer is pinned.\<close>

definition cache_ok :: "blockdev set \<Rightarrow> bcache \<Rightarrow> bool" where
  "cache_ok D s \<longleftrightarrow> bc_inv D s \<and> (\<forall>r \<in> set (refs s). r = 0)"

lemma got_None: "cache_ok D s \<Longrightarrow> got D s d n None s' \<Longrightarrow> cache_ok D s'"
  by (simp add: cache_ok_def got_def)

lemma got_Some:
  assumes "cache_ok D s" "d \<in> D" "got D s d n (Some i) s'"
  shows "bc_inv D s'" "i < g_nbufs s'" "holds s' d n i" "bcache_data i s' = view s d n"
    "length (view s d n) = BCACHE_BLOCK_SIZE" "refs s' = (refs s)[i := 1]"
proof -
  have g: "bc_inv D s'" "holds s' d n i" "i < g_nbufs s" "refs s' = (refs s)[i := (refs s ! i + 1) mod 2 ^ 32]"
    "view s' d n = view s d n" using assms by (simp_all add: got_def)
  have l: "length (refs s) = g_nbufs s" "length (refs s') = g_nbufs s'" by (simp_all add: refs_def)
  then show il: "i < g_nbufs s'" using g(3,4) by simp
  have "no_dups s'" using g(1) by (simp add: bc_inv_def)
  then show dat: "bcache_data i s' = view s d n" using view_held [of s' i d n] il g(2,5) by (simp add: bcache_data_def)
  obtain "length (b_data (g_bufs s' ! i)) = BCACHE_BLOCK_SIZE"
    using inv_valid [OF g(1) il] g(2) by (auto simp: holds_def)
  then show "length (view s d n) = BCACHE_BLOCK_SIZE" using dat by (simp add: bcache_data_def)
  have "refs s ! i = 0" using assms(1) g(3) l(1) by (simp add: cache_ok_def)
  then show "bc_inv D s'" "holds s' d n i" "refs s' = (refs s)[i := 1]" using g by simp_all
qed

lemma released:
  assumes "cache_ok D s" "bc_inv D s'" "i < g_nbufs s'" "refs s' = (refs s)[i := 1]"
  shows "cache_ok D (bcache_put i s')" "view (bcache_put i s') = view s'"
proof -
  have "length (refs s) = g_nbufs s'" using assms(4) by (metis length_list_update length_map refs_def)
  then have "refs (bcache_put i s') = (refs s)[i := 0]" using bcache_put_spec(3) [OF assms(2,3)] assms(3,4) by simp
  moreover have "set ((refs s)[i := 0]) \<subseteq> {0}" using assms(1) set_update_subset_insert [of "refs s" i 0] by (auto simp: cache_ok_def)
  ultimately show "cache_ok D (bcache_put i s')" using bcache_put_spec(1) [OF assms(2,3)] by (auto simp: cache_ok_def)
  show "view (bcache_put i s') = view s'" by (rule bcache_put_spec(2) [OF assms(2,3)])
qed

text \<open>A session of a client, and what an array of blocks would have answered: \<open>replay\<close> follows the
  answers and is \<open>None\<close> when a block that was read is not the one the array holds.\<close>

datatype 'd store_op = Fetch 'd nat | Update 'd nat bytes | Sync 'd
datatype store_res = Data "bytes option" | Done bool

fun run_store ::
  "('d \<Rightarrow> nat \<Rightarrow> 's \<Rightarrow> bytes option \<times> 's) \<Rightarrow> ('d \<Rightarrow> nat \<Rightarrow> (bytes \<Rightarrow> bytes) \<Rightarrow> 's \<Rightarrow> bool \<times> 's) \<Rightarrow>
   ('d \<Rightarrow> 's \<Rightarrow> bool \<times> 's) \<Rightarrow> 'd store_op list \<Rightarrow> 's \<Rightarrow> store_res list \<times> 's" where
  "run_store rd md sy [] s = ([], s)"
| "run_store rd md sy (op # ops) s =
     (let (r, s1) = (case op of
          Fetch d n \<Rightarrow> (let (x, t) = rd d n s in (Data x, t))
        | Update d n bs \<Rightarrow> (let (ok, t) = md d n (\<lambda>_. bs) s in (Done ok, t))
        | Sync d \<Rightarrow> (let (ok, t) = sy d s in (Done ok, t)));
          (rs, s2) = run_store rd md sy ops s1
      in (r # rs, s2))"

fun replay :: "'d store_op list \<Rightarrow> store_res list \<Rightarrow> ('d \<Rightarrow> nat \<Rightarrow> bytes) \<Rightarrow> ('d \<Rightarrow> nat \<Rightarrow> bytes) option" where
  "replay [] [] a = Some a"
| "replay (Fetch d n # ops) (Data None # rs) a = replay ops rs a"
| "replay (Fetch d n # ops) (Data (Some bs) # rs) a = (if bs = a d n then replay ops rs a else None)"
| "replay (Update d n bs # ops) (Done ok # rs) a = replay ops rs (if ok then a(d := (a d)(n := bs)) else a)"
| "replay (Sync d # ops) (Done ok # rs) a = replay ops rs a"
| "replay _ _ _ = None"

fun op_ok :: "'d set \<Rightarrow> 'd store_op \<Rightarrow> bool" where
  "op_ok D (Fetch d n) = (d \<in> D \<and> n < 2 ^ 61)"
| "op_ok D (Update d n bs) = (d \<in> D \<and> n < 2 ^ 61 \<and> length bs = BCACHE_BLOCK_SIZE)"
| "op_ok D (Sync d) = (d \<in> D)"

text \<open>What the file systems rely on: an array of 4 KiB blocks per device in use, of which every
  access either fails and changes nothing or does what it says.\<close>

locale block_store =
  fixes store_ok :: "'s \<Rightarrow> bool" and devs :: "'d set" and contents :: "'s \<Rightarrow> 'd \<Rightarrow> nat \<Rightarrow> bytes"
    and read_blk :: "'d \<Rightarrow> nat \<Rightarrow> 's \<Rightarrow> bytes option \<times> 's"
    and mod_blk :: "'d \<Rightarrow> nat \<Rightarrow> (bytes \<Rightarrow> bytes) \<Rightarrow> 's \<Rightarrow> bool \<times> 's"
  assumes read_law: "store_ok s \<Longrightarrow> d \<in> devs \<Longrightarrow> n < 2 ^ 61 \<Longrightarrow> read_blk d n s = (r, s') \<Longrightarrow>
      store_ok s' \<and> (\<forall>e \<in> devs. contents s' e = contents s e) \<and>
      (r \<noteq> None \<longrightarrow> r = Some (contents s d n) \<and> length (contents s d n) = BCACHE_BLOCK_SIZE)"
    and mod_law: "store_ok s \<Longrightarrow> d \<in> devs \<Longrightarrow> n < 2 ^ 61 \<Longrightarrow>
      (\<And>bs. length bs = BCACHE_BLOCK_SIZE \<Longrightarrow> length (f bs) = BCACHE_BLOCK_SIZE) \<Longrightarrow> mod_blk d n f s = (ok, s') \<Longrightarrow>
      store_ok s' \<and> (\<forall>e \<in> devs. contents s' e =
        (if ok \<and> e = d then (contents s e)(n := f (contents s e n)) else contents s e)) \<and>
      (ok \<longrightarrow> length (contents s d n) = BCACHE_BLOCK_SIZE)"
begin

lemma write_then_read:
  assumes "store_ok s" "d \<in> devs" "n < 2 ^ 61" "length bs = BCACHE_BLOCK_SIZE" "mod_blk d n (\<lambda>_. bs) s = (True, s1)"
    "read_blk d n s1 = (Some b, s2)"
  shows "b = bs"
  using mod_law [OF assms(1-3) _ assms(5)] read_law [OF _ assms(2,3,6)] assms(2,4) by auto

end

locale synced_store = block_store +
  fixes sync_blk :: "'b \<Rightarrow> 'a \<Rightarrow> bool \<times> 'a" and on_disk :: "'a \<Rightarrow> 'b \<Rightarrow> nat \<Rightarrow> bytes"
  assumes sync_law: "store_ok s \<Longrightarrow> d \<in> devs \<Longrightarrow> sync_blk d s = (ok, s') \<Longrightarrow>
      store_ok s' \<and> (\<forall>e \<in> devs. contents s' e = contents s e) \<and> (ok \<longrightarrow> on_disk s' d = contents s' d)"
begin

lemma session_replay:
  assumes "store_ok s" "\<forall>op \<in> set ops. op_ok devs op" "run_store read_blk mod_blk sync_blk ops s = (rs, s')"
    "\<forall>d \<in> devs. contents s d = a d"
  shows "\<exists>b. replay ops rs a = Some b \<and> (\<forall>d \<in> devs. contents s' d = b d) \<and> store_ok s'"
  using assms
proof (induction ops arbitrary: s a rs)
  case (Cons op ops)
  obtain r s1 rs' where step: "(case op of Fetch d n \<Rightarrow> (let (x, t) = read_blk d n s in (Data x, t))
      | Update d n bs \<Rightarrow> (let (ok, t) = mod_blk d n (\<lambda>_. bs) s in (Done ok, t))
      | Sync d \<Rightarrow> (let (ok, t) = sync_blk d s in (Done ok, t))) = (r, s1)"
    and rest: "run_store read_blk mod_blk sync_blk ops s1 = (rs', s')" "rs = r # rs'"
    using Cons.prems(3) by (auto simp: Let_def split: prod.splits)
  note IH = Cons.IH [OF _ _ rest(1)]
  show ?case
  proof (cases op)
    case (Fetch d n)
    then obtain x where x: "read_blk d n s = (x, s1)" "r = Data x" using step by (auto split: prod.splits)
    then show ?thesis using read_law [OF Cons.prems(1) _ _ x(1)] Cons.prems(2,4) IH [of a] Fetch rest(2)
      by (cases x) auto
  next
    case (Update d n bs)
    then obtain ok where x: "mod_blk d n (\<lambda>_. bs) s = (ok, s1)" "r = Done ok" using step by (auto split: prod.splits)
    define a' where "a' = (if ok then a(d := (a d)(n := bs)) else a)"
    have "store_ok s1" "\<forall>e \<in> devs. contents s1 e = a' e"
      using mod_law [OF Cons.prems(1) _ _ _ x(1)] Cons.prems(2,4) Update by (auto simp: a'_def)
    from IH [OF this(1) _ this(2)] show ?thesis using Cons.prems(2) Update x(2) rest(2) by (simp add: a'_def)
  next
    case (Sync d)
    then obtain ok where x: "sync_blk d s = (ok, s1)" "r = Done ok" using step by (auto split: prod.splits)
    then show ?thesis using sync_law [OF Cons.prems(1) _ x(1)] Cons.prems(2,4) IH [of a] Sync rest(2) by auto
  qed
qed simp

end

interpretation bc: block_store "cache_ok D" D view bread bmodify for D
proof unfold_locales
  fix s d n r s'
  assume ok: "cache_ok D s" and d: "d \<in> D" "n < 2 ^ 61" and rd: "bread d n s = (r, s')"
  obtain o1 s1 where g: "bcache_get d n s = (o1, s1)" by fastforce
  have got: "got D s d n o1 s1" using bcache_get_spec [OF _ d g] ok by (simp add: cache_ok_def)
  then have v: "view s1 e = view s e" if "e \<in> D" for e using that by (auto simp: got_def)
  show "cache_ok D s' \<and> (\<forall>e \<in> D. view s' e = view s e) \<and>
      (r \<noteq> None \<longrightarrow> r = Some (view s d n) \<and> length (view s d n) = BCACHE_BLOCK_SIZE)"
  proof (cases o1)
    case None
    then show ?thesis using rd g got_None [OF ok] got v by (simp add: bread_def)
  next
    case (Some i)
    note gs = got_Some [OF ok d(1) got [unfolded Some]]
    show ?thesis using rd g Some gs released [OF ok gs(1,2,6)] v by (auto simp: bread_def)
  qed
next
  fix s d n f r s'
  assume ok: "cache_ok D s" and d: "d \<in> D" "n < 2 ^ 61" and md: "bmodify d n f s = (r, s')"
    and f: "\<And>bs :: bytes. length bs = BCACHE_BLOCK_SIZE \<Longrightarrow> length (f bs :: bytes) = BCACHE_BLOCK_SIZE"
  obtain o1 s1 where g: "bcache_get d n s = (o1, s1)" by fastforce
  have got: "got D s d n o1 s1" using bcache_get_spec [OF _ d g] ok by (simp add: cache_ok_def)
  then have v: "view s1 e = view s e" if "e \<in> D" for e using that by (auto simp: got_def)
  show "cache_ok D s' \<and> (\<forall>e \<in> D. view s' e = (if r \<and> e = d then (view s e)(n := f (view s e n)) else view s e)) \<and>
      (r \<longrightarrow> length (view s d n) = BCACHE_BLOCK_SIZE)"
  proof (cases o1)
    case None
    then show ?thesis using md g got_None [OF ok] got v by (simp add: bmodify_def)
  next
    case (Some i)
    note gs = got_Some [OF ok d(1) got [unfolded Some]]
    note st = bcache_store_spec [OF gs(1-3) f [OF gs(5)]]
    have "g_nbufs (bcache_store i (f (view s d n)) s1) = g_nbufs s1" using st(3) by (metis length_map refs_def)
    then have il: "i < g_nbufs (bcache_store i (f (view s d n)) s1)" using gs(2) by simp
    have r: "r" "s' = bcache_put i (bcache_store i (f (view s d n)) s1)" using md g Some gs(4) by (simp_all add: bmodify_def)
    have "refs (bcache_store i (f (view s d n)) s1) = (refs s)[i := 1]" using st(3) gs(6) by simp
    note rel = released [OF ok st(1) il this]
    have "view s' e = (if r \<and> e = d then (view s e)(n := f (view s e n)) else view s e)" if "e \<in> D" for e
      unfolding r(2) rel(2) using st(2) v [OF that] r(1) by (auto simp: fun_eq_iff)
    then show ?thesis using rel(1) r gs(5) by blast
  qed
qed

text \<open>Synchronising through a cache that is set up.\<close>

definition ready_ok :: "blockdev set \<Rightarrow> bcache \<Rightarrow> bool" where
  "ready_ok D s \<longleftrightarrow> cache_ok D s \<and> bc_ready s"

lemma bcache_get_ready: "bc_inv D s \<Longrightarrow> d \<in> D \<Longrightarrow> n < 2 ^ 61 \<Longrightarrow> bc_ready (snd (bcache_get d n s)) = bc_ready s"
  using bcache_get_spec [of D s d n "fst (bcache_get d n s)" "snd (bcache_get d n s)"] by (simp add: got_def)

lemma bread_ready: "bc_inv D s \<Longrightarrow> d \<in> D \<Longrightarrow> n < 2 ^ 61 \<Longrightarrow> bread d n s = (r, s') \<Longrightarrow> bc_ready s' = bc_ready s"
  using bcache_get_ready [of D s d n] by (auto simp: bread_def bcache_put_def split: prod.splits option.splits if_splits)

lemma bmodify_ready: "bc_inv D s \<Longrightarrow> d \<in> D \<Longrightarrow> n < 2 ^ 61 \<Longrightarrow> bmodify d n f s = (r, s') \<Longrightarrow> bc_ready s' = bc_ready s"
  using bcache_get_ready [of D s d n]
  by (auto simp: bmodify_def bcache_put_def bcache_store_def bcache_mark_dirty_def split: prod.splits option.splits if_splits)

interpretation sc: synced_store "ready_ok D" D view bread bmodify bcache_sync_dev "\<lambda>s. dev_block (blk s)" for D
proof unfold_locales
  fix s d n r s'
  assume "ready_ok D s" "d \<in> D" "n < 2 ^ 61" "bread d n s = (r, s')"
  then show "ready_ok D s' \<and> (\<forall>e \<in> D. view s' e = view s e) \<and>
      (r \<noteq> None \<longrightarrow> r = Some (view s d n) \<and> length (view s d n) = BCACHE_BLOCK_SIZE)"
    using bc.read_law [of D s d n r s'] bread_ready [of D s d n r s'] by (simp add: ready_ok_def cache_ok_def)
next
  fix s d n f ok s'
  assume "ready_ok D s" "d \<in> D" "n < 2 ^ 61" "bmodify d n f s = (ok, s')"
    and "\<And>bs :: bytes. length bs = BCACHE_BLOCK_SIZE \<Longrightarrow> length (f bs :: bytes) = BCACHE_BLOCK_SIZE"
  then show "ready_ok D s' \<and> (\<forall>e \<in> D. view s' e = (if ok \<and> e = d then (view s e)(n := f (view s e n)) else view s e)) \<and>
      (ok \<longrightarrow> length (view s d n) = BCACHE_BLOCK_SIZE)"
    using bc.mod_law [of D s d n f ok s'] bmodify_ready [of D s d n f ok s'] by (simp add: ready_ok_def cache_ok_def)
next
  fix s d ok s'
  assume a: "ready_ok D s" "d \<in> D" "bcache_sync_dev d s = (ok, s')"
  then have "silent D s s'" "ok \<longrightarrow> (\<forall>n. view s' d n = dev_block (blk s') d n)"
    using bcache_sync_dev_spec [of D s d ok s'] by (simp_all add: ready_ok_def cache_ok_def)
  then show "ready_ok D s' \<and> (\<forall>e \<in> D. view s' e = view s e) \<and> (ok \<longrightarrow> dev_block (blk s') d = view s' d)"
    using a(1) by (auto simp: ready_ok_def cache_ok_def silent_def)
qed

section \<open>Devices that work\<close>

text \<open>No transfer faults and every disk is attached.\<close>

definition healthy :: "block_state \<Rightarrow> bool" where
  "healthy st \<longleftrightarrow> (\<forall>t. io_fault (hw st) t = None) \<and>
     (\<forall>i < length (g_disks st). disk_backend_present (snd (g_disks st ! i)) (hw st))"

lemma healthy_same:
  assumes "healthy st" "same_devices st st'" "io_fault (hw st') = io_fault (hw st)"
    "usb_storage_is_present (hw st') = usb_storage_is_present (hw st)"
  shows "healthy st'"
  using assms same_devices_ctx(1) [OF assms(2)] same_devices_length [OF assms(2)]
  by (simp add: healthy_def disk_backend_present_def cong: disk_backend.case_cong)

lemma sync_disk_healthy: "healthy st \<Longrightarrow> healthy (sync_disk_presence i st)"
  by (rule healthy_same [OF _ sync_disk_presence_same]) simp_all

lemma healthy_present:
  assumes "healthy st" "i < length (g_disks st)"
  shows "disk_present i (sync_disk_presence i st)" "present (fst (g_disks (sync_disk_presence i st) ! i))"
  using assms by (simp_all add: healthy_def disk_present_def sync_disk_presence_def case_prod_unfold Let_def)

lemma disk_transfer_live:
  assumes "healthy st" "block_wf st" "i < length (g_disks st)"
  shows "fst (disk_read i lba count buf st) \<and> healthy (snd (snd (disk_read i lba count buf st)))"
    "fst (disk_write i lba count buf st) \<and> healthy (snd (disk_write i lba count buf st))"
    "fst (disk_flush i st) \<and> healthy (snd (disk_flush i st))"
proof -
  let ?s = "sync_disk_presence i st"
  obtain d c where dc: "g_disks ?s ! i = (d, c)" by fastforce
  have c: "c = snd (g_disks st ! i)" using same_devices_ctx(1) [OF sync_disk_presence_same assms(3), of i] dc by simp
  have be: "backend c \<noteq> DISK_BACKEND_NONE" using assms(2,3) c by (auto simp: block_wf_def disk_ok_def)
  have p: "present d" using healthy_present(2) [OF assms(1,3)] dc by simp
  have f: "io_fault (hw st) t = None" for t using assms(1) by (simp add: healthy_def)
  have h: "healthy (?s\<lparr>hw := h\<rparr>)" if "io_fault h = io_fault (hw st)" "usb_storage_is_present h = usb_storage_is_present (hw st)" for h
    by (rule healthy_same [OF sync_disk_healthy [OF assms(1), of i]]) (use that in \<open>auto simp: same_devices_def\<close>)
  show "fst (disk_read i lba count buf st) \<and> healthy (snd (snd (disk_read i lba count buf st)))"
    "fst (disk_write i lba count buf st) \<and> healthy (snd (disk_write i lba count buf st))"
    "fst (disk_flush i st) \<and> healthy (snd (disk_flush i st))"
    using assms(3) dc be p f h
    by (simp_all add: disk_read_def disk_write_def disk_flush_def backend_read_def backend_write_def backend_flush_def
        transfer_def tick_def Let_def)
qed

lemma part_transfer_live:
  assumes "healthy st" "block_wf st" "i < length (g_parts st)" "0 < count" "dev_in_range st (PartDev i) lba count"
  shows "fst (part_read i lba count buf st) \<and> healthy (snd (snd (part_read i lba count buf st)))"
    "fst (part_write i lba count buf st) \<and> healthy (snd (part_write i lba count buf st))"
    "fst (part_flush i st) \<and> healthy (snd (part_flush i st))"
proof -
  let ?p = "snd (g_parts st ! i)"
  let ?s = "set_part_present i True (sync_disk_presence (parent ?p) st)"
  have par: "parent ?p < length (g_disks st)" using assms(2,3) nth_mem [OF assms(3)] by (auto simp: block_wf_def part_ok_def)
  have same: "same_devices st ?s"
    by (rule same_devices_trans [OF sync_disk_presence_same set_part_present_same]) (use assms(3) in simp)
  have s: "healthy ?s" "block_wf ?s" "parent ?p < length (g_disks ?s)"
    using healthy_same [OF assms(1) same] block_wf_same [OF assms(2) same] assms(2) par same_devices_length [OF same]
    by (simp_all add: block_wf_def)
  have "disk_present (parent ?p) (sync_disk_presence (parent ?p) st)" by (rule healthy_present(1) [OF assms(1) par])
  moreover have "part_in_bounds ?p lba count" using assms(4,5) by (auto simp: part_in_bounds_def)
  ultimately show "fst (part_read i lba count buf st) \<and> healthy (snd (snd (part_read i lba count buf st)))"
    "fst (part_write i lba count buf st) \<and> healthy (snd (part_write i lba count buf st))"
    "fst (part_flush i st) \<and> healthy (snd (part_flush i st))"
    using disk_transfer_live [OF s] assms(3,4) by (simp_all add: part_read_def part_write_def part_flush_def Let_def)
qed

lemma dev_transfer_live:
  assumes "healthy st" "dev_ok st d" "dev_in_range st d lba count" "0 < count"
  shows "fst (dev_read d lba count buf st)" "healthy (snd (snd (dev_read d lba count buf st)))"
    "fst (dev_write d lba count buf st)" "healthy (snd (dev_write d lba count buf st))"
    "fst (dev_flush d st)" "healthy (snd (dev_flush d st))"
  using assms disk_transfer_live [of st] part_transfer_live [of st _ count lba] by (cases d; simp add: dev_ok_def)+

lemma writeback_one_live:
  assumes inv: "bc_inv D s" and h: "healthy (blk s)" and i: "i < g_nbufs s"
  shows "fst (writeback_one i s)" "healthy (blk (snd (writeback_one i s)))"
proof -
  have "fst (writeback_one i s) \<and> healthy (blk (snd (writeback_one i s)))"
  proof (cases "valid (g_bufs s ! i) \<and> dirty (g_bufs s ! i)")
    case True
    let ?n = "b_block (g_bufs s ! i)"
    obtain d where d: "dev_ok (blk s) d" "holds s d ?n i" "?n < 2 ^ 61" "dev_in_range (blk s) d (8 * ?n) 8"
      using inv_valid [OF inv i] True by metis
    then show ?thesis
      using True dev_transfer_live(3,4) [OF h d(1,4)] sector_size_ok [OF d(1)] block_lba [OF d(3)]
      by (simp add: writeback_one_def dev_write_block_def holds_def case_prod_unfold Let_def mult.commute)
  qed (use h in \<open>auto simp: writeback_one_def\<close>)
  then show "fst (writeback_one i s)" "healthy (blk (snd (writeback_one i s)))" by blast+
qed

lemma bcache_fill_live:
  assumes "v < g_nbufs s" "healthy (blk s)" "dev_ok (blk s) d" "n < 2 ^ 61" "dev_in_range (blk s) d (8 * n) 8"
  shows "fst (bcache_fill d n v s) = Some v \<and> healthy (blk (snd (bcache_fill d n v s))) \<and> g_lru (snd (bcache_fill d n v s)) \<noteq> []"
  using assms dev_transfer_live(1,2) [OF assms(2,3,5)] sector_size_ok [OF assms(3)] block_lba [OF assms(4)]
  by (simp add: bcache_fill_def dev_read_block_def case_prod_unfold Let_def mult.commute)

text \<open>The cache can serve any block in range: it is set up, has a page, and the devices work.\<close>

definition cache_live :: "blockdev set \<Rightarrow> bcache \<Rightarrow> bool" where
  "cache_live D s \<longleftrightarrow> cache_ok D s \<and> healthy (blk s) \<and> bc_ready s \<and> g_lru s \<noteq> []"

lemma find_evictable_quiet:
  assumes "cache_ok D s" "g_lru s \<noteq> []"
  shows "find_evictable s = Some (last (g_lru s))" "last (g_lru s) < g_nbufs s"
proof -
  have "last (g_lru s) < g_nbufs s" using assms by (simp add: cache_ok_def bc_inv_def lru_ok_def)
  moreover from this have "refcnt (g_bufs s ! last (g_lru s)) = 0"
    using assms(1) by (auto simp: cache_ok_def refs_def)
  ultimately show "find_evictable s = Some (last (g_lru s))" "last (g_lru s) < g_nbufs s"
    using assms(2) by (cases "g_lru s" rule: rev_cases; simp add: find_evictable_def)+
qed

lemma bcache_get_live:
  assumes live: "cache_live D s" and d: "d \<in> D" "n < 2 ^ 61" "dev_in_range (blk s) d (8 * n) 8"
  shows "\<exists>i s'. bcache_get d n s = (Some i, s') \<and> healthy (blk s') \<and> g_lru s' \<noteq> []"
proof -
  have ok: "cache_ok D s" "bc_inv D s" "healthy (blk s)" "bc_ready s" "g_lru s \<noteq> []"
    using live by (simp_all add: cache_live_def cache_ok_def)
  have nb: "g_nbufs s \<noteq> 0" using find_evictable_quiet(2) [OF ok(1,5)] by auto
  show ?thesis
  proof (cases "ht_lookup d n s")
    case (Some b)
    then show ?thesis using ok(3,4) nb by (simp add: bcache_get_def)
  next
    case None
    define s1 where "s1 = upd_stats (\<lambda>t. t\<lparr>misses := misses t + 1\<rparr>) s"
    define v where "v = last (g_lru s)"
    have ok1: "cache_ok D s1" "bc_inv D s1" "healthy (blk s1)" "g_lru s1 = g_lru s" "blk s1 = blk s"
      using ok by (simp_all add: s1_def cache_ok_def refs_def)
    have v: "find_evictable s1 = Some v" "v < g_nbufs s1" using find_evictable_quiet [OF ok1(1)] ok1(4) ok(5) by (simp_all add: v_def)
    define w where "w = (if valid (g_bufs s1 ! v) \<and> dirty (g_bufs s1 ! v) then writeback_one v s1 else (True, s1))"
    have sil: "silent D s1 (snd w)"
      using writeback_one_spec [OF ok1(2) v(2)] silent_refl [OF ok1(2)] by (auto simp: w_def) (metis prod.collapse)
    have w: "fst w" "healthy (blk (snd w))" using writeback_one_live [OF ok1(2,3) v(2)] ok1(3) by (simp_all add: w_def)
    have dk: "dev_ok (blk (snd w)) d" "dev_in_range (blk (snd w)) d (8 * n) 8"
      using inv_dev_ok [OF silent_inv [OF sil] d(1)] dev_ok_location(2) [OF inv_dev_ok [OF ok1(2) d(1)], of "blk (snd w)"] sil d(3) ok1(5)
      by (simp_all add: silent_def)
    define s3 where "s3 = (if valid (g_bufs (snd w) ! v) then upd_stats (\<lambda>t. t\<lparr>evictions := evictions t + 1\<rparr>) (ht_remove v (snd w)) else snd w)"
    have "v < g_nbufs s3" "blk s3 = blk (snd w)" using v(2) silent_nbufs [OF sil] by (simp_all add: s3_def)
    then have "fst (bcache_fill d n v s3) = Some v \<and> healthy (blk (snd (bcache_fill d n v s3))) \<and> g_lru (snd (bcache_fill d n v s3)) \<noteq> []"
      using bcache_fill_live [of v s3 d n] w dk d(2) by simp
    moreover have "bcache_get d n s = bcache_fill d n v s3"
      unfolding bcache_get_def Let_def s1_def [symmetric] using ok(4) nb None v(1) w(1)
      by (simp add: w_def [symmetric] s3_def case_prod_unfold)
    ultimately show ?thesis by (metis prod.collapse)
  qed
qed

lemma bread_live:
  assumes live: "cache_live D s" and d: "d \<in> D" "n < 2 ^ 61" "dev_in_range (blk s) d (8 * n) 8"
  shows "\<exists>s'. bread d n s = (Some (view s d n), s') \<and> cache_live D s'"
proof -
  obtain i s1 where g: "bcache_get d n s = (Some i, s1)" "healthy (blk s1)" "g_lru s1 \<noteq> []"
    using bcache_get_live [OF assms] by blast
  let ?t = "bcache_put i s1"
  have r: "bread d n s = (Some (bcache_data i s1), ?t)" using g(1) by (simp add: bread_def)
  have ok: "cache_ok D s" "bc_ready s" using live by (simp_all add: cache_live_def)
  then have "ready_ok D ?t" "bcache_data i s1 = view s d n"
    using sc.read_law [OF _ d(1,2) r] by (simp_all add: ready_ok_def)
  moreover have "healthy (blk ?t)" "g_lru ?t \<noteq> []" using g by (simp_all add: bcache_put_def)
  ultimately show ?thesis using r by (simp add: cache_live_def ready_ok_def)
qed

lemma bmodify_live:
  assumes live: "cache_live D s" and d: "d \<in> D" "n < 2 ^ 61" "dev_in_range (blk s) d (8 * n) 8"
    and f: "\<And>bs. length bs = BCACHE_BLOCK_SIZE \<Longrightarrow> length (f bs) = BCACHE_BLOCK_SIZE"
  shows "\<exists>s'. bmodify d n f s = (True, s') \<and> cache_live D s'"
proof -
  obtain i s1 where g: "bcache_get d n s = (Some i, s1)" "healthy (blk s1)" "g_lru s1 \<noteq> []"
    using bcache_get_live [OF live d] by blast
  let ?t = "bcache_put i (bcache_store i (f (bcache_data i s1)) s1)"
  have r: "bmodify d n f s = (True, ?t)" using g(1) by (simp add: bmodify_def)
  have "ready_ok D s" using live by (simp add: cache_live_def ready_ok_def)
  then have "ready_ok D ?t" using sc.mod_law [OF _ d(1,2) f r] by blast
  moreover have "healthy (blk ?t)" "g_lru ?t \<noteq> []" using g by (simp_all add: bcache_put_def bcache_store_def bcache_mark_dirty_def)
  ultimately show ?thesis using r by (simp add: cache_live_def ready_ok_def)
qed

section \<open>Properties\<close>

text \<open>A cache of one buffer over the example disk and its partition.\<close>

definition example_cache :: bcache where
  "example_cache = bcache_init True 1
     \<lparr>g_bufs = [], g_ht = [], g_lru = [],
      g_stats = \<lparr>hits = 0, misses = 0, evictions = 0, writebacks = 0, sync_calls = 0, total_bufs = 0, used_bufs = 0, dirty_bufs = 0\<rparr>,
      bc_ready = False, dev_addr = (\<lambda>_. 0), blk = example_block\<rparr>"

lemma example_devs: "devs_ok {PartDev 0} example_block"
  using example_block_wf by (simp add: devs_ok_def example_block_def)

lemma example_cache_ready: "ready_ok {PartDev 0} example_cache"
  unfolding example_cache_def ready_ok_def cache_ok_def
  by (intro conjI bcache_init_inv [where D = "{PartDev 0}"]) (simp_all add: example_devs)

lemma example_cache_live: "cache_live {PartDev 0} example_cache"
proof -
  have "fst (pmm_alloc example_pmm) \<noteq> 0" by (simp add: example_pmm_eval example_pmm_bits)
  then have "healthy (blk example_cache) \<and> g_lru example_cache \<noteq> []"
    by (simp add: example_cache_def bcache_init_def init_buf_def lru_push_front_def example_block_def Let_def
        case_prod_unfold healthy_def example_hw_def disk_backend_present_def)
  then show ?thesis using example_cache_ready by (simp add: cache_live_def ready_ok_def)
qed

text \<open>C1: the cache is transparent. Whatever a client reads, writes and syncs, and whichever transfers fail, every block it
  gets is what an array of blocks would have returned after the writes that succeeded, and the
  contents at the end are those of that array: eviction and write-back lose and invent nothing.\<close>

theorem cache_sessions_transparent:
  assumes "ready_ok D s" and "\<forall>op \<in> set ops. op_ok D op" and "run_store bread bmodify bcache_sync_dev ops s = (rs, s')"
  shows "\<exists>a. replay ops rs (view s) = Some a \<and> (\<forall>d \<in> D. view s' d = a d) \<and> ready_ok D s'"
  by (rule sc.session_replay [OF assms]) simp

theorem cache_sessions_transparent_witness:
  "\<exists>a. replay [Update (PartDev 0) 1 (replicate 4096 5), Fetch (PartDev 0) 2, Fetch (PartDev 0) 1]
      (fst (run_store bread bmodify bcache_sync_dev
        [Update (PartDev 0) 1 (replicate 4096 5), Fetch (PartDev 0) 2, Fetch (PartDev 0) 1] example_cache))
      (view example_cache) = Some a"
  using cache_sessions_transparent [OF example_cache_ready _ prod.collapse [symmetric],
    of "[Update (PartDev 0) 1 (replicate 4096 5), Fetch (PartDev 0) 2, Fetch (PartDev 0) 1]"] by auto

text \<open>C2: when \<open>bcache_sync_dev\<close> returns true, the device holds exactly what the clients see, and
  what they see has not changed.\<close>

theorem bcache_sync_dev_durable:
  assumes "ready_ok D s" and "d \<in> D" and "bcache_sync_dev d s = (True, s')"
  shows "dev_block (blk s') d = view s d \<and> ready_ok D s'"
  using sc.sync_law [OF assms] assms(2) by simp

lemma example_cache_parts: "g_parts (blk example_cache) = g_parts example_block"
  by (simp add: example_cache_def bcache_init_def init_buf_def lru_push_front_def Let_def case_prod_unfold)

theorem bcache_sync_dev_durable_witness:
  "dev_block (blk (snd (bcache_sync_dev (PartDev 0) example_cache))) (PartDev 0) = view example_cache (PartDev 0)"
proof -
  have "g_bufs example_cache = [empty_buf\<lparr>b_data := replicate 4096 0\<rparr>]"
    using example_pmm_bits
    by (simp add: example_cache_def bcache_init_def init_buf_def lru_push_front_def upd_buf_def example_block_def Let_def
        case_prod_unfold example_pmm_eval)
  then have "fst (bcache_sync_dev (PartDev 0) example_cache)"
    using example_cache_live dev_transfer_live(5) [of "blk example_cache" "PartDev 0" 0 1]
      inv_dev_ok [of "{PartDev 0}" example_cache "PartDev 0"] example_cache_ready example_cache_parts
    by (simp add: bcache_sync_dev_def sync_one_def empty_buf_def case_prod_unfold Let_def example_block_def cache_live_def ready_ok_def cache_ok_def)
  then have "bcache_sync_dev (PartDev 0) example_cache = (True, snd (bcache_sync_dev (PartDev 0) example_cache))"
    by (metis (full_types) prod.collapse)
  from bcache_sync_dev_durable [OF example_cache_ready _ this] show ?thesis by simp
qed

text \<open>C3: whatever \<open>bcache_get\<close> returns, a buffer in use is not touched: a buffer with a reference keeps its block, its data
  and its dirty bit, no two buffers hold the same block, and the buffer returned holds the block asked
  for, with its contents.\<close>

theorem bcache_get_correct:
  assumes "bc_inv D s" and "d \<in> D" and "n < 2 ^ 61" and "bcache_get d n s = (r, s')"
  shows "bc_inv D s' \<and> no_dups s' \<and>
    (\<forall>j. j < g_nbufs s \<longrightarrow> 0 < refcnt (g_bufs s ! j) \<longrightarrow> unpin (g_bufs s' ! j) = unpin (g_bufs s ! j)) \<and>
    (\<forall>i. r = Some i \<longrightarrow> holds s' d n i \<and> bcache_data i s' = view s d n)"
proof -
  have g: "got D s d n r s'" by (rule bcache_get_spec [OF assms])
  then have inv: "bc_inv D s'" "no_dups s'" "view s' d n = view s d n" using assms(2) by (auto simp: got_def bc_inv_def)
  have "g_nbufs s' = g_nbufs s"
    using g by (cases r) (auto simp: got_def refs_def dest!: arg_cong [where f = length])
  then have "holds s' d n i \<and> bcache_data i s' = view s d n" if "r = Some i" for i
    using g that view_held [OF inv(2), of i d n] inv(3) by (auto simp: got_def bcache_data_def)
  then show ?thesis using g inv by (simp add: got_def)
qed

theorem bcache_get_correct_witness:
  "no_dups (snd (bcache_get (PartDev 0) 3 example_cache))"
  using bcache_get_correct [of "{PartDev 0}" example_cache "PartDev 0" 3, OF _ _ _ prod.collapse [symmetric]] example_cache_ready
  by (simp add: ready_ok_def cache_ok_def)

text \<open>C4: \<open>bcache_get\<close> succeeds for every block of a device in use when the devices work and no buffer
  is pinned: a dirty victim is written back, and one page of memory is enough.\<close>

theorem bcache_get_succeeds:
  assumes "cache_live D s" and "d \<in> D" and "n < 2 ^ 61" and "dev_in_range (blk s) d (8 * n) 8"
  shows "\<exists>i s'. bcache_get d n s = (Some i, s') \<and> bcache_data i s' = view s d n"
proof -
  obtain i s' where g: "bcache_get d n s = (Some i, s')" using bcache_get_live [OF assms] by blast
  have ok: "cache_ok D s" using assms(1) by (simp add: cache_live_def)
  then have "got D s d n (Some i) s'" by (intro bcache_get_spec [OF _ assms(2,3) g]) (simp add: cache_ok_def)
  from got_Some(4) [OF ok assms(2) this] show ?thesis using g by blast
qed

theorem bcache_get_succeeds_witness:
  "\<exists>i s'. bcache_get (PartDev 0) 3 example_cache = (Some i, s') \<and> bcache_data i s' = view example_cache (PartDev 0) 3"
proof (rule bcache_get_succeeds [OF example_cache_live])
  show "dev_in_range (blk example_cache) (PartDev 0) (8 * 3) 8"
    by (simp add: example_cache_parts example_block_def)
qed simp_all

end
