(* ===== verification/Kifs_Disk.thy ===== *)
theory Kifs_Disk
  imports Crc32 Bitmap Bcache
begin

text \<open>
  The on-disk format of KiFS: \<open>src/src/fs/kifs/kifs_disk.h\<close> and the pure parts of
  \<open>src/src/fs/kifs/kifs.c\<close>, the validation of blocks, superblocks, inodes and extent nodes and the
  parsing and editing of a directory block. A block is a list of 4096 bytes, the C code's casts of
  it to packed structs are reads and writes of little-endian fields at the struct's offsets, and where it copies
  a struct with \<open>memcpy\<close>, functions such as \<open>decode_inode\<close> and \<open>encode_inode\<close> say which bytes are which fields. The
  fields are natural numbers; 32-bit arithmetic of the code wraps (\<open>add32\<close>, \<open>sub32\<close>).
  Names are C strings: byte lists without a zero.
  Proved here: values whose fields fit their widths survive being stored and loaded, a block that is re-checksummed
  validates, and with checksums on, damage to a block on one side of its checksum field, or to the field itself, is
  detected. What editing does to the listing of a directory block is in \<open>Kifs_Dir\<close>.
\<close>

unbundle bit_operations_syntax

section \<open>Fields of a block\<close>

definition rd_le :: "nat \<Rightarrow> nat \<Rightarrow> bytes \<Rightarrow> nat" where
  "rd_le n off b = le_nat (slice off n b)"

definition wr_le :: "nat \<Rightarrow> nat \<Rightarrow> nat \<Rightarrow> bytes \<Rightarrow> bytes" where
  "wr_le n off v b = splice off (bytes_le n v) b"

definition add32 :: "nat \<Rightarrow> nat \<Rightarrow> nat" where
  "add32 a b = (a + b) mod 2 ^ 32"

definition sub32 :: "nat \<Rightarrow> nat \<Rightarrow> nat" where
  "sub32 a b = (a + 2 ^ 32 - b) mod 2 ^ 32"

abbreviation (input) KIFS_BLOCK_SIZE :: nat where "KIFS_BLOCK_SIZE \<equiv> 4096"
abbreviation (input) SHDR_SIZE :: nat where "SHDR_SIZE \<equiv> 20"
abbreviation (input) EXT_HDR_SIZE :: nat where "EXT_HDR_SIZE \<equiv> 28"
abbreviation (input) INODE_SIZE :: nat where "INODE_SIZE \<equiv> 256"
abbreviation (input) KIFS_BITMAP_PAYLOAD_BYTES :: nat where "KIFS_BITMAP_PAYLOAD_BYTES \<equiv> 4076"
abbreviation (input) KIFS_BITMAP_BITS_PER_BLOCK :: nat where "KIFS_BITMAP_BITS_PER_BLOCK \<equiv> 32608"

definition KIFS_MAGIC_SUPER :: bytes where "KIFS_MAGIC_SUPER = [0x4B, 0x49, 0x46, 0x53]"
definition KIFS_MAGIC_INODE :: bytes where "KIFS_MAGIC_INODE = [0x4B, 0x49, 0x4E, 0x4F]"
definition KIFS_MAGIC_DIR :: bytes where "KIFS_MAGIC_DIR = [0x4B, 0x44, 0x49, 0x52]"
definition KIFS_MAGIC_EXT :: bytes where "KIFS_MAGIC_EXT = [0x4B, 0x45, 0x58, 0x54]"
definition KIFS_MAGIC_BMB :: bytes where "KIFS_MAGIC_BMB = [0x4B, 0x42, 0x4D, 0x42]"
definition KIFS_MAGIC_IMB :: bytes where "KIFS_MAGIC_IMB = [0x4B, 0x49, 0x4D, 0x42]"

abbreviation (input) KIFS_STRUCT_VERSION :: nat where "KIFS_STRUCT_VERSION \<equiv> 1"
abbreviation (input) KIFS_BTYPE_SUPER :: nat where "KIFS_BTYPE_SUPER \<equiv> 1"
abbreviation (input) KIFS_BTYPE_BMB :: nat where "KIFS_BTYPE_BMB \<equiv> 2"
abbreviation (input) KIFS_BTYPE_IMB :: nat where "KIFS_BTYPE_IMB \<equiv> 3"
abbreviation (input) KIFS_BTYPE_DIR :: nat where "KIFS_BTYPE_DIR \<equiv> 4"
abbreviation (input) KIFS_BTYPE_EXT :: nat where "KIFS_BTYPE_EXT \<equiv> 5"
abbreviation (input) KIFS_INO_T_FILE :: nat where "KIFS_INO_T_FILE \<equiv> 1"
abbreviation (input) KIFS_INO_T_DIR :: nat where "KIFS_INO_T_DIR \<equiv> 2"

section \<open>Structures\<close>

text \<open>The structured header at the start of a block.\<close>

record kifs_shdr =
  h_magic :: bytes
  h_version :: nat
  h_block_type :: nat
  h_header_bytes :: nat
  h_payload_bytes :: nat
  h_flags :: nat
  h_checksum :: nat

definition shdr_of :: "bytes \<Rightarrow> kifs_shdr" where
  "shdr_of b = \<lparr>h_magic = slice 0 4 b, h_version = rd_le 2 4 b, h_block_type = rd_le 2 6 b,
     h_header_bytes = rd_le 2 8 b, h_payload_bytes = rd_le 2 10 b, h_flags = rd_le 4 12 b, h_checksum = rd_le 4 16 b\<rparr>"

definition put_shdr :: "kifs_shdr \<Rightarrow> bytes" where
  "put_shdr h = h_magic h @ bytes_le 2 (h_version h) @ bytes_le 2 (h_block_type h) @ bytes_le 2 (h_header_bytes h) @
     bytes_le 2 (h_payload_bytes h) @ bytes_le 4 (h_flags h) @ bytes_le 4 (h_checksum h)"

record kifs_superblock =
  sb_h :: kifs_shdr
  sb_fs_major :: nat
  sb_fs_minor :: nat
  sb_block_size :: nat
  sb_blockno :: nat
  sb_dirty :: nat
  sb_features_compat :: nat
  sb_features_ro_compat :: nat
  sb_features_incompat :: nat
  sb_total_blocks :: nat
  sb_usable_blocks :: nat
  sb_journal_start :: nat
  sb_journal_blocks :: nat
  sb_block_bitmap_start :: nat
  sb_block_bitmap_blocks :: nat
  sb_inode_bitmap_start :: nat
  sb_inode_bitmap_blocks :: nat
  sb_inode_table_start :: nat
  sb_inode_table_blocks :: nat
  sb_data_start :: nat
  sb_data_blocks :: nat
  sb_inode_count :: nat
  sb_root_ino :: nat
  sb_orphan_ino :: nat
  sb_seq :: nat
  sb_mount_count :: nat
  sb_last_mount_time :: nat
  sb_pad :: bytes

definition decode_sb :: "bytes \<Rightarrow> kifs_superblock" where
  "decode_sb b = \<lparr>sb_h = shdr_of b, sb_fs_major = rd_le 2 20 b, sb_fs_minor = rd_le 2 22 b,
     sb_block_size = rd_le 4 24 b, sb_blockno = rd_le 4 28 b, sb_dirty = rd_le 4 32 b,
     sb_features_compat = rd_le 4 36 b, sb_features_ro_compat = rd_le 4 40 b, sb_features_incompat = rd_le 4 44 b,
     sb_total_blocks = rd_le 4 48 b, sb_usable_blocks = rd_le 4 52 b,
     sb_journal_start = rd_le 4 56 b, sb_journal_blocks = rd_le 4 60 b,
     sb_block_bitmap_start = rd_le 4 64 b, sb_block_bitmap_blocks = rd_le 4 68 b,
     sb_inode_bitmap_start = rd_le 4 72 b, sb_inode_bitmap_blocks = rd_le 4 76 b,
     sb_inode_table_start = rd_le 4 80 b, sb_inode_table_blocks = rd_le 4 84 b,
     sb_data_start = rd_le 4 88 b, sb_data_blocks = rd_le 4 92 b,
     sb_inode_count = rd_le 4 96 b, sb_root_ino = rd_le 4 100 b, sb_orphan_ino = rd_le 4 104 b,
     sb_seq = rd_le 8 108 b, sb_mount_count = rd_le 8 116 b, sb_last_mount_time = rd_le 8 124 b,
     sb_pad = slice 132 3964 b\<rparr>"

definition encode_sb :: "kifs_superblock \<Rightarrow> bytes" where
  "encode_sb sb = put_shdr (sb_h sb) @ bytes_le 2 (sb_fs_major sb) @ bytes_le 2 (sb_fs_minor sb) @
     bytes_le 4 (sb_block_size sb) @ bytes_le 4 (sb_blockno sb) @ bytes_le 4 (sb_dirty sb) @
     bytes_le 4 (sb_features_compat sb) @ bytes_le 4 (sb_features_ro_compat sb) @ bytes_le 4 (sb_features_incompat sb) @
     bytes_le 4 (sb_total_blocks sb) @ bytes_le 4 (sb_usable_blocks sb) @
     bytes_le 4 (sb_journal_start sb) @ bytes_le 4 (sb_journal_blocks sb) @
     bytes_le 4 (sb_block_bitmap_start sb) @ bytes_le 4 (sb_block_bitmap_blocks sb) @
     bytes_le 4 (sb_inode_bitmap_start sb) @ bytes_le 4 (sb_inode_bitmap_blocks sb) @
     bytes_le 4 (sb_inode_table_start sb) @ bytes_le 4 (sb_inode_table_blocks sb) @
     bytes_le 4 (sb_data_start sb) @ bytes_le 4 (sb_data_blocks sb) @
     bytes_le 4 (sb_inode_count sb) @ bytes_le 4 (sb_root_ino sb) @ bytes_le 4 (sb_orphan_ino sb) @
     bytes_le 8 (sb_seq sb) @ bytes_le 8 (sb_mount_count sb) @ bytes_le 8 (sb_last_mount_time sb) @ sb_pad sb"

record kifs_extent =
  e_file :: nat
  e_disk :: nat
  e_count :: nat

definition decode_extent :: "bytes \<Rightarrow> kifs_extent" where
  "decode_extent b = \<lparr>e_file = rd_le 4 0 b, e_disk = rd_le 4 4 b, e_count = rd_le 4 8 b\<rparr>"

definition encode_extent :: "kifs_extent \<Rightarrow> bytes" where
  "encode_extent e = bytes_le 4 (e_file e) @ bytes_le 4 (e_disk e) @ bytes_le 4 (e_count e)"

record kifs_inode =
  i_magic :: bytes
  i_version :: nat
  i_type :: nat
  i_mode :: nat
  i_uid :: nat
  i_gid :: nat
  i_link_count :: nat
  i_size :: nat
  i_mtime :: nat
  i_ctime :: nat
  i_inline_count :: nat
  i_height :: nat
  i_root :: nat
  i_extents :: "kifs_extent list"
  i_checksum :: nat
  i_reserved :: bytes

definition decode_inode :: "bytes \<Rightarrow> kifs_inode" where
  "decode_inode b = \<lparr>i_magic = slice 0 4 b, i_version = rd_le 2 4 b, i_type = rd_le 2 6 b, i_mode = rd_le 4 8 b,
     i_uid = rd_le 4 12 b, i_gid = rd_le 4 16 b, i_link_count = rd_le 4 20 b, i_size = rd_le 8 24 b,
     i_mtime = rd_le 8 32 b, i_ctime = rd_le 8 40 b, i_inline_count = rd_le 2 48 b, i_height = rd_le 2 50 b,
     i_root = rd_le 4 52 b, i_extents = map (\<lambda>i. decode_extent (slice (56 + 12 * i) 12 b)) [0..<8],
     i_checksum = rd_le 4 152 b, i_reserved = slice 156 100 b\<rparr>"

definition encode_inode :: "kifs_inode \<Rightarrow> bytes" where
  "encode_inode i = i_magic i @ bytes_le 2 (i_version i) @ bytes_le 2 (i_type i) @ bytes_le 4 (i_mode i) @
     bytes_le 4 (i_uid i) @ bytes_le 4 (i_gid i) @ bytes_le 4 (i_link_count i) @ bytes_le 8 (i_size i) @
     bytes_le 8 (i_mtime i) @ bytes_le 8 (i_ctime i) @ bytes_le 2 (i_inline_count i) @ bytes_le 2 (i_height i) @
     bytes_le 4 (i_root i) @ concat (map encode_extent (i_extents i)) @ bytes_le 4 (i_checksum i) @ i_reserved i"

definition no_extent :: kifs_extent where
  "no_extent = \<lparr>e_file = 0, e_disk = 0, e_count = 0\<rparr>"

text \<open>\<open>memset\<close> to zero.\<close>

definition null_inode :: kifs_inode where
  "null_inode = \<lparr>i_magic = [0, 0, 0, 0], i_version = 0, i_type = 0, i_mode = 0, i_uid = 0, i_gid = 0, i_link_count = 0,
     i_size = 0, i_mtime = 0, i_ctime = 0, i_inline_count = 0, i_height = 0, i_root = 0,
     i_extents = replicate 8 no_extent, i_checksum = 0, i_reserved = replicate 100 0\<rparr>"

definition inode_zero :: kifs_inode where
  "inode_zero = null_inode\<lparr>i_magic := KIFS_MAGIC_INODE, i_version := 1\<rparr>"

text \<open>The mounted file system.\<close>

record kifs_fs =
  fs_dev :: blockdev
  fs_sb :: kifs_superblock
  fs_dev_blocks :: nat
  fs_usable_blocks :: nat
  fs_data_start :: nat
  fs_data_end :: nat
  fs_journal_start :: nat
  fs_readonly :: bool
  fs_meta_crc :: bool

section \<open>Validation\<close>

definition magic_eq :: "bytes \<Rightarrow> bytes \<Rightarrow> bool" where
  "magic_eq m s = (m ! 0 = s ! 0 \<and> m ! 1 = s ! 1 \<and> m ! 2 = s ! 2 \<and> m ! 3 = s ! 3)"

definition calc_block_crc32 :: "bytes \<Rightarrow> nat" where
  "calc_block_crc32 b = unat (crc32_ieee (wr_le 4 16 0 b))"

definition validate_shdr :: "bytes \<Rightarrow> bytes \<Rightarrow> nat \<Rightarrow> bool \<Rightarrow> bool" where
  "validate_shdr b magic typ require_crc =
     (let h = shdr_of b in
      magic_eq (h_magic h) magic \<and> h_version h = KIFS_STRUCT_VERSION \<and> h_block_type h = typ \<and>
      \<not> (h_header_bytes h < SHDR_SIZE \<or> h_header_bytes h > KIFS_BLOCK_SIZE) \<and>
      \<not> h_payload_bytes h > KIFS_BLOCK_SIZE \<and>
      \<not> add32 (h_header_bytes h) (h_payload_bytes h) > KIFS_BLOCK_SIZE \<and>
      (require_crc \<longrightarrow> calc_block_crc32 b = h_checksum h))"

definition sb_layout_sane :: "kifs_superblock \<Rightarrow> nat \<Rightarrow> bool" where
  "sb_layout_sane sb dev_blocks =
     (sb_block_size sb = KIFS_BLOCK_SIZE \<and> sb_total_blocks sb \<noteq> 0 \<and> \<not> sb_total_blocks sb > dev_blocks \<and>
      \<not> sb_usable_blocks sb > sb_total_blocks sb \<and> sb_journal_start sb = sb_usable_blocks sb \<and>
      add32 (sb_journal_start sb) (sb_journal_blocks sb) = sb_total_blocks sb \<and>
      \<not> (0 \<ge> sb_usable_blocks sb \<or> 1 \<ge> sb_usable_blocks sb) \<and>
      (let u = sb_usable_blocks sb;
           bb_end = add32 (sb_block_bitmap_start sb) (sb_block_bitmap_blocks sb);
           ib_end = add32 (sb_inode_bitmap_start sb) (sb_inode_bitmap_blocks sb);
           it_end = add32 (sb_inode_table_start sb) (sb_inode_table_blocks sb);
           d_end = add32 (sb_data_start sb) (sb_data_blocks sb) in
       \<not> sb_block_bitmap_start sb < 2 \<and> \<not> bb_end > u \<and> \<not> sb_inode_bitmap_start sb < bb_end \<and> \<not> ib_end > u \<and>
       \<not> sb_inode_table_start sb < ib_end \<and> \<not> it_end > u \<and> \<not> sb_data_start sb < it_end \<and> d_end = u) \<and>
      sb_inode_count sb \<noteq> 0 \<and> sb_root_ino sb = 1 \<and> \<not> sb_root_ino sb \<ge> sb_inode_count sb \<and>
      sb_inode_table_blocks sb = add32 (sb_inode_count sb) 15 div 16)"

definition disk_block_in_data_region :: "kifs_fs \<Rightarrow> nat \<Rightarrow> nat \<Rightarrow> bool" where
  "disk_block_in_data_region fs b count =
     (count \<noteq> 0 \<and> \<not> b < fs_data_start fs \<and> \<not> b + count > fs_data_end fs \<and>
      \<not> b \<ge> fs_journal_start fs \<and> \<not> b + count > fs_journal_start fs)"

text \<open>The loop over sorted extents, shared by inodes and leaf nodes; \<open>prev\<close> is the end of the
  extent before, if there is one.\<close>

fun extents_ok :: "kifs_fs \<Rightarrow> nat option \<Rightarrow> kifs_extent list \<Rightarrow> bool" where
  "extents_ok fs prev [] = True"
| "extents_ok fs prev (e # es) =
     (e_count e \<noteq> 0 \<and> (case prev of None \<Rightarrow> True | Some p \<Rightarrow> \<not> e_file e < p) \<and>
      disk_block_in_data_region fs (e_disk e) (e_count e) \<and>
      extents_ok fs (Some (add32 (e_file e) (e_count e))) es)"

definition inode_validate :: "kifs_fs \<Rightarrow> kifs_inode \<Rightarrow> bool" where
  "inode_validate fs ino =
     (magic_eq (i_magic ino) KIFS_MAGIC_INODE \<and> i_version ino = 1 \<and>
      (i_type ino = KIFS_INO_T_FILE \<or> i_type ino = KIFS_INO_T_DIR) \<and>
      \<not> i_inline_count ino > 8 \<and> \<not> i_height ino > 3 \<and>
      extents_ok fs None (take (i_inline_count ino) (i_extents ino)) \<and>
      (if i_height ino = 0 then i_root ino = 0
       else i_root ino \<noteq> 0 \<and> disk_block_in_data_region fs (i_root ino) 1))"

section \<open>Extent mapping\<close>

definition extent_covers :: "kifs_extent \<Rightarrow> nat \<Rightarrow> bool" where
  "extent_covers e fb = (fb \<ge> e_file e \<and> fb < add32 (e_file e) (e_count e))"

definition extent_target :: "kifs_extent \<Rightarrow> nat \<Rightarrow> nat" where
  "extent_target e fb = add32 (e_disk e) (sub32 fb (e_file e))"

definition map_inline :: "kifs_inode \<Rightarrow> nat \<Rightarrow> nat option" where
  "map_inline ino fb =
     map_option (\<lambda>e. extent_target e fb)
       (find (\<lambda>e. extent_covers e fb) (take (i_inline_count ino) (i_extents ino)))"

text \<open>The header of an extent-tree node follows the structured header.\<close>

definition node_type :: "bytes \<Rightarrow> nat" where "node_type b = rd_le 2 20 b"
definition node_height :: "bytes \<Rightarrow> nat" where "node_height b = rd_le 2 22 b"
definition node_entry_count :: "bytes \<Rightarrow> nat" where "node_entry_count b = rd_le 2 24 b"

definition internal_ents :: "bytes \<Rightarrow> (nat \<times> nat) list" where
  "internal_ents b =
     (let p = h_header_bytes (shdr_of b) in
      map (\<lambda>i. (rd_le 4 (p + i * 8) b, rd_le 4 (p + i * 8 + 4) b)) [0..<node_entry_count b])"

definition leaf_ents :: "bytes \<Rightarrow> kifs_extent list" where
  "leaf_ents b =
     (let p = h_header_bytes (shdr_of b) in
      map (\<lambda>i. decode_extent (slice (p + i * 12) 12 b)) [0..<node_entry_count b])"

fun internal_ok :: "kifs_fs \<Rightarrow> nat option \<Rightarrow> (nat \<times> nat) list \<Rightarrow> bool" where
  "internal_ok fs prev [] = True"
| "internal_ok fs prev ((key, child) # es) =
     ((case prev of None \<Rightarrow> True | Some p \<Rightarrow> \<not> key < p) \<and> disk_block_in_data_region fs child 1 \<and>
      internal_ok fs (Some key) es)"

definition extnode_validate :: "kifs_fs \<Rightarrow> bytes \<Rightarrow> bool" where
  "extnode_validate fs b =
     (let h = shdr_of b; ty = node_type b; ht = node_height b; n = node_entry_count b;
          entry_size = (if ty = 1 then 8 else 12) in
      validate_shdr b KIFS_MAGIC_EXT KIFS_BTYPE_EXT (fs_meta_crc fs) \<and>
      (ty = 0 \<or> ty = 1) \<and> \<not> ht > 3 \<and>
      \<not> (h_header_bytes h < EXT_HDR_SIZE \<or> h_header_bytes h > 4096) \<and>
      \<not> n * entry_size > h_payload_bytes h \<and>
      \<not> add32 (h_header_bytes h) (h_payload_bytes h) > 4096 \<and>
      \<not> (ty = 0 \<and> ht \<noteq> 0) \<and> \<not> (ty = 1 \<and> ht = 0) \<and>
      (if ty = 1 then internal_ok fs None (internal_ents b) else extents_ok fs None (leaf_ents b)))"

text \<open>The child to descend to: the last entry before the first whose key is beyond the block.\<close>

fun best_child :: "nat \<Rightarrow> nat option \<Rightarrow> (nat \<times> nat) list \<Rightarrow> nat option" where
  "best_child fb best [] = best"
| "best_child fb best ((key, child) # es) = (if key \<le> fb then best_child fb (Some child) es else best)"

fun leaf_find :: "nat \<Rightarrow> kifs_extent list \<Rightarrow> nat option" where
  "leaf_find fb [] = None"
| "leaf_find fb (e # es) =
     (if extent_covers e fb then Some (extent_target e fb)
      else if e_file e > fb then None else leaf_find fb es)"

section \<open>Directory blocks\<close>

definition cstr :: "bytes \<Rightarrow> bytes" where
  "cstr b = takeWhile (\<lambda>c. c \<noteq> 0) b"

definition structured_rechecksum :: "bytes \<Rightarrow> bool \<Rightarrow> bytes" where
  "structured_rechecksum b with_crc =
     (let b0 = wr_le 4 16 0 b in if with_crc then wr_le 4 16 (unat (crc32_ieee b0)) b0 else b0)"

definition init_bitmap_block :: "bytes \<Rightarrow> nat \<Rightarrow> bool \<Rightarrow> bytes" where
  "init_bitmap_block magic btype with_crc =
     (let b = splice 0 (put_shdr \<lparr>h_magic = magic, h_version = KIFS_STRUCT_VERSION, h_block_type = btype,
                h_header_bytes = SHDR_SIZE, h_payload_bytes = KIFS_BITMAP_PAYLOAD_BYTES, h_flags = 0, h_checksum = 0\<rparr>)
                (replicate 4096 0)
      in if with_crc then wr_le 4 16 (unat (crc32_ieee b)) b else b)"

definition init_dir_block :: "nat \<Rightarrow> bool \<Rightarrow> bytes" where
  "init_dir_block parent_hint with_crc =
     (let b = splice 0 (put_shdr \<lparr>h_magic = KIFS_MAGIC_DIR, h_version = KIFS_STRUCT_VERSION, h_block_type = KIFS_BTYPE_DIR,
                h_header_bytes = SHDR_SIZE + 4, h_payload_bytes = 4096 - (SHDR_SIZE + 4), h_flags = 0, h_checksum = 0\<rparr>)
                (replicate 4096 0);
          b = wr_le 4 20 parent_hint b
      in if with_crc then wr_le 4 16 (unat (crc32_ieee b)) b else b)"

definition dir_rec_len :: "nat \<Rightarrow> nat" where
  "dir_rec_len name_len = (8 + name_len + 7) div 8 * 8"

text \<open>\<open>name\<close> has fewer than 256 characters: \<open>namelen\<close> is its length as an \<open>uint8_t\<close>.\<close>

definition dir_write_ent :: "bytes \<Rightarrow> nat \<Rightarrow> nat \<Rightarrow> bytes \<Rightarrow> nat \<Rightarrow> nat \<Rightarrow> bytes" where
  "dir_write_ent b off ino name ftype rec_len =
     (let namelen = length name mod 256 in
      splice off (bytes_le 4 ino @ bytes_le 2 rec_len @ bytes_le 1 namelen @ bytes_le 1 ftype @ take namelen name) b)"

text \<open>The block that \<open>kifs_vnode_mkdir\<close> writes for a new directory.\<close>

definition new_dir_block :: "nat \<Rightarrow> nat \<Rightarrow> bool \<Rightarrow> bytes" where
  "new_dir_block self par crc =
     (let b0 = init_dir_block par crc;
          hb = h_header_bytes (shdr_of b0);
          r1 = dir_rec_len 1;
          r2 = (KIFS_BLOCK_SIZE - hb - hb - r1) div 8 * 8;
          r2 = (if r2 < dir_rec_len 2 then dir_rec_len 2 else r2);
          b1 = dir_write_ent b0 hb self [0x2E] 2 r1
      in structured_rechecksum (dir_write_ent b1 (hb + r1) par [0x2E, 0x2E] 2 r2) crc)"

text \<open>One pass over the records of a directory block. The callback gets the name and the inode and
  says whether to go on.\<close>

function parse_loop :: "bytes \<Rightarrow> nat \<Rightarrow> nat \<Rightarrow> (bytes \<Rightarrow> nat \<Rightarrow> 'u \<Rightarrow> bool \<times> 'u) \<Rightarrow> 'u \<Rightarrow> bool \<times> 'u" where
  "parse_loop b stop off cb user =
     (if off + 8 \<le> stop then
        let ino = rd_le 4 off b; reclen = rd_le 2 (off + 4) b; namelen = rd_le 1 (off + 6) b in
        if reclen < 8 + namelen then (True, user)
        else if reclen mod 8 \<noteq> 0 then (True, user)
        else if off + reclen > stop then (True, user)
        else if ino \<noteq> 0 then
          let (go, user') = cb (cstr (slice (off + 8) namelen b)) ino user in
          if \<not> go then (False, user') else parse_loop b stop (off + reclen) cb user'
        else parse_loop b stop (off + reclen) cb user
      else (True, user))"
  by pat_completeness auto
termination
  by (relation "measure (\<lambda>(b, stop, off, cb, user). stop - off)") auto

declare parse_loop.simps [simp del]

definition parse_dir_block :: "kifs_fs \<Rightarrow> bytes \<Rightarrow> (bytes \<Rightarrow> nat \<Rightarrow> 'u \<Rightarrow> bool \<times> 'u) \<Rightarrow> 'u \<Rightarrow> bool \<times> 'u" where
  "parse_dir_block fs b cb user =
     (if \<not> validate_shdr b KIFS_MAGIC_DIR KIFS_BTYPE_DIR (fs_meta_crc fs) then (True, user)
      else let h = shdr_of b in
        if h_header_bytes h < SHDR_SIZE + 4 then (True, user)
        else parse_loop b (h_header_bytes h + h_payload_bytes h) (h_header_bytes h) cb user)"

text \<open>The two callbacks of the driver; the lookup keeps (found, inode).\<close>

definition dir_lookup_cb :: "bytes \<Rightarrow> bytes \<Rightarrow> nat \<Rightarrow> bool \<times> nat \<Rightarrow> bool \<times> bool \<times> nat" where
  "dir_lookup_cb want name ino ctx = (if name = want then (False, True, ino) else (True, ctx))"

definition dir_empty_cb :: "bytes \<Rightarrow> nat \<Rightarrow> bool \<Rightarrow> bool \<times> bool" where
  "dir_empty_cb name ino still =
     (if ino = 0 then (True, still)
      else if name = [0x2E] \<or> name = [0x2E, 0x2E] then (True, still) else (False, False))"

record kifs_dir_scan =
  ds_found :: bool
  ds_ino :: nat
  ds_entry_off :: nat
  ds_entry_reclen :: nat
  ds_prev_valid :: bool
  ds_prev_off :: nat
  ds_prev_reclen :: nat
  ds_prev_min_reclen :: nat
  ds_slot_valid :: bool
  ds_slot_off :: nat
  ds_slot_reclen :: nat
  ds_slot_min_reclen :: nat

definition empty_scan :: kifs_dir_scan where
  "empty_scan = \<lparr>ds_found = False, ds_ino = 0, ds_entry_off = 0, ds_entry_reclen = 0, ds_prev_valid = False, ds_prev_off = 0,
     ds_prev_reclen = 0, ds_prev_min_reclen = 0, ds_slot_valid = False, ds_slot_off = 0, ds_slot_reclen = 0,
     ds_slot_min_reclen = 0\<rparr>"

text \<open>\<open>prev\<close> is the last live record: offset, length and minimal length.\<close>

function scan_loop :: "bytes \<Rightarrow> bytes \<Rightarrow> nat \<Rightarrow> nat \<Rightarrow> nat \<Rightarrow> (nat \<times> nat \<times> nat) option \<Rightarrow> kifs_dir_scan \<Rightarrow> kifs_dir_scan" where
  "scan_loop b name need stop off prev out =
     (if off + 8 \<le> stop then
        let ino = rd_le 4 off b; reclen = rd_le 2 (off + 4) b; namelen = rd_le 1 (off + 6) b;
            min_rec = dir_rec_len namelen in
        if reclen < min_rec \<or> reclen mod 8 \<noteq> 0 \<or> off + reclen > stop then out
        else if ino = 0 then
          let out' = (if \<not> ds_slot_valid out \<and> need \<noteq> 0 \<and> reclen \<ge> need
                      then out\<lparr>ds_slot_valid := True, ds_slot_off := off, ds_slot_reclen := reclen, ds_slot_min_reclen := 0\<rparr>
                      else out)
          in scan_loop b name need stop (off + reclen) prev out'
        else
          let out' = (if \<not> ds_slot_valid out \<and> need \<noteq> 0 \<and> reclen \<ge> min_rec \<and> reclen - min_rec \<ge> need
                      then out\<lparr>ds_slot_valid := True, ds_slot_off := off, ds_slot_reclen := reclen,
                               ds_slot_min_reclen := min_rec\<rparr>
                      else out) in
          if cstr (slice (off + 8) namelen b) = name
          then out'\<lparr>ds_found := True, ds_ino := ino, ds_entry_off := off, ds_entry_reclen := reclen,
                 ds_prev_valid := prev \<noteq> None,
                 ds_prev_off := (case prev of Some (o1, r1, m1) \<Rightarrow> o1 | None \<Rightarrow> 0),
                 ds_prev_reclen := (case prev of Some (o1, r1, m1) \<Rightarrow> r1 | None \<Rightarrow> 0),
                 ds_prev_min_reclen := (case prev of Some (o1, r1, m1) \<Rightarrow> m1 | None \<Rightarrow> 0)\<rparr>
          else scan_loop b name need stop (off + reclen) (Some (off, reclen, min_rec)) out'
      else out)"
  by pat_completeness auto
termination
  by (relation "measure (\<lambda>(b, name, need, stop, off, prev, out). stop - off)") (auto simp: dir_rec_len_def)

declare scan_loop.simps [simp del]

definition scan_dir_block_mutable :: "bytes \<Rightarrow> bytes \<Rightarrow> nat \<Rightarrow> kifs_dir_scan" where
  "scan_dir_block_mutable b name need_rec_len =
     (let h = shdr_of b
      in scan_loop b name need_rec_len (h_header_bytes h + h_payload_bytes h) (h_header_bytes h) None empty_scan)"

text \<open>What \<open>dir_add_entry\<close> does to a block that has a slot, and \<open>dir_remove_entry\<close> to a block that has
  the entry.\<close>

definition dir_block_insert :: "bytes \<Rightarrow> kifs_dir_scan \<Rightarrow> nat \<Rightarrow> bytes \<Rightarrow> nat \<Rightarrow> bool \<Rightarrow> bytes" where
  "dir_block_insert b scan ino name ftype crc =
     structured_rechecksum
       (if ds_slot_min_reclen scan = 0
        then dir_write_ent b (ds_slot_off scan) ino name ftype (ds_slot_reclen scan)
        else dir_write_ent (wr_le 2 (ds_slot_off scan + 4) (ds_slot_min_reclen scan) b)
               (ds_slot_off scan + ds_slot_min_reclen scan) ino name ftype (ds_slot_reclen scan - ds_slot_min_reclen scan))
       crc"

definition dir_block_unlink :: "bytes \<Rightarrow> kifs_dir_scan \<Rightarrow> bool \<Rightarrow> bytes" where
  "dir_block_unlink b scan crc =
     structured_rechecksum (wr_le 2 (ds_prev_off scan + 4) (ds_prev_reclen scan + ds_entry_reclen scan) b) crc"

definition kifs_name_valid :: "bytes \<Rightarrow> bool" where
  "kifs_name_valid name = (name \<noteq> [] \<and> 0x2F \<notin> set name \<and> length name \<le> 255 \<and> name \<noteq> [0x2E] \<and> name \<noteq> [0x2E, 0x2E])"

section \<open>Encoding and decoding\<close>

lemma length_wr_le [simp]: "off + n \<le> length b \<Longrightarrow> length (wr_le n off v b) = length b"
  by (simp add: wr_le_def)

lemma rd_wr_le: "off + n \<le> length b \<Longrightarrow> rd_le n off (wr_le n off v b) = v mod 256 ^ n"
  by (simp add: rd_le_def wr_le_def slice_splice_same le_nat_bytes_le)

lemma rd_le_less: "rd_le n off b < 256 ^ n"
proof -
  have "rd_le n off b < 256 ^ length (slice off n b)" by (simp add: rd_le_def le_nat_less)
  also have "\<dots> \<le> 256 ^ n" by (rule power_increasing) (simp_all add: slice_def)
  finally show ?thesis .
qed

lemma slice_append_right: "length xs \<le> off \<Longrightarrow> slice off n (xs @ ys) = slice (off - length xs) n ys"
  by (simp add: slice_def)

lemma slice_append_left: "off + n \<le> length xs \<Longrightarrow> slice off n (xs @ ys) = slice off n xs"
  by (simp add: slice_def)

lemma slice_whole: "length xs = n \<Longrightarrow> slice 0 n xs = xs"
  by (simp add: slice_def)

lemma rd_le_append_right: "length xs \<le> off \<Longrightarrow> rd_le n off (xs @ ys) = rd_le n (off - length xs) ys"
  by (simp add: rd_le_def slice_append_right)

lemma rd_le_append_left: "rd_le n 0 (bytes_le n v @ ys) = v mod 256 ^ n"
  by (simp add: rd_le_def slice_append_left slice_whole le_nat_bytes_le)

lemma rd_le_bytes_le: "rd_le n 0 (bytes_le n v) = v mod 256 ^ n"
  by (simp add: rd_le_def slice_whole le_nat_bytes_le)

lemma bytes_le_rd_le: "off + n \<le> length b \<Longrightarrow> bytes_le n (rd_le n off b) = slice off n b"
  by (simp add: rd_le_def bytes_le_le_nat)

lemma slice_slice: "i + m \<le> n \<Longrightarrow> slice i m (slice off n b) = slice (off + i) m b"
  by (simp add: slice_def drop_take add.commute)

lemma rd_le_slice: "i + m \<le> n \<Longrightarrow> rd_le m i (slice off n b) = rd_le m (off + i) b"
  by (simp add: rd_le_def slice_slice)

lemma slice_join: "off + n = k \<Longrightarrow> slice off n b @ slice k m b = slice off (n + m) b"
  using take_add [of n m "drop off b"] by (simp add: slice_def add.commute)

lemmas field_simps_le = rd_le_append_right rd_le_append_left rd_le_bytes_le slice_append_right slice_append_left slice_whole

definition extent_wf :: "kifs_extent \<Rightarrow> bool" where
  "extent_wf e \<longleftrightarrow> e_file e < 2 ^ 32 \<and> e_disk e < 2 ^ 32 \<and> e_count e < 2 ^ 32"

lemma length_encode_extent [simp]: "length (encode_extent e) = 12"
  by (simp add: encode_extent_def)

lemma decode_encode_extent: "extent_wf e \<Longrightarrow> decode_extent (encode_extent e) = e"
  by (simp add: decode_extent_def encode_extent_def field_simps_le extent_wf_def)

lemma encode_decode_extent: "length b = 12 \<Longrightarrow> encode_extent (decode_extent b) = b"
  by (simp add: decode_extent_def encode_extent_def bytes_le_rd_le slice_join slice_whole)

definition inode_wf :: "kifs_inode \<Rightarrow> bool" where
  "inode_wf i \<longleftrightarrow> length (i_magic i) = 4 \<and> i_version i < 2 ^ 16 \<and> i_type i < 2 ^ 16 \<and> i_mode i < 2 ^ 32 \<and> i_uid i < 2 ^ 32 \<and>
     i_gid i < 2 ^ 32 \<and> i_link_count i < 2 ^ 32 \<and> i_size i < 2 ^ 64 \<and> i_mtime i < 2 ^ 64 \<and> i_ctime i < 2 ^ 64 \<and>
     i_inline_count i < 2 ^ 16 \<and> i_height i < 2 ^ 16 \<and> i_root i < 2 ^ 32 \<and> length (i_extents i) = 8 \<and>
     (\<forall>e \<in> set (i_extents i). extent_wf e) \<and> i_checksum i < 2 ^ 32 \<and> length (i_reserved i) = 100"

lemma length_concat_extents: "length (concat (map encode_extent es)) = 12 * length es"
  by (induction es) auto

lemma slice_concat_extents:
  "i < length es \<Longrightarrow> slice (12 * i) 12 (concat (map encode_extent es)) = encode_extent (es ! i)"
proof (induction es arbitrary: i)
  case (Cons e es)
  show ?case
  proof (cases i)
    case 0
    then show ?thesis by (simp add: slice_append_left slice_whole)
  next
    case (Suc j)
    then show ?thesis using Cons by (simp add: slice_append_right)
  qed
qed simp

lemma length_encode_inode: "inode_wf i \<Longrightarrow> length (encode_inode i) = INODE_SIZE"
  by (simp add: encode_inode_def inode_wf_def length_concat_extents)

lemma decode_encode_inode:
  assumes "inode_wf i"
  shows "decode_inode (encode_inode i) = i"
proof -
  note wf = assms [unfolded inode_wf_def]
  let ?c = "concat (map encode_extent (i_extents i))"
  have c: "length ?c = 96" using wf by (simp add: length_concat_extents)
  have "map (\<lambda>k. decode_extent (slice (56 + 12 * k) 12 (encode_inode i))) [0..<8] = i_extents i"
  proof (rule nth_equalityI)
    fix k
    assume "k < length (map (\<lambda>k. decode_extent (slice (56 + 12 * k) 12 (encode_inode i))) [0..<8])"
    then have k: "k < 8" by simp
    have "slice (56 + 12 * k) 12 (encode_inode i) = slice (12 * k) 12 ?c"
      using wf k c by (simp add: encode_inode_def slice_append_right slice_append_left)
    also have "\<dots> = encode_extent (i_extents i ! k)" using wf k by (intro slice_concat_extents) simp
    finally have "slice (56 + 12 * k) 12 (encode_inode i) = encode_extent (i_extents i ! k)" .
    then show "map (\<lambda>k. decode_extent (slice (56 + 12 * k) 12 (encode_inode i))) [0..<8] ! k = i_extents i ! k"
      using wf k by (simp add: decode_encode_extent del: upt_conv_Cons)
  qed (use wf in simp)
  moreover have "slice 0 4 (encode_inode i) = i_magic i" "rd_le 2 4 (encode_inode i) = i_version i"
    "rd_le 2 6 (encode_inode i) = i_type i" "rd_le 4 8 (encode_inode i) = i_mode i" "rd_le 4 12 (encode_inode i) = i_uid i"
    "rd_le 4 16 (encode_inode i) = i_gid i" "rd_le 4 20 (encode_inode i) = i_link_count i" "rd_le 8 24 (encode_inode i) = i_size i"
    "rd_le 8 32 (encode_inode i) = i_mtime i" "rd_le 8 40 (encode_inode i) = i_ctime i" "rd_le 2 48 (encode_inode i) = i_inline_count i"
    "rd_le 2 50 (encode_inode i) = i_height i" "rd_le 4 52 (encode_inode i) = i_root i" "rd_le 4 152 (encode_inode i) = i_checksum i"
    "slice 156 100 (encode_inode i) = i_reserved i"
    using wf c by (simp_all add: encode_inode_def field_simps_le)
  ultimately show ?thesis by (simp add: decode_inode_def)
qed

lemma concat_slices_from:
  "off + 12 * n \<le> length b \<Longrightarrow> concat (map (\<lambda>i. slice (off + 12 * i) 12 b) [0..<n]) = slice off (12 * n) b"
proof (induction n)
  case (Suc n)
  then have "concat (map (\<lambda>i. slice (off + 12 * i) 12 b) [0..<n]) = slice off (12 * n) b" by simp
  then show ?case by (simp add: slice_join add.commute)
qed (simp add: slice_def)

lemma encode_decode_inode:
  assumes "length b = INODE_SIZE"
  shows "encode_inode (decode_inode b) = b"
proof -
  have m: "map (encode_extent \<circ> (\<lambda>i. decode_extent (slice (56 + 12 * i) 12 b))) [0..<8] = map (\<lambda>i. slice (56 + 12 * i) 12 b) [0..<8]"
    using assms by (intro map_cong) (auto simp: encode_decode_extent)
  have "concat (map encode_extent (map (\<lambda>i. decode_extent (slice (56 + 12 * i) 12 b)) [0..<8])) = slice 56 96 b"
    unfolding map_map m using concat_slices_from [of 56 8 b] assms by (simp del: upt_rec_numeral)
  then show ?thesis
    using assms unfolding encode_inode_def decode_inode_def kifs_inode.simps by (simp add: bytes_le_rd_le slice_join slice_whole del: upt_rec_numeral map_map)
qed

definition shdr_wf :: "kifs_shdr \<Rightarrow> bool" where
  "shdr_wf h \<longleftrightarrow> length (h_magic h) = 4 \<and> h_version h < 2 ^ 16 \<and> h_block_type h < 2 ^ 16 \<and> h_header_bytes h < 2 ^ 16 \<and>
     h_payload_bytes h < 2 ^ 16 \<and> h_flags h < 2 ^ 32 \<and> h_checksum h < 2 ^ 32"

definition sb_wf :: "kifs_superblock \<Rightarrow> bool" where
  "sb_wf sb \<longleftrightarrow> shdr_wf (sb_h sb) \<and> sb_fs_major sb < 2 ^ 16 \<and> sb_fs_minor sb < 2 ^ 16 \<and>
     (\<forall>f \<in> {sb_block_size, sb_blockno, sb_dirty, sb_features_compat, sb_features_ro_compat, sb_features_incompat,
        sb_total_blocks, sb_usable_blocks, sb_journal_start, sb_journal_blocks, sb_block_bitmap_start, sb_block_bitmap_blocks,
        sb_inode_bitmap_start, sb_inode_bitmap_blocks, sb_inode_table_start, sb_inode_table_blocks, sb_data_start,
        sb_data_blocks, sb_inode_count, sb_root_ino, sb_orphan_ino}. f sb < 2 ^ 32) \<and>
     sb_seq sb < 2 ^ 64 \<and> sb_mount_count sb < 2 ^ 64 \<and> sb_last_mount_time sb < 2 ^ 64 \<and> length (sb_pad sb) = 3964"

lemma length_put_shdr: "length (h_magic h) = 4 \<Longrightarrow> length (put_shdr h) = SHDR_SIZE"
  by (simp add: put_shdr_def)

lemma shdr_of_put: "shdr_wf h \<Longrightarrow> shdr_of (put_shdr h @ xs) = h"
  by (simp add: shdr_of_def put_shdr_def shdr_wf_def field_simps_le)

lemma put_shdr_of: "SHDR_SIZE \<le> length b \<Longrightarrow> put_shdr (shdr_of b) = slice 0 SHDR_SIZE b"
  by (simp add: shdr_of_def put_shdr_def bytes_le_rd_le slice_join)

lemma length_encode_sb: "length (h_magic (sb_h sb)) = 4 \<Longrightarrow> length (sb_pad sb) = 3964 \<Longrightarrow> length (encode_sb sb) = KIFS_BLOCK_SIZE"
  by (simp add: encode_sb_def length_put_shdr)

lemma decode_encode_sb:
  assumes "sb_wf sb"
  shows "decode_sb (encode_sb sb) = sb"
proof -
  have h: "shdr_of (encode_sb sb) = sb_h sb" using assms by (simp add: encode_sb_def shdr_of_put sb_wf_def)
  have l: "length (put_shdr (sb_h sb)) = 20" using assms by (simp add: length_put_shdr sb_wf_def shdr_wf_def)
  show ?thesis
    unfolding decode_sb_def h using assms l by (simp add: encode_sb_def field_simps_le sb_wf_def)
qed

lemma encode_decode_sb:
  assumes "length b = KIFS_BLOCK_SIZE"
  shows "encode_sb (decode_sb b) = b"
  using assms by (simp add: encode_sb_def decode_sb_def put_shdr_of bytes_le_rd_le slice_join slice_whole)

lemma extent_wf_decode: "extent_wf (decode_extent b)"
  using rd_le_less [of 4 0 b] rd_le_less [of 4 4 b] rd_le_less [of 4 8 b] by (simp add: extent_wf_def decode_extent_def)

lemma inode_wf_decode:
  assumes "length b = INODE_SIZE"
  shows "inode_wf (decode_inode b)"
proof -
  have w: "rd_le 2 off b < 2 ^ 16" "rd_le 4 off b < 2 ^ 32" "rd_le 8 off b < 2 ^ 64" for off
    using rd_le_less [of 2 off b] rd_le_less [of 4 off b] rd_le_less [of 8 off b] by simp_all
  have l: "length (map (\<lambda>i. decode_extent (slice (56 + 12 * i) 12 b)) [0..<8]) = 8" by simp
  show ?thesis
    unfolding inode_wf_def decode_inode_def kifs_inode.simps l using w assms extent_wf_decode by (auto simp del: upt_rec_numeral)
qed

lemma sb_wf_decode:
  assumes "length b = KIFS_BLOCK_SIZE"
  shows "sb_wf (decode_sb b)"
proof -
  have w: "rd_le 2 off b < 2 ^ 16" "rd_le 4 off b < 2 ^ 32" "rd_le 8 off b < 2 ^ 64" for off
    using rd_le_less [of 2 off b] rd_le_less [of 4 off b] rd_le_less [of 8 off b] by simp_all
  show ?thesis using w assms by (auto simp: sb_wf_def shdr_wf_def decode_sb_def shdr_of_def)
qed

section \<open>Checksums\<close>

lemma slice_split: "b = take off b @ slice off n b @ drop (off + n) b"
proof -
  have "slice off n b @ drop (off + n) b = drop off b" by (simp add: slice_def drop_drop add.commute flip: drop_drop)
  then show ?thesis by simp
qed

lemma rd_le_splice_other:
  "off + length bs \<le> length b \<Longrightarrow> k + n \<le> off \<or> off + length bs \<le> k \<Longrightarrow> k + n \<le> length b \<Longrightarrow>
   rd_le n k (splice off bs b) = rd_le n k b"
  by (simp add: rd_le_def slice_splice_disjoint)

lemma rd_le_wr_le_other:
  "off + m \<le> length b \<Longrightarrow> k + n \<le> off \<or> off + m \<le> k \<Longrightarrow> k + n \<le> length b \<Longrightarrow> rd_le n k (wr_le m off v b) = rd_le n k b"
  by (simp add: wr_le_def rd_le_splice_other)

lemma slice_wr_le_other:
  "off + m \<le> length b \<Longrightarrow> k + n \<le> off \<or> off + m \<le> k \<Longrightarrow> k + n \<le> length b \<Longrightarrow> slice k n (wr_le m off v b) = slice k n b"
  by (simp add: wr_le_def slice_splice_disjoint)

lemma wr_le_twice: "off + n \<le> length b \<Longrightarrow> wr_le n off v (wr_le n off w b) = wr_le n off v b"
  by (simp add: wr_le_def splice_splice_same)

lemma length_rechecksum [simp]: "length b = KIFS_BLOCK_SIZE \<Longrightarrow> length (structured_rechecksum b crc) = KIFS_BLOCK_SIZE"
  by (simp add: structured_rechecksum_def Let_def)

lemma nth_wr_le_other: "off + n \<le> length b \<Longrightarrow> i < off \<or> off + n \<le> i \<Longrightarrow> i < length b \<Longrightarrow> wr_le n off v b ! i = b ! i"
  by (auto simp: wr_le_def nth_splice)

lemma nth_rechecksum: "length b = KIFS_BLOCK_SIZE \<Longrightarrow> i < 16 \<or> 20 \<le> i \<Longrightarrow> i < KIFS_BLOCK_SIZE \<Longrightarrow> structured_rechecksum b crc ! i = b ! i"
  by (auto simp: structured_rechecksum_def Let_def nth_wr_le_other)

lemma slice_rechecksum:
  "length b = KIFS_BLOCK_SIZE \<Longrightarrow> k + n \<le> 16 \<or> 20 \<le> k \<Longrightarrow> k + n \<le> KIFS_BLOCK_SIZE \<Longrightarrow> slice k n (structured_rechecksum b crc) = slice k n b"
  by (rule slice_cong) (auto simp: nth_rechecksum)

lemma rd_le_rechecksum:
  "length b = KIFS_BLOCK_SIZE \<Longrightarrow> k + n \<le> 16 \<or> 20 \<le> k \<Longrightarrow> k + n \<le> KIFS_BLOCK_SIZE \<Longrightarrow> rd_le n k (structured_rechecksum b crc) = rd_le n k b"
  by (simp add: rd_le_def slice_rechecksum)

lemma unat_u32_less: "unat (w :: u32) < 4294967296"
  using unsigned_less [of w] by simp

text \<open>What the header must say, apart from the checksum.\<close>

definition header_ok :: "bytes \<Rightarrow> bytes \<Rightarrow> nat \<Rightarrow> bool" where
  "header_ok b magic typ \<longleftrightarrow> validate_shdr b magic typ False"

lemma validate_header: "validate_shdr b magic typ crc \<longleftrightarrow> header_ok b magic typ \<and> (crc \<longrightarrow> calc_block_crc32 b = h_checksum (shdr_of b))"
  by (auto simp: header_ok_def validate_shdr_def Let_def)

lemma header_ok_cong:
  assumes "slice 0 16 b' = slice 0 16 b"
  shows "header_ok b' magic typ = header_ok b magic typ" "h_header_bytes (shdr_of b') = h_header_bytes (shdr_of b)"
    "h_payload_bytes (shdr_of b') = h_payload_bytes (shdr_of b)"
proof -
  have s: "slice k n b' = slice k n b" if "k + n \<le> 16" for k n
    using slice_slice [of k n 16 0 b'] slice_slice [of k n 16 0 b] that assms by simp
  show "header_ok b' magic typ = header_ok b magic typ" "h_header_bytes (shdr_of b') = h_header_bytes (shdr_of b)"
    "h_payload_bytes (shdr_of b') = h_payload_bytes (shdr_of b)"
    by (simp_all add: header_ok_def validate_shdr_def shdr_of_def Let_def rd_le_def s)
qed

lemma rechecksum_valid:
  assumes "length b = KIFS_BLOCK_SIZE"
  shows "validate_shdr (structured_rechecksum b crc) magic typ crc = header_ok b magic typ"
proof -
  let ?c = "unat (crc32_ieee (wr_le 4 16 0 b))"
  have "calc_block_crc32 (structured_rechecksum b True) = ?c" "h_checksum (shdr_of (structured_rechecksum b True)) = ?c"
    using assms unat_u32_less
    by (simp_all add: calc_block_crc32_def structured_rechecksum_def Let_def wr_le_twice shdr_of_def rd_wr_le)
  moreover have "header_ok (structured_rechecksum b crc) magic typ = header_ok b magic typ"
    by (rule header_ok_cong) (simp add: slice_rechecksum assms)
  ultimately show ?thesis by (simp add: validate_header)
qed

text \<open>With checksums on, a change within four bytes is noticed.\<close>

lemma damage_detected:
  assumes len: "length b = KIFS_BLOCK_SIZE" and v: "validate_shdr b magic typ True"
    and w: "off + 4 \<le> 16 \<or> 20 \<le> off" "off + 4 \<le> KIFS_BLOCK_SIZE" "length xs = 4" "slice off 4 b \<noteq> xs"
  shows "\<not> validate_shdr (splice off xs b) magic typ True"
proof -
  let ?z = "wr_le 4 16 0 b"
  have "wr_le 4 16 0 (splice off xs b) = splice off xs ?z"
    using len w by (intro nth_equalityI) (auto simp: wr_le_def nth_splice)
  also have "\<dots> = take off ?z @ xs @ drop (off + 4) ?z" using w by (simp add: splice_def)
  finally have z': "wr_le 4 16 0 (splice off xs b) = take off ?z @ xs @ drop (off + 4) ?z" .
  have "?z = take off ?z @ slice off 4 ?z @ drop (off + 4) ?z" by (rule slice_split)
  moreover have "slice off 4 ?z = slice off 4 b" using len w by (intro slice_wr_le_other) auto
  ultimately have z: "?z = take off ?z @ slice off 4 b @ drop (off + 4) ?z" by simp
  have "crc32_ieee (take off ?z @ slice off 4 b @ drop (off + 4) ?z) \<noteq> crc32_ieee (take off ?z @ xs @ drop (off + 4) ?z)"
    using len w by (intro crc32_burst) auto
  then have "crc32_ieee (wr_le 4 16 0 (splice off xs b)) \<noteq> crc32_ieee ?z" using z z' by simp
  then have "calc_block_crc32 (splice off xs b) \<noteq> calc_block_crc32 b"
    unfolding calc_block_crc32_def by (auto dest: unsigned_word_eqI)
  moreover have "h_checksum (shdr_of (splice off xs b)) = h_checksum (shdr_of b)"
    unfolding shdr_of_def kifs_shdr.simps using len w by (intro rd_le_splice_other) auto
  ultimately show ?thesis using v by (simp add: validate_header)
qed

text \<open>Overwriting the checksum itself leaves the sum over the block as it was.\<close>

lemma checksum_damage_detected:
  assumes len: "length b = KIFS_BLOCK_SIZE" and v: "validate_shdr b magic typ True" and w: "length xs = 4" "slice 16 4 b \<noteq> xs"
  shows "\<not> validate_shdr (splice 16 xs b) magic typ True"
proof -
  have z: "calc_block_crc32 (splice 16 xs b) = calc_block_crc32 b"
    unfolding calc_block_crc32_def wr_le_def using len w(1) by (simp add: splice_splice_same)
  have "slice 16 4 (splice 16 xs b) = xs" using len w(1) slice_splice_same [of 16 xs b] by simp
  moreover have "bytes_le 4 (rd_le 4 16 b) = slice 16 4 b" "bytes_le 4 (rd_le 4 16 (splice 16 xs b)) = slice 16 4 (splice 16 xs b)"
    using len w(1) by (simp_all add: bytes_le_rd_le)
  ultimately have "rd_le 4 16 (splice 16 xs b) \<noteq> rd_le 4 16 b" using w(2) by metis
  then show ?thesis using v z by (simp add: validate_header shdr_of_def)
qed

end
