(* ===== verification/Kifs_Dir.thy ===== *)
theory Kifs_Dir
  imports Kifs_Disk
begin

text \<open>
  Directory blocks of KiFS: the list of records that a block holds, and what the parser and the two
  editing operations of \<open>src/src/fs/kifs/kifs.c\<close> do in terms of that list. The parser visits
  exactly the live records in order; adding an entry and removing one change the listing by exactly
  that entry and leave a block that validates.
\<close>

section \<open>The records of a block\<close>

record dirent =
  d_off :: nat
  d_len :: nat
  d_ino :: nat
  d_raw :: bytes

definition rec_at :: "bytes \<Rightarrow> nat \<Rightarrow> dirent" where
  "rec_at b off = \<lparr>d_off = off, d_len = rd_le 2 (off + 4) b, d_ino = rd_le 4 off b, d_raw = slice (off + 8) (rd_le 1 (off + 6) b) b\<rparr>"

definition rec_ok :: "bytes \<Rightarrow> nat \<Rightarrow> nat \<Rightarrow> bool" where
  "rec_ok b stop off \<longleftrightarrow> off + 8 \<le> stop \<and> 8 + rd_le 1 (off + 6) b \<le> rd_le 2 (off + 4) b \<and>
     rd_le 2 (off + 4) b mod 8 = 0 \<and> off + rd_le 2 (off + 4) b \<le> stop"

function dir_recs :: "bytes \<Rightarrow> nat \<Rightarrow> nat \<Rightarrow> dirent list" where
  "dir_recs b stop off = (if rec_ok b stop off then rec_at b off # dir_recs b stop (off + rd_le 2 (off + 4) b) else [])"
  by pat_completeness auto
termination
  by (relation "measure (\<lambda>(b, stop, off). stop - off)") (auto simp: rec_ok_def)

declare dir_recs.simps [simp del]

definition d_name :: "dirent \<Rightarrow> bytes" where
  "d_name r = cstr (d_raw r)"

definition live_ents :: "dirent list \<Rightarrow> (bytes \<times> nat) list" where
  "live_ents rs = map (\<lambda>r. (d_name r, d_ino r)) (filter (\<lambda>r. d_ino r \<noteq> 0) rs)"

lemma live_ents_simps [simp]:
  "live_ents [] = []"
  "live_ents (r # rs) = (if d_ino r \<noteq> 0 then (d_name r, d_ino r) # live_ents rs else live_ents rs)"
  "live_ents (xs @ ys) = live_ents xs @ live_ents ys"
  by (simp_all add: live_ents_def)

definition block_recs :: "bytes \<Rightarrow> dirent list" where
  "block_recs b = dir_recs b (h_header_bytes (shdr_of b) + h_payload_bytes (shdr_of b)) (h_header_bytes (shdr_of b))"

text \<open>The names in a directory block with their inodes, in order.\<close>

definition dir_listing :: "bytes \<Rightarrow> (bytes \<times> nat) list" where
  "dir_listing b = live_ents (block_recs b)"

section \<open>Parsing\<close>

fun iter_cb :: "(bytes \<Rightarrow> nat \<Rightarrow> 'u \<Rightarrow> bool \<times> 'u) \<Rightarrow> (bytes \<times> nat) list \<Rightarrow> 'u \<Rightarrow> bool \<times> 'u" where
  "iter_cb cb [] u = (True, u)"
| "iter_cb cb ((name, ino) # es) u = (let (go, u') = cb name ino u in if go then iter_cb cb es u' else (False, u'))"

lemma parse_loop_recs: "parse_loop b stop off cb u = iter_cb cb (live_ents (dir_recs b stop off)) u"
proof (induction b stop off cb u rule: parse_loop.induct)
  case (1 b stop off cb user)
  let ?len = "rd_le 2 (off + 4) b"
  show ?case
  proof (cases "rec_ok b stop off")
    case False
    then show ?thesis by (auto simp: parse_loop.simps [of b stop off cb user] dir_recs.simps [of b stop off] rec_ok_def Let_def)
  next
    case True
    then have ok: "off + 8 \<le> stop" "\<not> ?len < 8 + rd_le 1 (off + 6) b" "\<not> ?len mod 8 \<noteq> 0" "\<not> off + ?len > stop"
      by (auto simp: rec_ok_def)
    have r: "dir_recs b stop off = rec_at b off # dir_recs b stop (off + ?len)" using True by (simp add: dir_recs.simps [of b stop off])
    show ?thesis
    proof (cases "rd_le 4 off b = 0")
      case True
      then show ?thesis
        using 1(2) [OF ok(1) refl refl refl ok(2-4)] ok r by (simp add: parse_loop.simps [of b stop off cb user] rec_at_def Let_def)
    next
      case False
      obtain go u' where cb: "cb (cstr (slice (off + 8) (rd_le 1 (off + 6) b) b)) (rd_le 4 off b) user = (go, u')" by fastforce
      show ?thesis
        using 1(1) [OF ok(1) refl refl refl ok(2-4) False cb [symmetric] refl] ok r cb False
        by (simp add: parse_loop.simps [of b stop off cb user] rec_at_def d_name_def Let_def)
    qed
  qed
qed

lemma parse_dir_block_listing:
  assumes "validate_shdr b KIFS_MAGIC_DIR KIFS_BTYPE_DIR (fs_meta_crc fs)" "SHDR_SIZE + 4 \<le> h_header_bytes (shdr_of b)"
  shows "parse_dir_block fs b cb u = iter_cb cb (dir_listing b) u"
  using assms by (simp add: parse_dir_block_def parse_loop_recs dir_listing_def block_recs_def Let_def)

lemma iter_lookup:
  "iter_cb (dir_lookup_cb want) es c = (case map_of es want of Some n \<Rightarrow> (False, True, n) | None \<Rightarrow> (True, c))"
  by (induction es) (auto simp: dir_lookup_cb_def)

lemma iter_empty:
  assumes "\<forall>(nm, n) \<in> set es. n \<noteq> 0"
  shows "snd (iter_cb dir_empty_cb es True) = (\<forall>(nm, n) \<in> set es. nm = [0x2E] \<or> nm = [0x2E, 0x2E])"
  using assms by (induction es) (auto simp: dir_empty_cb_def split: if_splits)

section \<open>Scanning\<close>

lemma dir_rec_len_facts: "dir_rec_len n mod 8 = 0" "8 + n \<le> dir_rec_len n" "dir_rec_len n < 16 + n" "dir_rec_len n \<noteq> 0"
proof -
  have "n + 8 \<le> (n + 15) div 8 * 8 \<and> (n + 15) div 8 * 8 < n + 16"
    using mod_mult_div_eq [of "n + 15" 8] mod_less_divisor [of 8 "n + 15"] by linarith
  then show "dir_rec_len n mod 8 = 0" "8 + n \<le> dir_rec_len n" "dir_rec_len n < 16 + n" "dir_rec_len n \<noteq> 0"
    by (simp_all add: dir_rec_len_def add.commute)
qed

lemma rec_len_fits:
  assumes "r mod 8 = 0"
  shows "dir_rec_len n \<le> r \<longleftrightarrow> 8 + n \<le> r"
proof -
  obtain k m where km: "r = 8 * k" "dir_rec_len n = 8 * m" using assms dir_rec_len_facts(1) [of n] by fastforce
  then show ?thesis using dir_rec_len_facts(2,3) [of n] by auto
qed

fun scan_recs :: "bytes \<Rightarrow> nat \<Rightarrow> dirent list \<Rightarrow> (nat \<times> nat \<times> nat) option \<Rightarrow> kifs_dir_scan \<Rightarrow> kifs_dir_scan" where
  "scan_recs name need [] prev out = out"
| "scan_recs name need (r # rs) prev out =
     (let min_rec = dir_rec_len (length (d_raw r)) in
      if d_ino r = 0 then
        scan_recs name need rs prev
          (if \<not> ds_slot_valid out \<and> need \<noteq> 0 \<and> d_len r \<ge> need
           then out\<lparr>ds_slot_valid := True, ds_slot_off := d_off r, ds_slot_reclen := d_len r, ds_slot_min_reclen := 0\<rparr> else out)
      else
        let out' = (if \<not> ds_slot_valid out \<and> need \<noteq> 0 \<and> d_len r - min_rec \<ge> need
                    then out\<lparr>ds_slot_valid := True, ds_slot_off := d_off r, ds_slot_reclen := d_len r, ds_slot_min_reclen := min_rec\<rparr>
                    else out) in
        if d_name r = name
        then out'\<lparr>ds_found := True, ds_ino := d_ino r, ds_entry_off := d_off r, ds_entry_reclen := d_len r,
               ds_prev_valid := prev \<noteq> None,
               ds_prev_off := (case prev of Some (o1, r1, m1) \<Rightarrow> o1 | None \<Rightarrow> 0),
               ds_prev_reclen := (case prev of Some (o1, r1, m1) \<Rightarrow> r1 | None \<Rightarrow> 0),
               ds_prev_min_reclen := (case prev of Some (o1, r1, m1) \<Rightarrow> m1 | None \<Rightarrow> 0)\<rparr>
        else scan_recs name need rs (Some (d_off r, d_len r, min_rec)) out')"

lemma length_rec_raw:
  assumes "rec_ok b stop off" "stop \<le> length b"
  shows "length (d_raw (rec_at b off)) = rd_le 1 (off + 6) b"
  using assms by (simp add: rec_at_def rec_ok_def)

lemma scan_loop_recs:
  assumes "stop \<le> length b"
  shows "scan_loop b name need stop off prev out = scan_recs name need (dir_recs b stop off) prev out"
  using assms
proof (induction b name need stop off prev out rule: scan_loop.induct)
  case (1 b name need stop off prev out)
  let ?len = "rd_le 2 (off + 4) b"
  let ?min = "dir_rec_len (rd_le 1 (off + 6) b)"
  show ?case
  proof (cases "rec_ok b stop off")
    case False
    then have "\<not> off + 8 \<le> stop \<or> ?len < ?min \<or> ?len mod 8 \<noteq> 0 \<or> off + ?len > stop"
      using dir_rec_len_facts(2) [of "rd_le 1 (off + 6) b"] by (auto simp: rec_ok_def)
    then show ?thesis using False
      by (auto simp: scan_loop.simps [of b name need stop off prev out] dir_recs.simps [of b stop off] Let_def)
  next
    case True
    then have ok: "off + 8 \<le> stop" "\<not> (?len < ?min \<or> ?len mod 8 \<noteq> 0 \<or> off + ?len > stop)"
      using rec_len_fits [of ?len "rd_le 1 (off + 6) b"] by (auto simp: rec_ok_def)
    have r: "dir_recs b stop off = rec_at b off # dir_recs b stop (off + ?len)" using True by (simp add: dir_recs.simps [of b stop off])
    have raw: "length (d_raw (rec_at b off)) = rd_le 1 (off + 6) b" using length_rec_raw [OF True 1(3)] .
    have flds: "d_off (rec_at b off) = off" "d_len (rec_at b off) = ?len" "d_ino (rec_at b off) = rd_le 4 off b"
      "d_name (rec_at b off) = cstr (slice (off + 8) (rd_le 1 (off + 6) b) b)" by (simp_all add: rec_at_def d_name_def)
    have ge: "(?min \<le> ?len) = True" using ok(2) by simp
    note unf = r scan_recs.simps Let_def raw flds scan_loop.simps [of b name need stop off prev out] if_P [OF ok(1)] if_not_P [OF ok(2)]
    show ?thesis
    proof (cases "rd_le 4 off b = 0")
      case z: True
      show ?thesis
        unfolding unf if_P [OF z] 1(1) [OF ok(1) refl refl refl refl ok(2) z refl 1(3)] by (rule refl)
    next
      case z: False
      show ?thesis
      proof (cases "cstr (slice (off + 8) (rd_le 1 (off + 6) b) b) = name")
        case nm: True
        show ?thesis unfolding unf if_not_P [OF z] if_P [OF nm] ge by (simp only: simp_thms)
      next
        case nm: False
        show ?thesis
          unfolding unf if_not_P [OF z] if_not_P [OF nm] ge simp_thms
          by (rule 1(2) [OF ok(1) refl refl refl refl ok(2) z refl nm 1(3), unfolded ge simp_thms])
      qed
    qed
  qed
qed

lemma scan_recs_slot:
  assumes "scan_recs name need rs prev out = sc" "\<not> ds_found sc" "ds_slot_valid sc" "\<not> ds_slot_valid out"
  shows "\<exists>xs r ys. rs = xs @ r # ys \<and> ds_slot_off sc = d_off r \<and> ds_slot_reclen sc = d_len r \<and>
    (if d_ino r = 0 then ds_slot_min_reclen sc = 0 \<and> need \<le> d_len r
     else ds_slot_min_reclen sc = dir_rec_len (length (d_raw r)) \<and> need \<le> d_len r - ds_slot_min_reclen sc)"
proof -
  have keep: "ds_slot_off (scan_recs name need rs prev out) = ds_slot_off out \<and>
      ds_slot_reclen (scan_recs name need rs prev out) = ds_slot_reclen out \<and>
      ds_slot_min_reclen (scan_recs name need rs prev out) = ds_slot_min_reclen out"
    if "ds_slot_valid out" for rs prev out
    using that by (induction rs arbitrary: prev out) (simp_all add: Let_def)
  show ?thesis
    using assms
  proof (induction rs arbitrary: prev out)
    case (Cons r rs)
    let ?fits = "need \<noteq> 0 \<and> need \<le> (if d_ino r = 0 then d_len r else d_len r - dir_rec_len (length (d_raw r)))"
    show ?case
    proof (cases ?fits)
      case True
      then have "ds_slot_off sc = d_off r \<and> ds_slot_reclen sc = d_len r \<and>
          ds_slot_min_reclen sc = (if d_ino r = 0 then 0 else dir_rec_len (length (d_raw r)))"
        using Cons.prems(1,2,4) keep by (auto simp: Let_def split: if_splits)
      then show ?thesis using True by (intro exI [of _ "[]"] exI [of _ r] exI [of _ rs]) auto
    next
      case False
      then have "\<exists>prev' out'. scan_recs name need rs prev' out' = sc \<and> \<not> ds_slot_valid out'"
        using Cons.prems(1,2,4) by (auto simp: Let_def split: if_splits)
      then obtain xs r' ys where "rs = xs @ r' # ys" "ds_slot_off sc = d_off r'" "ds_slot_reclen sc = d_len r'"
        "if d_ino r' = 0 then ds_slot_min_reclen sc = 0 \<and> need \<le> d_len r'
         else ds_slot_min_reclen sc = dir_rec_len (length (d_raw r')) \<and> need \<le> d_len r' - ds_slot_min_reclen sc"
        using Cons.IH [OF _ Cons.prems(2,3)] by blast
      then show ?thesis by (intro exI [of _ "r # xs"] exI [of _ r'] exI [of _ ys]) auto
    qed
  qed simp
qed

lemma scan_recs_skip:
  assumes "d_ino r = 0 \<or> d_name r \<noteq> name"
  shows "\<exists>out'. scan_recs name need (r # rs) prev out =
      scan_recs name need rs (if d_ino r = 0 then prev else Some (d_off r, d_len r, dir_rec_len (length (d_raw r)))) out' \<and>
    ds_found out' = ds_found out"
proof (cases "d_ino r = 0")
  case True
  show ?thesis unfolding scan_recs.simps Let_def if_P [OF True] by (rule exI, rule conjI, rule refl, simp)
next
  case False
  then have nm: "d_name r \<noteq> name" using assms by simp
  show ?thesis unfolding scan_recs.simps Let_def if_not_P [OF False] if_not_P [OF nm] by (rule exI, rule conjI, rule refl, simp)
qed

lemma scan_recs_found:
  assumes "scan_recs name need rs prev out = sc" "\<not> ds_found out"
  shows "ds_found sc \<longleftrightarrow> name \<in> fst ` set (live_ents rs)"
  using assms
proof (induction rs arbitrary: prev out)
  case (Cons r rs)
  show ?case
  proof (cases "d_ino r \<noteq> 0 \<and> d_name r = name")
    case True
    then show ?thesis using Cons.prems(1) by (auto simp: Let_def)
  next
    case False
    then obtain prev' out' where "scan_recs name need rs prev' out' = sc" "\<not> ds_found out'"
      using scan_recs_skip [of r name need rs prev out] Cons.prems by metis
    then show ?thesis using Cons.IH False by auto
  qed
qed simp

text \<open>The entry found and the live record before it.\<close>

definition last_live :: "dirent list \<Rightarrow> (nat \<times> nat \<times> nat) option \<Rightarrow> (nat \<times> nat \<times> nat) option" where
  "last_live rs prev = fold (\<lambda>r p. if d_ino r = 0 then p else Some (d_off r, d_len r, dir_rec_len (length (d_raw r)))) rs prev"

lemma scan_recs_entry:
  assumes "scan_recs name need rs prev out = sc" "ds_found sc" "\<not> ds_found out"
  shows "\<exists>xs r ys. rs = xs @ r # ys \<and> d_ino r \<noteq> 0 \<and> d_name r = name \<and> name \<notin> fst ` set (live_ents xs) \<and>
    ds_ino sc = d_ino r \<and> ds_entry_off sc = d_off r \<and> ds_entry_reclen sc = d_len r \<and>
    ds_prev_valid sc = (last_live xs prev \<noteq> None) \<and>
    (\<forall>po pr pm. last_live xs prev = Some (po, pr, pm) \<longrightarrow> ds_prev_off sc = po \<and> ds_prev_reclen sc = pr)"
  using assms
proof (induction rs arbitrary: prev out)
  case (Cons r rs)
  show ?case
  proof (cases "d_ino r \<noteq> 0 \<and> d_name r = name")
    case True
    then show ?thesis
      using Cons.prems(1) by (intro exI [of _ "[]"] exI [of _ r] exI [of _ rs]) (auto simp: Let_def last_live_def)
  next
    case False
    let ?prev = "if d_ino r = 0 then prev else Some (d_off r, d_len r, dir_rec_len (length (d_raw r)))"
    obtain out' where "scan_recs name need rs ?prev out' = sc" "\<not> ds_found out'"
      using scan_recs_skip [of r name need rs prev out] Cons.prems(1,3) False by metis
    from Cons.IH [OF this(1) Cons.prems(2) this(2)] obtain xs r' ys where x: "rs = xs @ r' # ys" "d_ino r' \<noteq> 0" "d_name r' = name"
      "name \<notin> fst ` set (live_ents xs)" "ds_ino sc = d_ino r'" "ds_entry_off sc = d_off r'" "ds_entry_reclen sc = d_len r'"
      "ds_prev_valid sc = (last_live xs ?prev \<noteq> None)"
      "\<forall>po pr pm. last_live xs ?prev = Some (po, pr, pm) \<longrightarrow> ds_prev_off sc = po \<and> ds_prev_reclen sc = pr"
      by blast
    have ll: "last_live (r # xs) prev = last_live xs ?prev" by (simp add: last_live_def)
    have "name \<notin> fst ` set (live_ents (r # xs))" using x(4) False by auto
    then show ?thesis using x unfolding ll [symmetric] by (intro exI [of _ "r # xs"] exI [of _ r'] exI [of _ ys]) simp
  qed
qed simp

section \<open>Chains of records\<close>

text \<open>\<open>chain b stop off rs e\<close>: the records \<open>rs\<close> follow one another from \<open>off\<close> to \<open>e\<close>.\<close>

fun chain :: "bytes \<Rightarrow> nat \<Rightarrow> nat \<Rightarrow> dirent list \<Rightarrow> nat \<Rightarrow> bool" where
  "chain b stop off [] e = (e = off)"
| "chain b stop off (r # rs) e = (rec_ok b stop off \<and> r = rec_at b off \<and> chain b stop (off + d_len r) rs e)"

lemma rec_at_simps [simp]: "d_off (rec_at b off) = off" "d_len (rec_at b off) = rd_le 2 (off + 4) b" "d_ino (rec_at b off) = rd_le 4 off b"
  by (simp_all add: rec_at_def)

lemma dir_recs_chain: "dir_recs b stop off = rs \<longleftrightarrow> (\<exists>e. chain b stop off rs e \<and> \<not> rec_ok b stop e)"
proof (induction b stop off arbitrary: rs rule: dir_recs.induct)
  case (1 b stop off)
  show ?case
  proof (cases "rec_ok b stop off")
    case True
    then have "dir_recs b stop off = rec_at b off # dir_recs b stop (off + rd_le 2 (off + 4) b)" by (simp add: dir_recs.simps [of b stop off])
    then show ?thesis using 1 [OF True] True by (cases rs) (auto simp: eq_commute)
  next
    case False
    then show ?thesis by (cases rs) (auto simp: dir_recs.simps [of b stop off])
  qed
qed

lemma chain_append: "chain b stop off (xs @ ys) e \<longleftrightarrow> (\<exists>m. chain b stop off xs m \<and> chain b stop m ys e)"
  by (induction xs arbitrary: off) auto

lemma chain_le: "chain b stop off rs e \<Longrightarrow> off \<le> e \<and> (e \<le> stop \<or> rs = [])"
proof (induction rs arbitrary: off)
  case (Cons r rs)
  then have c: "rec_ok b stop off" "r = rec_at b off" "chain b stop (off + d_len r) rs e" by auto
  then have "off + d_len r \<le> stop" by (simp add: rec_ok_def)
  then show ?case using Cons.IH [OF c(3)] c(3) by auto
qed simp

lemma rec_frame:
  assumes "rec_ok b stop off" "stop \<le> length b" "length b' = length b" "\<And>i. off \<le> i \<Longrightarrow> i < off + rd_le 2 (off + 4) b \<Longrightarrow> b' ! i = b ! i"
  shows "rec_ok b' stop off" "rec_at b' off = rec_at b off"
proof -
  have s: "slice k n b' = slice k n b" if "off \<le> k" "k + n \<le> off + rd_le 2 (off + 4) b" for k n
    using assms that by (intro slice_cong) (auto simp: rec_ok_def)
  have l: "8 + rd_le 1 (off + 6) b \<le> rd_le 2 (off + 4) b" using assms(1) by (simp add: rec_ok_def)
  have f: "rd_le 4 off b' = rd_le 4 off b" "rd_le 2 (off + 4) b' = rd_le 2 (off + 4) b" "rd_le 1 (off + 6) b' = rd_le 1 (off + 6) b"
    using l by (simp_all add: rd_le_def s)
  then show "rec_ok b' stop off" using assms(1) by (simp add: rec_ok_def)
  show "rec_at b' off = rec_at b off" using f l by (simp add: rec_at_def s)
qed

lemma chain_frame:
  assumes "chain b stop off rs e" "stop \<le> length b" "length b' = length b" "\<And>i. off \<le> i \<Longrightarrow> i < e \<Longrightarrow> b' ! i = b ! i"
  shows "chain b' stop off rs e"
  using assms
proof (induction rs arbitrary: off)
  case (Cons r rs)
  have ch: "rec_ok b stop off" "r = rec_at b off" "chain b stop (off + d_len r) rs e" using Cons.prems(1) by auto
  have e: "off + d_len r \<le> e" using chain_le [OF ch(3)] by simp
  have f: "rec_ok b' stop off" "rec_at b' off = rec_at b off"
    using rec_frame [OF ch(1) Cons.prems(2,3)] Cons.prems(4) ch(2) e by auto
  have "chain b' stop (off + d_len r) rs e" by (rule Cons.IH [OF ch(3) Cons.prems(2,3)]) (use Cons.prems(4) in auto)
  then show ?case using f ch(2) by simp
qed simp

lemma not_rec_ok_frame:
  assumes "\<not> rec_ok b stop e" "stop \<le> length b" "length b' = length b" "\<And>i. e \<le> i \<Longrightarrow> i < length b \<Longrightarrow> b' ! i = b ! i"
  shows "\<not> rec_ok b' stop e"
proof (cases "e + 8 \<le> stop")
  case True
  have s: "slice k n b' = slice k n b" if "e \<le> k" "k + n \<le> e + 8" for k n
    using assms that True by (intro slice_cong) auto
  have "rd_le 2 (e + 4) b' = rd_le 2 (e + 4) b" "rd_le 1 (e + 6) b' = rd_le 1 (e + 6) b" by (simp_all add: rd_le_def s)
  then show ?thesis using assms(1) by (simp add: rec_ok_def)
qed (simp add: rec_ok_def)

text \<open>Replacing the records in the middle of a chain.\<close>

lemma chain_replace:
  assumes "dir_recs b stop off = xs @ ms @ ys" "stop \<le> length b" "length b' = length b"
    "\<And>m e. chain b stop off xs m \<Longrightarrow> chain b stop m ms e \<Longrightarrow>
       chain b' stop m ms' e \<and> (\<forall>i. off \<le> i \<longrightarrow> i < length b \<longrightarrow> i < m \<or> e \<le> i \<longrightarrow> b' ! i = b ! i)" "off \<le> stop"
  shows "dir_recs b' stop off = xs @ ms' @ ys"
proof -
  obtain m e f where c: "chain b stop off xs m" "chain b stop m ms e" "chain b stop e ys f" "\<not> rec_ok b stop f"
    using assms(1) by (auto simp: dir_recs_chain chain_append)
  have fr: "chain b' stop m ms' e" "\<And>i. off \<le> i \<Longrightarrow> i < length b \<Longrightarrow> i < m \<or> e \<le> i \<Longrightarrow> b' ! i = b ! i"
    using assms(4) [OF c(1,2)] by auto
  have le: "off \<le> m" "m \<le> e" "e \<le> f" "f \<le> length b"
    using chain_le [OF c(1)] chain_le [OF c(2)] chain_le [OF c(3)] assms(2,5) c(1-3) by auto
  have "chain b' stop off xs m" by (rule chain_frame [OF c(1) assms(2,3)]) (use fr(2) le in auto)
  moreover have "chain b' stop e ys f" by (rule chain_frame [OF c(3) assms(2,3)]) (use fr(2) le in auto)
  moreover have "\<not> rec_ok b' stop f" by (rule not_rec_ok_frame [OF c(4) assms(2,3)]) (use fr(2) le in auto)
  ultimately show ?thesis using fr(1) unfolding dir_recs_chain by (auto simp: chain_append)
qed

section \<open>Adding an entry\<close>

definition dir_wf :: "bool \<Rightarrow> bytes \<Rightarrow> bool" where
  "dir_wf crc b \<longleftrightarrow> length b = KIFS_BLOCK_SIZE \<and> validate_shdr b KIFS_MAGIC_DIR KIFS_BTYPE_DIR crc \<and> 24 \<le> h_header_bytes (shdr_of b)"

definition dir_stop :: "bytes \<Rightarrow> nat" where
  "dir_stop b = h_header_bytes (shdr_of b) + h_payload_bytes (shdr_of b)"

lemma dir_stop_le: "dir_wf crc b \<Longrightarrow> dir_stop b \<le> KIFS_BLOCK_SIZE"
proof -
  assume wf: "dir_wf crc b"
  have "h_header_bytes (shdr_of b) < 65536" "h_payload_bytes (shdr_of b) < 65536"
    using rd_le_less [of 2 8 b] rd_le_less [of 2 10 b] by (simp_all add: shdr_of_def)
  then have "add32 (h_header_bytes (shdr_of b)) (h_payload_bytes (shdr_of b)) = dir_stop b" by (simp add: add32_def dir_stop_def)
  then show ?thesis using wf by (simp add: dir_wf_def validate_shdr_def Let_def)
qed

lemma block_recs_stop: "block_recs b = dir_recs b (dir_stop b) (h_header_bytes (shdr_of b))"
  by (simp add: block_recs_def dir_stop_def)

text \<open>A change behind the header.\<close>

lemma edited_block:
  assumes wf: "dir_wf crc b" and len: "length b2 = KIFS_BLOCK_SIZE" and same: "\<And>i. i < 24 \<Longrightarrow> b2 ! i = b ! i"
  defines "b' \<equiv> structured_rechecksum b2 crc"
  shows "dir_wf crc b'" "dir_stop b' = dir_stop b" "h_header_bytes (shdr_of b') = h_header_bytes (shdr_of b)"
    "block_recs b' = dir_recs b' (dir_stop b) (h_header_bytes (shdr_of b))"
proof -
  have l: "length b = KIFS_BLOCK_SIZE" "header_ok b KIFS_MAGIC_DIR KIFS_BTYPE_DIR" "24 \<le> h_header_bytes (shdr_of b)"
    using wf by (auto simp: dir_wf_def validate_header)
  have s2: "slice 0 16 b2 = slice 0 16 b" using len l same by (intro slice_cong) auto
  then have s: "slice 0 16 b' = slice 0 16 b" using len by (simp add: b'_def slice_rechecksum)
  note h = header_ok_cong [OF s] header_ok_cong [OF s2]
  show "dir_wf crc b'" using l len h by (simp add: dir_wf_def b'_def rechecksum_valid)
  show st: "dir_stop b' = dir_stop b" "h_header_bytes (shdr_of b') = h_header_bytes (shdr_of b)" using h by (simp_all add: dir_stop_def)
  show "block_recs b' = dir_recs b' (dir_stop b) (h_header_bytes (shdr_of b))" using st by (simp add: block_recs_stop)
qed

lemma dir_write_ent_fields:
  fixes ino ft rl :: nat
  assumes "off + 8 + length name \<le> length b" "length name < 256"
  defines "e \<equiv> dir_write_ent b off ino name ft rl"
  shows "length e = length b" "rd_le 4 off e = ino mod 2 ^ 32" "rd_le 2 (off + 4) e = rl mod 2 ^ 16" "rd_le 1 (off + 6) e = length name"
    "slice (off + 8) (length name) e = name"
    "i < off \<or> off + 8 + length name \<le> i \<Longrightarrow> i < length b \<Longrightarrow> e ! i = b ! i"
proof -
  let ?bs = "bytes_le 4 ino @ bytes_le 2 rl @ bytes_le 1 (length name) @ bytes_le 1 ft @ name"
  have e: "e = splice off ?bs b" using assms by (simp add: e_def dir_write_ent_def)
  have in_b: "slice (off + k) n e = slice k n ?bs" if "k + n \<le> 8 + length name" for k n
    unfolding e using slice_splice_inner [of off ?bs b "off + k" n] assms(1) that by simp
  show "length e = length b" unfolding e using assms(1) by simp
  show "rd_le 4 off e = ino mod 2 ^ 32" "rd_le 2 (off + 4) e = rl mod 2 ^ 16"
    using in_b [of 0 4] in_b [of 4 2] by (simp_all add: rd_le_def slice_append_left slice_append_right slice_whole le_nat_bytes_le)
  have "slice 6 1 ?bs = bytes_le 1 (length name)" by (simp add: slice_append_right slice_def)
  then show "rd_le 1 (off + 6) e = length name"
    using in_b [of 6 1] le_nat_bytes_le [of 1 "length name"] assms(2) by (simp only: rd_le_def) simp
  show "slice (off + 8) (length name) e = name"
    using in_b [of 8 "length name"] by (simp add: slice_append_right slice_def)
  show "e ! i = b ! i" if "i < off \<or> off + 8 + length name \<le> i" "i < length b"
    unfolding e using assms(1) that by (subst nth_splice) auto
qed

lemma cstr_id: "0 \<notin> set name \<Longrightarrow> cstr name = name"
  unfolding cstr_def by (rule takeWhile_eq_all_conv [THEN iffD2]) auto

text \<open>The new record goes behind the one that has room: first the bytes, then the records.\<close>

lemma split_bytes:
  fixes ino ft :: nat
  assumes "so + len \<le> length b" "8 \<le> m" "m + 8 + length name \<le> len" "length name < 256" "len < 65536"
  defines "b2 \<equiv> dir_write_ent (wr_le 2 (so + 4) m b) (so + m) ino name ft (len - m)"
  shows "length b2 = length b" "\<And>i. i < so + 4 \<or> so + len \<le> i \<Longrightarrow> i < length b \<Longrightarrow> b2 ! i = b ! i"
    "rd_le 2 (so + 4) b2 = m" "\<And>j k. j + k \<le> so + 4 \<or> so + 6 \<le> j \<Longrightarrow> j + k \<le> so + m \<Longrightarrow> slice j k b2 = slice j k b"
    "rd_le 4 (so + m) b2 = ino mod 2 ^ 32" "rd_le 2 (so + m + 4) b2 = len - m" "rd_le 1 (so + m + 6) b2 = length name"
    "slice (so + m + 8) (length name) b2 = name"
proof -
  let ?b1 = "wr_le 2 (so + 4) m b"
  have b1: "length ?b1 = length b" using assms by simp
  have fit: "so + m + 8 + length name \<le> length ?b1" using assms b1 by linarith
  note ent = dir_write_ent_fields [OF fit assms(4), where ino = ino and ft = ft and rl = "len - m", folded b2_def]
  show l2: "length b2 = length b" using ent(1) b1 by simp
  show "b2 ! i = b ! i" if "i < so + 4 \<or> so + len \<le> i" "i < length b" for i
  proof -
    have "b2 ! i = ?b1 ! i" using that b1 assms by (intro ent(6)) auto
    also have "\<dots> = b ! i" using that assms by (intro nth_wr_le_other) auto
    finally show ?thesis .
  qed
  have s1: "slice j k b2 = slice j k ?b1" if "j + k \<le> so + m" for j k
    by (rule slice_cong) (use that fit ent(1) ent(6) in auto)
  show "slice j k b2 = slice j k b" if "j + k \<le> so + 4 \<or> so + 6 \<le> j" "j + k \<le> so + m" for j k
    unfolding s1 [OF that(2)] using that assms by (intro slice_wr_le_other) auto
  have "rd_le 2 (so + 4) b2 = rd_le 2 (so + 4) ?b1" using assms(2) by (simp add: rd_le_def s1)
  then show "rd_le 2 (so + 4) b2 = m" using assms by (simp add: rd_wr_le)
  show "rd_le 4 (so + m) b2 = ino mod 2 ^ 32" "rd_le 2 (so + m + 4) b2 = len - m" "rd_le 1 (so + m + 6) b2 = length name"
    "slice (so + m + 8) (length name) b2 = name"
    using ent(2-5) assms(5) by simp_all
qed

lemma split_records:
  fixes b2 :: bytes and r :: dirent
  assumes r: "rec_ok b stop so" "r = rec_at b so" and st: "stop \<le> length b"
    and m: "m mod 8 = 0" "8 + length (d_raw r) \<le> m" "m + 8 + length name \<le> d_len r" "length name < 256"
    and b2: "rd_le 2 (so + 4) b2 = m" "\<And>j k. so \<le> j \<Longrightarrow> j + k \<le> so + 4 \<or> so + 6 \<le> j \<Longrightarrow> j + k \<le> so + m \<Longrightarrow> slice j k b2 = slice j k b"
      "rd_le 4 (so + m) b2 = n" "rd_le 2 (so + m + 4) b2 = d_len r - m" "rd_le 1 (so + m + 6) b2 = length name"
      "slice (so + m + 8) (length name) b2 = name"
  shows "chain b2 stop so [r\<lparr>d_len := m\<rparr>, \<lparr>d_off = so + m, d_len = d_len r - m, d_ino = n, d_raw = name\<rparr>] (so + d_len r)"
proof -
  have raw: "length (d_raw r) = rd_le 1 (so + 6) b" using length_rec_raw [OF r(1) st] r(2) by simp
  have f: "rd_le 4 so b2 = rd_le 4 so b" "rd_le 1 (so + 6) b2 = rd_le 1 (so + 6) b" "slice (so + 8) (length (d_raw r)) b2 = d_raw r"
    using m(2) raw r(2) by (simp_all add: rd_le_def b2(2) rec_at_def)
  have "rec_at b2 so = r\<lparr>d_len := m\<rparr>" using f raw r(2) b2(1) by (simp add: rec_at_def)
  moreover have "rec_ok b2 stop so" using f(2) raw b2(1) m r by (simp add: rec_ok_def)
  moreover have "rec_at b2 (so + m) = \<lparr>d_off = so + m, d_len = d_len r - m, d_ino = n, d_raw = name\<rparr>"
    using b2(3-6) by (simp add: rec_at_def)
  moreover have "rec_ok b2 stop (so + m)"
  proof -
    have "(d_len r - m) mod 8 = 0" using m(1) r by (auto simp: rec_ok_def intro: dvd_diff_nat)
    moreover have "8 + length name \<le> d_len r - m" "so + m + (d_len r - m) \<le> stop" using m(3) r by (auto simp: rec_ok_def)
    ultimately show ?thesis using b2(4,5) by (simp add: rec_ok_def)
  qed
  ultimately show ?thesis using m(3) b2(1) by simp
qed

text \<open>Replacing some records of a block by others and recomputing its checksum.\<close>

lemma edited_records:
  assumes wf: "dir_wf crc b" and len: "length b2 = KIFS_BLOCK_SIZE" and recs: "block_recs b = xs @ ms @ ys" and ne: "ms \<noteq> []"
    and edit: "\<And>m e. chain b (dir_stop b) (h_header_bytes (shdr_of b)) xs m \<Longrightarrow> chain b (dir_stop b) m ms e \<Longrightarrow>
       chain b2 (dir_stop b) m ms' e \<and> (\<forall>i. i < length b \<longrightarrow> i < m \<or> e \<le> i \<longrightarrow> b2 ! i = b ! i)"
  shows "dir_wf crc (structured_rechecksum b2 crc)" "block_recs (structured_rechecksum b2 crc) = xs @ ms' @ ys"
proof -
  let ?b' = "structured_rechecksum b2 crc"
  let ?hb = "h_header_bytes (shdr_of b)"
  have l: "length b = KIFS_BLOCK_SIZE" "24 \<le> ?hb" "dir_stop b \<le> length b" using wf dir_stop_le [OF wf] by (auto simp: dir_wf_def)
  have l2: "length b2 = length b" "length ?b' = length b" "length ?b' = length b2" "dir_stop b \<le> length b2" using l len by simp_all
  obtain m e where c: "chain b (dir_stop b) ?hb xs m" "chain b (dir_stop b) m ms e"
    using recs by (auto simp: block_recs_stop dir_recs_chain chain_append)
  have le: "?hb \<le> m" "?hb \<le> dir_stop b" using chain_le [OF c(1)] chain_le [OF c(2)] ne by auto
  have "\<And>i. i < 24 \<Longrightarrow> b2 ! i = b ! i" using edit [OF c] le l by auto
  note ed = edited_block [OF wf len this]
  show "dir_wf crc ?b'" by (rule ed(1))
  have nth: "?b' ! i = b2 ! i" if "24 \<le> i" "i < length b" for i using that len l nth_rechecksum [of b2 i crc] by simp
  have "dir_recs ?b' (dir_stop b) ?hb = xs @ ms' @ ys"
  proof (rule chain_replace [OF recs [unfolded block_recs_stop] l(3) l2(2) _ le(2)])
    fix m e
    assume ch: "chain b (dir_stop b) ?hb xs m" "chain b (dir_stop b) m ms e"
    note ed2 = edit [OF ch]
    have r: "?hb \<le> m" "e \<le> length b" using chain_le [OF ch(1)] chain_le [OF ch(2)] ne l(3) by auto
    have "chain ?b' (dir_stop b) m ms' e" by (rule chain_frame [OF conjunct1 [OF ed2] l2(4,3)]) (use nth r l(2) in auto)
    moreover have "?b' ! i = b ! i" if "?hb \<le> i" "i < length b" "i < m \<or> e \<le> i" for i using ed2 nth [of i] that l(2) by auto
    ultimately show "chain ?b' (dir_stop b) m ms' e \<and> (\<forall>i. ?hb \<le> i \<longrightarrow> i < length b \<longrightarrow> i < m \<or> e \<le> i \<longrightarrow> ?b' ! i = b ! i)"
      by blast
  qed
  then show "block_recs ?b' = xs @ ms' @ ys" using ed(4) by simp
qed

lemma insert_split:
  fixes ino ft :: nat
  assumes wf: "dir_wf crc b" and recs: "block_recs b = xs @ r # ys"
    and m: "m mod 8 = 0" "8 + length (d_raw r) \<le> m" "m + 8 + length name \<le> d_len r" "length name < 256"
  defines "b' \<equiv> structured_rechecksum (dir_write_ent (wr_le 2 (d_off r + 4) m b) (d_off r + m) ino name ft (d_len r - m)) crc"
  shows "dir_wf crc b'"
    "block_recs b' = xs @ [r\<lparr>d_len := m\<rparr>, \<lparr>d_off = d_off r + m, d_len = d_len r - m, d_ino = ino mod 2 ^ 32, d_raw = name\<rparr>] @ ys"
proof -
  have l: "length b = KIFS_BLOCK_SIZE" "dir_stop b \<le> length b" using wf dir_stop_le [OF wf] by (auto simp: dir_wf_def)
  obtain n where n: "rec_ok b (dir_stop b) n" "r = rec_at b n"
    using recs by (auto simp: block_recs_stop dir_recs_chain chain_append)
  have dl: "d_len r < 65536" "d_off r = n" "n + d_len r \<le> dir_stop b" using rd_le_less [of 2 "n + 4" b] n by (simp_all add: rec_ok_def)
  have "n + d_len r \<le> length b" using l dl by linarith
  note sb = split_bytes [OF this _ m(3,4) dl(1), where ino = ino and ft = ft]
  have m8: "8 \<le> m" using m(2) by linarith
  note sr = split_records [OF n l(2) m sb(3) [OF m8] sb(4) [OF m8] sb(5-8) [OF m8]]
  have recs': "block_recs b = xs @ [r] @ ys" using recs by simp
  have len: "length (dir_write_ent (wr_le 2 (n + 4) m b) (n + m) ino name ft (d_len r - m)) = KIFS_BLOCK_SIZE"
    using sb(1) [OF m8] l(1) by simp
  have step: "chain (dir_write_ent (wr_le 2 (n + 4) m b) (n + m) ino name ft (d_len r - m)) (dir_stop b) k
      [r\<lparr>d_len := m\<rparr>, \<lparr>d_off = d_off r + m, d_len = d_len r - m, d_ino = ino mod 2 ^ 32, d_raw = name\<rparr>] e \<and>
      (\<forall>i. i < length b \<longrightarrow> i < k \<or> e \<le> i \<longrightarrow> dir_write_ent (wr_le 2 (n + 4) m b) (n + m) ino name ft (d_len r - m) ! i = b ! i)"
    if "chain b (dir_stop b) (h_header_bytes (shdr_of b)) xs k" "chain b (dir_stop b) k [r] e" for k e
  proof -
    have k: "k = n" "e = n + d_len r" using that(2) dl(2) by auto
    show ?thesis unfolding k dl(2) by (rule conjI [OF sr]) (use sb(2) [OF m8] in auto)
  qed
  show "dir_wf crc b'" unfolding b'_def dl(2) by (rule edited_records(1) [OF wf len recs' _ step]) simp
  show "block_recs b' = xs @ [r\<lparr>d_len := m\<rparr>, \<lparr>d_off = d_off r + m, d_len = d_len r - m, d_ino = ino mod 2 ^ 32, d_raw = name\<rparr>] @ ys"
    unfolding b'_def dl(2) by (rule edited_records(2) [OF wf len recs' _ step, unfolded dl(2)]) simp
qed

text \<open>The new record takes the place of a dead one.\<close>

lemma insert_dead:
  fixes ino ft :: nat
  assumes wf: "dir_wf crc b" and recs: "block_recs b = xs @ r # ys" and fit: "8 + length name \<le> d_len r" "length name < 256"
  defines "b' \<equiv> structured_rechecksum (dir_write_ent b (d_off r) ino name ft (d_len r)) crc"
  shows "dir_wf crc b'" "block_recs b' = xs @ [r\<lparr>d_ino := ino mod 2 ^ 32, d_raw := name\<rparr>] @ ys"
proof -
  have l: "length b = KIFS_BLOCK_SIZE" "dir_stop b \<le> length b" using wf dir_stop_le [OF wf] by (auto simp: dir_wf_def)
  obtain n where n: "rec_ok b (dir_stop b) n" "r = rec_at b n"
    using recs by (auto simp: block_recs_stop dir_recs_chain chain_append)
  have dl: "d_len r < 65536" "d_off r = n" "n + d_len r \<le> dir_stop b" using rd_le_less [of 2 "n + 4" b] n by (simp_all add: rec_ok_def)
  let ?b2 = "dir_write_ent b n ino name ft (d_len r)"
  have "n + 8 + length name \<le> length b" using l dl fit by linarith
  note f = dir_write_ent_fields [OF this fit(2), where ino = ino and ft = ft and rl = "d_len r"]
  have len: "length ?b2 = KIFS_BLOCK_SIZE" using f(1) l(1) by simp
  have rl: "rd_le 2 (n + 4) ?b2 = d_len r" using f(3) dl(1) by simp
  have new: "rec_at ?b2 n = r\<lparr>d_ino := ino mod 2 ^ 32, d_raw := name\<rparr>" using f(2,4,5) rl n(2) by (simp add: rec_at_def)
  have ok: "rec_ok ?b2 (dir_stop b) n" using n f(4) rl fit by (simp add: rec_ok_def)
  have step: "chain ?b2 (dir_stop b) k [r\<lparr>d_ino := ino mod 2 ^ 32, d_raw := name\<rparr>] e \<and> (\<forall>i. i < length b \<longrightarrow> i < k \<or> e \<le> i \<longrightarrow> ?b2 ! i = b ! i)"
    if "chain b (dir_stop b) (h_header_bytes (shdr_of b)) xs k" "chain b (dir_stop b) k [r] e" for k e
  proof -
    have k: "k = n" "e = n + d_len r" using that(2) dl(2) by auto
    show ?thesis unfolding k using new ok f(6) fit by auto
  qed
  have recs': "block_recs b = xs @ [r] @ ys" using recs by simp
  show "dir_wf crc b'" unfolding b'_def dl(2) by (rule edited_records(1) [OF wf len recs' _ step]) simp
  show "block_recs b' = xs @ [r\<lparr>d_ino := ino mod 2 ^ 32, d_raw := name\<rparr>] @ ys"
    unfolding b'_def dl(2) by (rule edited_records(2) [OF wf len recs' _ step]) simp
qed

lemma scan_block_recs:
  assumes "dir_wf crc b"
  shows "scan_dir_block_mutable b name need = scan_recs name need (block_recs b) None empty_scan"
proof -
  have "dir_stop b \<le> length b" using dir_stop_le [OF assms] assms by (simp add: dir_wf_def)
  then show ?thesis by (simp add: scan_dir_block_mutable_def Let_def scan_loop_recs block_recs_stop dir_stop_def)
qed

lemma scan_found_listing:
  assumes "dir_wf crc b"
  shows "ds_found (scan_dir_block_mutable b name need) \<longleftrightarrow> name \<in> fst ` set (dir_listing b)"
  unfolding dir_listing_def by (rule scan_recs_found [OF scan_block_recs [OF assms, symmetric]]) (simp add: empty_scan_def)

definition all_live :: "bytes \<Rightarrow> bool" where
  "all_live b \<longleftrightarrow> (\<forall>r \<in> set (block_recs b). d_ino r \<noteq> 0)"

lemma dir_block_insert_spec:
  fixes child ft :: nat
  assumes wf: "dir_wf crc b" and name: "length name < 256" "0 \<notin> set name" and ino: "0 < child" "child < 2 ^ 32"
    and sc: "sc = scan_dir_block_mutable b name (dir_rec_len (length name))" and scan: "\<not> ds_found sc" "ds_slot_valid sc"
  defines "b' \<equiv> dir_block_insert b sc child name ft crc"
  shows "dir_wf crc b'" "\<exists>xs ys. dir_listing b = xs @ ys \<and> dir_listing b' = xs @ (name, child) # ys \<and> (all_live b \<longrightarrow> xs \<noteq> [])"
    "all_live b \<Longrightarrow> all_live b'"
proof -
  let ?need = "dir_rec_len (length name)"
  have nd: "8 + length name \<le> ?need" "?need \<noteq> 0" using dir_rec_len_facts [of "length name"] by auto
  from scan_recs_slot [OF scan_block_recs [OF wf, symmetric] scan [unfolded sc], folded sc]
  obtain xs r ys where r: "block_recs b = xs @ r # ys" "ds_slot_off sc = d_off r" "ds_slot_reclen sc = d_len r"
    "if d_ino r = 0 then ds_slot_min_reclen sc = 0 \<and> ?need \<le> d_len r
     else ds_slot_min_reclen sc = dir_rec_len (length (d_raw r)) \<and> ?need \<le> d_len r - ds_slot_min_reclen sc"
    by (auto simp: empty_scan_def)
  have ino': "child mod 2 ^ 32 = child" using ino by simp
  have "dir_wf crc b' \<and> (\<exists>xs ys. dir_listing b = xs @ ys \<and> dir_listing b' = xs @ (name, child) # ys \<and> (all_live b \<longrightarrow> xs \<noteq> [])) \<and>
    (all_live b \<longrightarrow> all_live b')"
  proof (cases "d_ino r = 0")
    case True
    then have s: "ds_slot_min_reclen sc = 0" and fit: "8 + length name \<le> d_len r" using r(4) nd by auto
    have b': "b' = structured_rechecksum (dir_write_ent b (d_off r) child name ft (d_len r)) crc"
      using s r by (simp add: b'_def dir_block_insert_def)
    note ins = insert_dead [OF wf r(1) fit name(1), of child ft, folded b', unfolded ino']
    have "dir_listing b = live_ents xs @ live_ents ys" "dir_listing b' = live_ents xs @ (name, child) # live_ents ys"
      using ins(2) r(1) True ino name(2) by (simp_all add: dir_listing_def d_name_def cstr_id)
    moreover have "\<not> all_live b" using r(1) True by (simp add: all_live_def)
    ultimately show ?thesis using ins(1) by blast
  next
    case False
    let ?m = "dir_rec_len (length (d_raw r))"
    have s: "ds_slot_min_reclen sc = ?m" and fit: "?m + 8 + length name \<le> d_len r" using r(4) nd False by auto
    have m: "?m mod 8 = 0" "8 + length (d_raw r) \<le> ?m" "?m \<noteq> 0" using dir_rec_len_facts [of "length (d_raw r)"] by auto
    have b': "b' = structured_rechecksum (dir_write_ent (wr_le 2 (d_off r + 4) ?m b) (d_off r + ?m) child name ft (d_len r - ?m)) crc"
      using s r(2,3) m(3) by (simp add: b'_def dir_block_insert_def)
    note ins = insert_split [OF wf r(1) m(1,2) fit name(1), of child ft, folded b', unfolded ino']
    have l: "dir_listing b = (live_ents xs @ [(d_name r, d_ino r)]) @ live_ents ys"
      "dir_listing b' = (live_ents xs @ [(d_name r, d_ino r)]) @ (name, child) # live_ents ys"
      using ins(2) r(1) False ino name(2) by (simp_all add: dir_listing_def d_name_def cstr_id)
    have "all_live b \<longrightarrow> all_live b'" using ins(2) r(1) ino by (auto simp: all_live_def)
    then show ?thesis using ins(1) l by blast
  qed
  then show "dir_wf crc b'" "\<exists>xs ys. dir_listing b = xs @ ys \<and> dir_listing b' = xs @ (name, child) # ys \<and> (all_live b \<longrightarrow> xs \<noteq> [])"
    "all_live b \<Longrightarrow> all_live b'"
    by auto
qed

section \<open>Removing an entry\<close>

lemma unlink_merge:
  assumes wf: "dir_wf crc b" and recs: "block_recs b = xs @ [p, r] @ ys"
  defines "b' \<equiv> structured_rechecksum (wr_le 2 (d_off p + 4) (d_len p + d_len r) b) crc"
  shows "dir_wf crc b'" "block_recs b' = xs @ [p\<lparr>d_len := d_len p + d_len r\<rparr>] @ ys"
proof -
  let ?b2 = "wr_le 2 (d_off p + 4) (d_len p + d_len r) b"
  have l: "length b = KIFS_BLOCK_SIZE" "dir_stop b \<le> length b" using wf dir_stop_le [OF wf] by (auto simp: dir_wf_def)
  obtain n where n: "rec_ok b (dir_stop b) n" "p = rec_at b n" "rec_ok b (dir_stop b) (n + d_len p)" "r = rec_at b (n + d_len p)"
    using recs by (auto simp: block_recs_stop dir_recs_chain chain_append)
  have st: "n + (d_len p + d_len r) \<le> dir_stop b" "8 + rd_le 1 (n + 6) b \<le> d_len p" using n by (simp_all add: rec_ok_def)
  have m8: "(d_len p + d_len r) mod 8 = 0" using n by (auto simp: rec_ok_def)
  have off: "d_off p = n" using n(2) by simp
  have lt: "n + (d_len p + d_len r) \<le> 4096" "n + 6 \<le> length b" using st l by linarith+
  have len: "length ?b2 = KIFS_BLOCK_SIZE" using lt(2) off l(1) by simp
  have rl: "rd_le 2 (n + 4) ?b2 = d_len p + d_len r" using lt off by (simp add: rd_wr_le)
  have sl: "slice j k ?b2 = slice j k b" if "j + k \<le> n + 4 \<or> n + 6 \<le> j" "j + k \<le> n + d_len p" for j k
    using that lt l(1) unfolding off by (intro slice_wr_le_other) auto
  have f: "rd_le 4 n ?b2 = rd_le 4 n b" "rd_le 1 (n + 6) ?b2 = rd_le 1 (n + 6) b" using st(2) by (simp_all add: rd_le_def sl)
  have new: "rec_at ?b2 n = p\<lparr>d_len := d_len p + d_len r\<rparr>"
    using f rl n(2) sl [of "n + 8" "rd_le 1 (n + 6) b"] st(2) by (simp add: rec_at_def)
  have ok: "rec_ok ?b2 (dir_stop b) n" unfolding rec_ok_def rl f(2) using st m8 n(1) by (auto simp: rec_ok_def)
  have other: "?b2 ! i = b ! i" if "i < length b" "i < n \<or> n + (d_len p + d_len r) \<le> i" for i
    unfolding off using that st(2) lt(2) by (intro nth_wr_le_other) auto
  have step: "chain ?b2 (dir_stop b) k [p\<lparr>d_len := d_len p + d_len r\<rparr>] e \<and> (\<forall>i. i < length b \<longrightarrow> i < k \<or> e \<le> i \<longrightarrow> ?b2 ! i = b ! i)"
    if "chain b (dir_stop b) (h_header_bytes (shdr_of b)) xs k" "chain b (dir_stop b) k [p, r] e" for k e
  proof -
    have k: "k = n" "e = n + (d_len p + d_len r)" using that(2) off by auto
    show ?thesis unfolding k using new ok other by auto
  qed
  show "dir_wf crc b'" unfolding b'_def by (rule edited_records(1) [OF wf len recs _ step]) simp
  show "block_recs b' = xs @ [p\<lparr>d_len := d_len p + d_len r\<rparr>] @ ys"
    unfolding b'_def by (rule edited_records(2) [OF wf len recs _ step]) simp
qed

lemma last_live_live:
  assumes "\<forall>r \<in> set xs. d_ino r \<noteq> 0"
  shows "last_live xs None = (if xs = [] then None else Some (d_off (last xs), d_len (last xs), dir_rec_len (length (d_raw (last xs)))))"
  using assms by (induction xs rule: rev_induct) (auto simp: last_live_def)

lemma dir_block_unlink_spec:
  assumes wf: "dir_wf crc b" and live: "all_live b" and sc: "sc = scan_dir_block_mutable b name need" and scan: "ds_found sc" "ds_prev_valid sc"
  defines "b' \<equiv> dir_block_unlink b sc crc"
  shows "dir_wf crc b'" "all_live b'"
    "\<exists>xs ys. dir_listing b = xs @ (name, ds_ino sc) # ys \<and> name \<notin> fst ` set xs \<and> dir_listing b' = xs @ ys"
proof -
  have "\<not> ds_found empty_scan" by (simp add: empty_scan_def)
  from scan_recs_entry [OF scan_block_recs [OF wf, symmetric] scan(1) [unfolded sc] this, folded sc]
  obtain xs r ys where r: "block_recs b = xs @ r # ys" "d_ino r \<noteq> 0" "d_name r = name" "name \<notin> fst ` set (live_ents xs)"
    "ds_ino sc = d_ino r" "ds_entry_reclen sc = d_len r" "ds_prev_valid sc = (last_live xs None \<noteq> None)"
    "\<forall>po pr pm. last_live xs None = Some (po, pr, pm) \<longrightarrow> ds_prev_off sc = po \<and> ds_prev_reclen sc = pr"
    by blast
  have lx: "\<forall>r \<in> set xs. d_ino r \<noteq> 0" using live r(1) by (auto simp: all_live_def)
  have ne: "xs \<noteq> []" using r(7) scan(2) last_live_live [OF lx] by auto
  then obtain xs' p where xs: "xs = xs' @ [p]" by (cases xs rule: rev_cases) auto
  have p: "ds_prev_off sc = d_off p" "ds_prev_reclen sc = d_len p" using r(8) last_live_live [OF lx] ne xs by auto
  have recs: "block_recs b = xs' @ [p, r] @ ys" using r(1) xs by simp
  have b': "b' = structured_rechecksum (wr_le 2 (d_off p + 4) (d_len p + d_len r) b) crc"
    using p r(6) by (simp add: b'_def dir_block_unlink_def)
  note m = unlink_merge [OF wf recs, folded b']
  show "dir_wf crc b'" by (rule m(1))
  show "all_live b'" using live recs m(2) by (auto simp: all_live_def)
  have "dir_listing b' = live_ents xs @ live_ents ys" using m(2) xs by (simp add: dir_listing_def d_name_def)
  moreover have "dir_listing b = live_ents xs @ (name, ds_ino sc) # live_ents ys" using r by (simp add: dir_listing_def)
  ultimately show "\<exists>xs ys. dir_listing b = xs @ (name, ds_ino sc) # ys \<and> name \<notin> fst ` set xs \<and> dir_listing b' = xs @ ys"
    using r(4) by blast
qed

text \<open>The first record of a block has no live record before it: its entry is found but cannot be removed.\<close>

lemma first_entry_stuck:
  assumes "dir_wf crc b" "block_recs b = r # rs" "d_ino r \<noteq> 0"
  shows "ds_found (scan_dir_block_mutable b (d_name r) need)" "\<not> ds_prev_valid (scan_dir_block_mutable b (d_name r) need)"
  using assms by (simp_all add: scan_block_recs Let_def empty_scan_def)

section \<open>Fresh directory blocks\<close>

abbreviation (input) dir_header :: kifs_shdr where
  "dir_header \<equiv> \<lparr>h_magic = KIFS_MAGIC_DIR, h_version = KIFS_STRUCT_VERSION, h_block_type = KIFS_BTYPE_DIR,
     h_header_bytes = 24, h_payload_bytes = 4072, h_flags = 0, h_checksum = 0\<rparr>"

lemma length_magic_dir [simp]: "length KIFS_MAGIC_DIR = 4"
  by (simp add: KIFS_MAGIC_DIR_def)

lemma splice_header: "length (h_magic h) = 4 \<Longrightarrow> SHDR_SIZE \<le> length b \<Longrightarrow> splice 0 (put_shdr h) b = put_shdr h @ drop SHDR_SIZE b"
  by (simp add: splice_def length_put_shdr)

lemma checksum_zero:
  assumes "length (h_magic h) = 4" "h_checksum h = 0"
  shows "wr_le 4 16 0 (put_shdr h @ rest) = put_shdr h @ rest"
proof -
  have "put_shdr h = take 16 (put_shdr h) @ bytes_le 4 0" "length (take 16 (put_shdr h)) = 16"
    using assms by (simp_all add: put_shdr_def)
  then obtain p where p: "put_shdr h = p @ bytes_le 4 0" "length p = 16" by blast
  then show ?thesis by (simp add: wr_le_def splice_def)
qed

lemma init_dir_block_eq: "init_dir_block p crc = structured_rechecksum (put_shdr dir_header @ bytes_le 4 p @ replicate 4072 0) crc"
proof -
  have "wr_le 4 20 p (put_shdr dir_header @ replicate 4076 0) = put_shdr dir_header @ bytes_le 4 p @ replicate 4072 0"
    by (simp add: wr_le_def splice_def length_put_shdr)
  then show ?thesis
    by (simp add: init_dir_block_def structured_rechecksum_def Let_def splice_header checksum_zero)
qed

lemma init_dir_block_facts:
  shows "length (init_dir_block p crc) = KIFS_BLOCK_SIZE" "header_ok (init_dir_block p crc) KIFS_MAGIC_DIR KIFS_BTYPE_DIR"
    "h_header_bytes (shdr_of (init_dir_block p crc)) = 24" "h_payload_bytes (shdr_of (init_dir_block p crc)) = 4072"
    "24 \<le> i \<Longrightarrow> i < KIFS_BLOCK_SIZE \<Longrightarrow> init_dir_block p crc ! i = 0" "dir_wf crc (init_dir_block p crc)"
proof -
  let ?b = "put_shdr dir_header @ bytes_le 4 p @ replicate 4072 0"
  have len: "length ?b = KIFS_BLOCK_SIZE" by (simp add: length_put_shdr)
  have sh: "shdr_of ?b = dir_header" by (rule shdr_of_put) (simp add: shdr_wf_def)
  have s: "slice 0 16 (init_dir_block p crc) = slice 0 16 ?b" unfolding init_dir_block_eq using len by (simp add: slice_rechecksum)
  show "length (init_dir_block p crc) = KIFS_BLOCK_SIZE" unfolding init_dir_block_eq using len by simp
  have ok: "header_ok ?b KIFS_MAGIC_DIR KIFS_BTYPE_DIR" unfolding header_ok_def validate_shdr_def Let_def sh by (simp add: add32_def magic_eq_def)
  then show "header_ok (init_dir_block p crc) KIFS_MAGIC_DIR KIFS_BTYPE_DIR" unfolding header_ok_cong(1) [OF s] .
  show "h_header_bytes (shdr_of (init_dir_block p crc)) = 24" "h_payload_bytes (shdr_of (init_dir_block p crc)) = 4072"
    unfolding header_ok_cong(2,3) [OF s] sh by simp_all
  then show "dir_wf crc (init_dir_block p crc)" using ok len by (simp add: dir_wf_def init_dir_block_eq rechecksum_valid)
  show "init_dir_block p crc ! i = 0" if "24 \<le> i" "i < KIFS_BLOCK_SIZE"
    unfolding init_dir_block_eq using len that by (auto simp: nth_rechecksum nth_append length_put_shdr)
qed

lemma new_dir_block_recs:
  assumes "self < 2 ^ 32" "par < 2 ^ 32"
  shows "dir_wf crc (new_dir_block self par crc)"
    "block_recs (new_dir_block self par crc) =
       [\<lparr>d_off = 24, d_len = 16, d_ino = self, d_raw = [0x2E]\<rparr>, \<lparr>d_off = 40, d_len = 4032, d_ino = par, d_raw = [0x2E, 0x2E]\<rparr>]"
proof -
  let ?b0 = "init_dir_block par crc"
  define b1 where "b1 = dir_write_ent ?b0 24 self [0x2E] 2 16"
  define b2 where "b2 = dir_write_ent b1 40 par [0x2E, 0x2E] 2 4032"
  define b' where "b' = structured_rechecksum b2 crc"
  note i = init_dir_block_facts [where p = par and crc = crc]
  have new: "new_dir_block self par crc = b'"
    by (simp add: new_dir_block_def i Let_def dir_rec_len_def b'_def b2_def b1_def)
  have f0: "24 + 8 + length [0x2E :: 8 word] \<le> length ?b0" "length [0x2E :: 8 word] < 256" by (simp_all add: i)
  note f1 = dir_write_ent_fields [OF f0, where ino = self and ft = 2 and rl = 16, folded b1_def]
  have g0: "40 + 8 + length [0x2E :: 8 word, 0x2E] \<le> length b1" "length [0x2E :: 8 word, 0x2E] < 256" by (simp_all add: i f1(1))
  note f2 = dir_write_ent_fields [OF g0, where ino = par and ft = 2 and rl = 4032, folded b2_def]
  have l2: "length b2 = KIFS_BLOCK_SIZE" using f2(1) f1(1) i(1) by simp
  have same: "b2 ! j = ?b0 ! j" if "j < 24 \<or> 50 \<le> j" "j < KIFS_BLOCK_SIZE" for j
    using f2(6) [of j] f1(6) [of j] that f1(1) i(1) by auto
  note ed = edited_block [OF i(6) l2, folded b'_def]
  have st: "dir_stop ?b0 = 4096" using i(3,4) by (simp add: dir_stop_def)
  show "dir_wf crc (new_dir_block self par crc)" unfolding new by (rule ed(1)) (use same in auto)
  have recs: "block_recs b' = dir_recs b' 4096 24" using ed(4) same unfolding st i(3) by auto
  have rd: "rd_le n k b' = rd_le n k b2" "slice k n b' = slice k n b2" if "20 \<le> k" "k + n \<le> KIFS_BLOCK_SIZE" for k n
    unfolding b'_def using that l2 by (simp_all add: rd_le_rechecksum slice_rechecksum)
  have sl: "slice k n b2 = slice k n b1" if "k + n \<le> 40" for k n
    by (rule slice_cong) (use that f2(1,6) l2 in auto)
  have rl: "rd_le n k b2 = rd_le n k b1" if "k + n \<le> 40" for k n using sl that by (simp add: rd_le_def)
  have "slice 4076 2 b2 = [0, 0]"
    by (rule nth_equalityI) (use same i(5) l2 in \<open>auto simp: slice_def less_Suc_eq numeral_2_eq_2\<close>)
  then have z: "\<not> rec_ok b' 4096 4072" by (simp add: rec_ok_def rd rd_le_def)
  have "rec_at b' 24 = \<lparr>d_off = 24, d_len = 16, d_ino = self, d_raw = [0x2E]\<rparr>" "rec_ok b' 4096 24"
    using f1(2-5) assms(1) by (simp_all add: rec_at_def rec_ok_def rd sl rl)
  moreover have "rec_at b' 40 = \<lparr>d_off = 40, d_len = 4032, d_ino = par, d_raw = [0x2E, 0x2E]\<rparr>" "rec_ok b' 4096 40"
    using f2(2-5) assms(2) by (simp_all add: rec_at_def rec_ok_def rd)
  ultimately show "block_recs (new_dir_block self par crc) =
       [\<lparr>d_off = 24, d_len = 16, d_ino = self, d_raw = [0x2E]\<rparr>, \<lparr>d_off = 40, d_len = 4032, d_ino = par, d_raw = [0x2E, 0x2E]\<rparr>]"
    unfolding new recs dir_recs_chain using z by simp
qed

text \<open>The block that \<open>dir_append_entry_block\<close> makes for an entry for which the other blocks have no room: its only record is that entry.\<close>

definition appended_block :: "nat \<Rightarrow> nat \<Rightarrow> bytes \<Rightarrow> nat \<Rightarrow> bool \<Rightarrow> bytes" where
  "appended_block dir_n child name ft crc =
     structured_rechecksum (dir_write_ent (init_dir_block dir_n crc) 24 child name ft 4072) crc"

lemma appended_block_recs:
  assumes "child < 2 ^ 32" "length name < 256"
  shows "dir_wf crc (appended_block dir_n child name ft crc)"
    "block_recs (appended_block dir_n child name ft crc) = [\<lparr>d_off = 24, d_len = 4072, d_ino = child, d_raw = name\<rparr>]"
proof -
  let ?b0 = "init_dir_block dir_n crc"
  define b1 where "b1 = dir_write_ent ?b0 24 child name ft 4072"
  define b' where "b' = appended_block dir_n child name ft crc"
  have new: "b' = structured_rechecksum b1 crc" by (simp add: b'_def b1_def appended_block_def)
  note i = init_dir_block_facts [where p = dir_n and crc = crc]
  have f0: "24 + 8 + length name \<le> length ?b0" using assms(2) by (simp add: i)
  note f1 = dir_write_ent_fields [OF f0 assms(2), where ino = child and ft = ft and rl = 4072, folded b1_def]
  have l1: "length b1 = KIFS_BLOCK_SIZE" using f1(1) i(1) by simp
  have same: "b1 ! j = ?b0 ! j" if "j < 24" for j using f1(6) [of j] that i(1) by simp
  note ed = edited_block [OF i(6) l1, folded new]
  have st: "dir_stop ?b0 = 4096" using i(3,4) by (simp add: dir_stop_def)
  show "dir_wf crc (appended_block dir_n child name ft crc)" unfolding b'_def [symmetric] by (rule ed(1)) (use same in auto)
  have recs: "block_recs b' = dir_recs b' 4096 24" using ed(4) same unfolding st i(3) by auto
  have rd: "rd_le n k b' = rd_le n k b1" "slice k n b' = slice k n b1" if "20 \<le> k" "k + n \<le> KIFS_BLOCK_SIZE" for k n
    unfolding new using that l1 by (simp_all add: rd_le_rechecksum slice_rechecksum)
  have "\<not> rec_ok b' 4096 4096" by (simp add: rec_ok_def)
  moreover have "dir_rec_len (length name) \<le> 4072" using dir_rec_len_facts(3) [of "length name"] assms(2) by simp
  then have "rec_at b' 24 = \<lparr>d_off = 24, d_len = 4072, d_ino = child, d_raw = name\<rparr>" "rec_ok b' 4096 24"
    using f1(2-5) assms by (simp_all add: rec_at_def rec_ok_def rd)
  ultimately show "block_recs (appended_block dir_n child name ft crc) = [\<lparr>d_off = 24, d_len = 4072, d_ino = child, d_raw = name\<rparr>]"
    unfolding b'_def [symmetric] recs dir_recs_chain by simp
qed

lemma prev_of_listing:
  assumes wf: "dir_wf crc b" and live: "all_live b" and ls: "dir_listing b = xs @ (name, n) # ys" "name \<notin> fst ` set xs" "xs \<noteq> []"
  shows "ds_found (scan_dir_block_mutable b name need)" "ds_prev_valid (scan_dir_block_mutable b name need)"
    "ds_ino (scan_dir_block_mutable b name need) = n"
proof -
  let ?sc = "scan_dir_block_mutable b name need"
  show found: "ds_found ?sc" unfolding scan_found_listing [OF wf] ls(1) by simp
  have "\<not> ds_found empty_scan" by (simp add: empty_scan_def)
  from scan_recs_entry [OF scan_block_recs [OF wf, symmetric] found this]
  obtain X r Y where r: "block_recs b = X @ r # Y" "d_ino r \<noteq> 0" "d_name r = name" "name \<notin> fst ` set (live_ents X)"
    "ds_prev_valid ?sc = (last_live X None \<noteq> None)" "ds_ino ?sc = d_ino r" by blast
  have e: "live_ents X @ (name, d_ino r) # live_ents Y = xs @ (name, n) # ys" using ls(1) r by (simp add: dir_listing_def)
  have "takeWhile (\<lambda>e. fst e \<noteq> name) (zs @ (name, m) # ws) = zs" if "name \<notin> fst ` set zs" for zs :: "(bytes \<times> nat) list" and m ws
    using that by (subst takeWhile_append2) auto
  then have "live_ents X = xs" using e ls(2) r(4) by metis
  moreover from this e show "ds_ino ?sc = n" using r(6) by simp
  moreover have "\<forall>r \<in> set X. d_ino r \<noteq> 0" using live r(1) by (auto simp: all_live_def)
  ultimately show "ds_prev_valid ?sc" using ls(3) r(5) last_live_live [of X] by auto
qed

lemma new_dir_listing:
  assumes "0 < self" "self < 2 ^ 32" "0 < par" "par < 2 ^ 32"
  shows "dir_listing (new_dir_block self par crc) = [([0x2E], self), ([0x2E, 0x2E], par)]" "all_live (new_dir_block self par crc)"
  using assms new_dir_block_recs [of self par crc] by (simp_all add: dir_listing_def all_live_def d_name_def cstr_def)

section \<open>What the operations promise\<close>

text \<open>C6: adding an entry to a valid directory block in which the name does not occur and which has room yields a
  valid block that lists exactly the old entries and the new one; looking the name up in it gives the new inode.\<close>

theorem dir_insert_listing:
  fixes child ft :: nat
  assumes "dir_wf (fs_meta_crc fs) b" "kifs_name_valid name" "0 \<notin> set name" "0 < child" "child < 2 ^ 32"
    and "sc = scan_dir_block_mutable b name (dir_rec_len (length name))" "\<not> ds_found sc" "ds_slot_valid sc"
    and "b1 = dir_block_insert b sc child name ft (fs_meta_crc fs)"
  shows "dir_wf (fs_meta_crc fs) b1 \<and> (\<exists>xs ys. dir_listing b = xs @ ys \<and> dir_listing b1 = xs @ (name, child) # ys) \<and>
    parse_dir_block fs b1 (dir_lookup_cb name) (False, 0) = (False, True, child)"
proof -
  have n: "length name < 256" using assms(2) by (simp add: kifs_name_valid_def)
  note ins = dir_block_insert_spec [OF assms(1) n assms(3-8), of ft, folded assms(9)]
  from ins(2) obtain xs ys where l: "dir_listing b = xs @ ys" "dir_listing b1 = xs @ (name, child) # ys" by blast
  have "name \<notin> fst ` set xs" using assms(6,7) scan_found_listing [OF assms(1)] l(1) by auto
  then have "map_of (xs @ (name, child) # ys) name = Some child" by (induction xs) auto
  then have "parse_dir_block fs b1 (dir_lookup_cb name) (False, 0) = (False, True, child)"
    using ins(1) l(2) by (simp add: parse_dir_block_listing dir_wf_def iter_lookup)
  then show ?thesis using ins(1) l by blast
qed

text \<open>C5: in a block whose records are all live, removing the entry that was just added gives back the old listing, in a
  valid block whose records are all live.\<close>

theorem dir_insert_remove_roundtrip:
  fixes child ft :: nat
  assumes "dir_wf crc b" "all_live b" "kifs_name_valid name" "0 \<notin> set name" "0 < child" "child < 2 ^ 32"
    and "sc = scan_dir_block_mutable b name (dir_rec_len (length name))" "\<not> ds_found sc" "ds_slot_valid sc"
    and "b1 = dir_block_insert b sc child name ft crc" "sc1 = scan_dir_block_mutable b1 name 0"
  shows "ds_found sc1 \<and> ds_prev_valid sc1 \<and> ds_ino sc1 = child \<and> dir_listing (dir_block_unlink b1 sc1 crc) = dir_listing b \<and>
    dir_wf crc (dir_block_unlink b1 sc1 crc) \<and> all_live (dir_block_unlink b1 sc1 crc)"
proof -
  have n: "length name < 256" using assms(3) by (simp add: kifs_name_valid_def)
  note ins = dir_block_insert_spec [OF assms(1) n assms(4-9), of ft, folded assms(10)]
  from ins(2) obtain xs ys where l: "dir_listing b = xs @ ys" "dir_listing b1 = xs @ (name, child) # ys" "xs \<noteq> []" using assms(2) by blast
  have fresh: "name \<notin> fst ` set (xs @ ys)" using assms(7,8) scan_found_listing [OF assms(1)] l(1) by auto
  then have nx: "name \<notin> fst ` set xs" by auto
  note p = prev_of_listing [OF ins(1) ins(3) [OF assms(2)] l(2) nx l(3), of 0, folded assms(11)]
  note u = dir_block_unlink_spec [OF ins(1) ins(3) [OF assms(2)] assms(11) p(1,2)]
  from u(3) obtain us vs where uv: "dir_listing b1 = us @ (name, ds_ino sc1) # vs" "name \<notin> fst ` set us"
    "dir_listing (dir_block_unlink b1 sc1 crc) = us @ vs" by blast
  have e: "us @ (name, child) # vs = xs @ (name, child) # ys" using uv(1) l(2) p(3) by simp
  have "(name, child) \<notin> set xs" "(name, child) \<notin> set ys" using fresh by force+
  then have "us = xs \<and> vs = ys" using e append_Cons_eq_iff [of "(name, child)" xs ys us vs] by metis
  then show ?thesis using p u(1,2) uv(3) l(1) by simp
qed

lemma example_scan:
  assumes "sc = scan_dir_block_mutable (new_dir_block 2 1 crc) [0x61] (dir_rec_len (length [0x61 :: 8 word]))"
  shows "\<not> ds_found sc \<and> ds_slot_valid sc"
  using new_dir_block_recs [of 2 1 crc]
  by (simp add: assms scan_block_recs Let_def dir_rec_len_def empty_scan_def d_name_def cstr_def)

definition example_fs :: kifs_fs where
  "example_fs = \<lparr>fs_dev = PartDev 0, fs_sb = decode_sb (replicate 4096 0), fs_dev_blocks = 64, fs_usable_blocks = 64, fs_data_start = 8,
     fs_data_end = 64, fs_journal_start = 64, fs_readonly = False, fs_meta_crc = True\<rparr>"

theorem dir_insert_listing_witness:
  "\<exists>b. parse_dir_block example_fs b (dir_lookup_cb [0x61]) (False, 0) = (False, True, 3)"
proof -
  define sc where "sc = scan_dir_block_mutable (new_dir_block 2 1 True) [0x61] (dir_rec_len (length [0x61 :: 8 word]))"
  have crc: "fs_meta_crc example_fs = True" by (simp add: example_fs_def)
  have wf: "dir_wf (fs_meta_crc example_fs) (new_dir_block 2 1 True)" unfolding crc by (rule new_dir_block_recs) simp_all
  show ?thesis
    using dir_insert_listing [OF wf _ _ _ _ sc_def _ _ refl, of 3 0] example_scan [OF sc_def] by (auto simp: kifs_name_valid_def)
qed

theorem dir_insert_remove_roundtrip_witness:
  "\<exists>b1 sc1. ds_found sc1 \<and> dir_listing (dir_block_unlink b1 sc1 True) = [([0x2E], 2), ([0x2E, 0x2E], 1)]"
proof -
  define b where "b = new_dir_block 2 1 True"
  define sc where "sc = scan_dir_block_mutable b [0x61] (dir_rec_len (length [0x61 :: 8 word]))"
  have wf: "dir_wf True b" unfolding b_def by (rule new_dir_block_recs) simp_all
  have ls: "all_live b" "dir_listing b = [([0x2E], 2), ([0x2E, 0x2E], 1)]" unfolding b_def by (simp_all add: new_dir_listing)
  show ?thesis
    using dir_insert_remove_roundtrip [OF wf ls(1) _ _ _ _ sc_def _ _ refl refl, of 3 0] example_scan [OF sc_def [unfolded b_def]] ls(2)
    by (auto simp: kifs_name_valid_def)
qed

text \<open>C9: with metadata checksums on, overwriting four adjacent bytes of a valid block by other bytes makes the block invalid, if the four
  bytes lie in front of the checksum field (bytes 16 to 19), are that field, or lie behind it. Damage that reaches
  across an end of the field is not covered: a change of the contents and a matching change of the sum are not noticed.\<close>

theorem metadata_damage_detected:
  assumes "length b = KIFS_BLOCK_SIZE" and "validate_shdr b magic typ True"
    and "off + 4 \<le> 16 \<or> off = 16 \<or> 20 \<le> off" and "off + 4 \<le> KIFS_BLOCK_SIZE" and "length xs = 4" and "slice off 4 b \<noteq> xs"
  shows "\<not> validate_shdr (splice off xs b) magic typ True"
proof (cases "off = 16")
  case True
  then show ?thesis using checksum_damage_detected [OF assms(1,2,5)] assms(6) by simp
next
  case False
  then show ?thesis using damage_detected [OF assms(1,2) _ assms(4-6)] assms(3) by blast
qed

theorem metadata_damage_detected_witness:
  "\<not> validate_shdr (splice 100 [1, 2, 3, 4] (init_dir_block 1 True)) KIFS_MAGIC_DIR KIFS_BTYPE_DIR True"
proof (rule metadata_damage_detected)
  have "slice 100 4 (init_dir_block 1 True) ! 0 = 0" by (simp add: slice_def init_dir_block_facts)
  then show "slice 100 4 (init_dir_block 1 True) \<noteq> [1, 2, 3, 4]" by auto
qed (use init_dir_block_facts(1,6) [where p = 1 and crc = True] in \<open>simp_all add: dir_wf_def\<close>)

end
