(* ===== verification/Kifs_Fs.thy ===== *)
theory Kifs_Fs
  imports Kifs_Dir
begin

text \<open>
  The middle layer of KiFS (\<open>src/src/fs/kifs/kifs.c\<close>): superblocks, bitmaps, inodes, extent
  lookup, directories and the allocation of extents, over the buffer cache. The state is the cache
  and the outcomes of the allocations from the kernel heap (\<open>k_mem n\<close> says whether the n-th call of
  \<open>kmalloc\<close> succeeds): buffers from \<open>kmalloc\<close> are private to one call, so only success matters.
\<close>

section \<open>State\<close>

record kstate =
  k_cache :: bcache
  k_mem :: "nat \<Rightarrow> bool"
  k_allocs :: nat

definition kmalloc_ok :: "kstate \<Rightarrow> bool \<times> kstate" where
  "kmalloc_ok s = (k_mem s (k_allocs s), s\<lparr>k_allocs := k_allocs s + 1\<rparr>)"

text \<open>Fetch a block, look at it, possibly change it and mark it dirty, release it: \<open>f\<close> gives the
  result and the new contents, if there are any.\<close>

definition with_block :: "blockdev \<Rightarrow> nat \<Rightarrow> (bytes \<Rightarrow> 'r \<times> bytes option) \<Rightarrow> kstate \<Rightarrow> 'r option \<times> kstate" where
  "with_block d n f s =
     (case bcache_get d n (k_cache s) of
        (None, c) \<Rightarrow> (None, s\<lparr>k_cache := c\<rparr>)
      | (Some b, c) \<Rightarrow>
        (case f (bcache_data b c) of
           (r, None) \<Rightarrow> (Some r, s\<lparr>k_cache := bcache_put b c\<rparr>)
         | (r, Some bs) \<Rightarrow> (Some r, s\<lparr>k_cache := bcache_put b (bcache_store b bs c)\<rparr>)))"

definition read_block_raw :: "blockdev \<Rightarrow> nat \<Rightarrow> kstate \<Rightarrow> bytes option \<times> kstate" where
  "read_block_raw d n s = with_block d n (\<lambda>b. (b, None)) s"

definition write_block_raw :: "blockdev \<Rightarrow> nat \<Rightarrow> bytes \<Rightarrow> kstate \<Rightarrow> bool \<times> kstate" where
  "write_block_raw d n bs s = (let (r, s') = with_block d n (\<lambda>b. ((), Some bs)) s in (r \<noteq> None, s'))"

definition sync_dev :: "blockdev \<Rightarrow> kstate \<Rightarrow> bool \<times> kstate" where
  "sync_dev d s = (let (ok, c) = bcache_sync_dev d (k_cache s) in (ok, s\<lparr>k_cache := c\<rparr>))"

section \<open>Superblocks\<close>

definition validate_superblock_at :: "blockdev \<Rightarrow> nat \<Rightarrow> nat \<Rightarrow> kstate \<Rightarrow> kifs_superblock option \<times> kstate" where
  "validate_superblock_at d dev_blocks blkno s =
     (let (ok, s1) = kmalloc_ok s in
      if \<not> ok then (None, s1) else
      let (r, s2) = read_block_raw d blkno s1 in
      case r of
        None \<Rightarrow> (None, s2)
      | Some buf \<Rightarrow>
        if \<not> validate_shdr buf KIFS_MAGIC_SUPER KIFS_BTYPE_SUPER True then (None, s2)
        else if sb_blockno (decode_sb buf) \<noteq> blkno then (None, s2)
        else if \<not> sb_layout_sane (decode_sb buf) dev_blocks then (None, s2)
        else (Some (decode_sb buf), s2))"

definition pick_superblock :: "blockdev \<Rightarrow> nat \<Rightarrow> kstate \<Rightarrow> kifs_superblock option \<times> kstate" where
  "pick_superblock d dev_blocks s =
     (let (a_ok, s1) = kmalloc_ok s; (b_ok, s2) = kmalloc_ok s1 in
      if \<not> a_ok \<or> \<not> b_ok then (None, s2) else
      let (va, s3) = validate_superblock_at d dev_blocks 0 s2;
          (vb, s4) = validate_superblock_at d dev_blocks 1 s3 in
      (case (va, vb) of
         (None, None) \<Rightarrow> None
       | (Some a, None) \<Rightarrow> Some a
       | (None, Some b) \<Rightarrow> Some b
       | (Some a, Some b) \<Rightarrow> if sb_seq a > sb_seq b then Some a else if sb_seq b > sb_seq a then Some b else Some a, s4))"

section \<open>Inodes\<close>

definition inode_block :: "kifs_fs \<Rightarrow> nat \<Rightarrow> nat" where
  "inode_block fs n = add32 (sb_inode_table_start (fs_sb fs)) (n div 16)"

definition inode_offset :: "nat \<Rightarrow> nat" where
  "inode_offset n = n mod 16 * INODE_SIZE"

definition inode_read :: "kifs_fs \<Rightarrow> nat \<Rightarrow> kstate \<Rightarrow> kifs_inode option \<times> kstate" where
  "inode_read fs n s =
     (if n = 0 then (None, s)
      else if n \<ge> sb_inode_count (fs_sb fs) then (None, s)
      else
        let (r, s1) = with_block (fs_dev fs) (inode_block fs n)
                        (\<lambda>b. (decode_inode (slice (inode_offset n) INODE_SIZE b), None)) s in
        case r of
          None \<Rightarrow> (None, s1)
        | Some ino \<Rightarrow> if inode_validate fs ino then (Some ino, s1) else (None, s1))"

definition inode_write :: "kifs_fs \<Rightarrow> nat \<Rightarrow> kifs_inode \<Rightarrow> kstate \<Rightarrow> bool \<times> kstate" where
  "inode_write fs n ino s =
     (if n = 0 \<or> n \<ge> sb_inode_count (fs_sb fs) then (False, s)
      else
        let (r, s1) = with_block (fs_dev fs) (inode_block fs n)
                        (\<lambda>b. ((), Some (splice (inode_offset n) (encode_inode ino) b))) s
        in (r \<noteq> None, s1))"

definition inode_clear :: "kifs_fs \<Rightarrow> nat \<Rightarrow> kstate \<Rightarrow> bool \<times> kstate" where
  "inode_clear fs n s = inode_write fs n null_inode s"

section \<open>Extent lookup\<close>

text \<open>The descent: \<open>depth\<close> goes down by one with every internal node.\<close>

fun extent_descend :: "kifs_fs \<Rightarrow> nat \<Rightarrow> nat \<Rightarrow> nat \<Rightarrow> kstate \<Rightarrow> nat option \<times> kstate" where
  "extent_descend fs fb depth cur s =
     (let (r, s1) = with_block (fs_dev fs) cur (\<lambda>b. (b, None)) s in
      case r of
        None \<Rightarrow> (None, s1)
      | Some buf \<Rightarrow>
        if \<not> extnode_validate fs buf then (None, s1)
        else if node_height buf \<noteq> depth then (None, s1)
        else if node_type buf = 1 then
          (case depth of
             0 \<Rightarrow> (None, s1)
           | Suc depth' \<Rightarrow>
             (case best_child fb None (internal_ents buf) of
                None \<Rightarrow> (None, s1)
              | Some child \<Rightarrow> extent_descend fs fb depth' child s1))
        else if depth \<noteq> 0 then (None, s1)
        else (leaf_find fb (leaf_ents buf), s1))"

declare extent_descend.simps [simp del]

definition extent_tree_lookup :: "kifs_fs \<Rightarrow> kifs_inode \<Rightarrow> nat \<Rightarrow> kstate \<Rightarrow> nat option \<times> kstate" where
  "extent_tree_lookup fs ino fb s =
     (if i_height ino = 0 then (None, s) else
      let (ok, s1) = kmalloc_ok s in
      if \<not> ok then (None, s1) else extent_descend fs fb (i_height ino) (i_root ino) s1)"

definition map_file_block :: "kifs_fs \<Rightarrow> kifs_inode \<Rightarrow> nat \<Rightarrow> kstate \<Rightarrow> nat option \<times> kstate" where
  "map_file_block fs ino fb s =
     (case map_inline ino fb of Some b \<Rightarrow> (Some b, s) | None \<Rightarrow> extent_tree_lookup fs ino fb s)"

section \<open>Bitmaps\<close>

definition bitmap_payload_get :: "bytes \<Rightarrow> nat \<Rightarrow> bool" where
  "bitmap_payload_get p k = byte_test (p ! (k div 8)) (k mod 8)"

definition bitmap_payload_set :: "bytes \<Rightarrow> nat \<Rightarrow> bytes" where
  "bitmap_payload_set p k = p[k div 8 := byte_set (p ! (k div 8)) (k mod 8)]"

definition bitmap_payload_clear :: "bytes \<Rightarrow> nat \<Rightarrow> bytes" where
  "bitmap_payload_clear p k = p[k div 8 := byte_clear (p ! (k div 8)) (k mod 8)]"

text \<open>\<open>update\<close> is the value to store, if any; the result is the value found.\<close>

definition bitmap_access :: "kifs_fs \<Rightarrow> bool \<Rightarrow> nat \<Rightarrow> bool option \<Rightarrow> kstate \<Rightarrow> bool option \<times> kstate" where
  "bitmap_access fs inode_bitmap bit_index update s =
     (let start = (if inode_bitmap then sb_inode_bitmap_start (fs_sb fs) else sb_block_bitmap_start (fs_sb fs));
          blocks = (if inode_bitmap then sb_inode_bitmap_blocks (fs_sb fs) else sb_block_bitmap_blocks (fs_sb fs));
          magic = (if inode_bitmap then KIFS_MAGIC_IMB else KIFS_MAGIC_BMB);
          btype = (if inode_bitmap then KIFS_BTYPE_IMB else KIFS_BTYPE_BMB);
          bi = bit_index div KIFS_BITMAP_BITS_PER_BLOCK;
          k = bit_index mod KIFS_BITMAP_BITS_PER_BLOCK in
      if bi \<ge> blocks then (None, s) else
      let (r, s1) = with_block (fs_dev fs) (add32 start bi)
        (\<lambda>b. if \<not> validate_shdr b magic btype (fs_meta_crc fs) then (None, None)
             else
               let payload = drop SHDR_SIZE b; v = bitmap_payload_get payload k in
               (Some v,
                case update of
                  None \<Rightarrow> None
                | Some nv \<Rightarrow>
                  Some (structured_rechecksum (take SHDR_SIZE b @
                     (if nv then bitmap_payload_set payload k else bitmap_payload_clear payload k)) (fs_meta_crc fs)))) s
      in (case r of None \<Rightarrow> None | Some v \<Rightarrow> v, s1))"

function bitmap_alloc_range :: "kifs_fs \<Rightarrow> bool \<Rightarrow> nat \<Rightarrow> nat \<Rightarrow> kstate \<Rightarrow> nat option \<times> kstate" where
  "bitmap_alloc_range fs inode_bitmap k end_bit s =
     (if k < end_bit then
        let (r, s1) = bitmap_access fs inode_bitmap k None s in
        case r of
          None \<Rightarrow> (None, s1)
        | Some used \<Rightarrow>
          if used then bitmap_alloc_range fs inode_bitmap (k + 1) end_bit s1
          else
            let (r2, s2) = bitmap_access fs inode_bitmap k (Some True) s1
            in (if r2 = None then (None, s2) else (Some k, s2))
      else (None, s))"
  by pat_completeness auto
termination
  by (relation "measure (\<lambda>(fs, ib, k, end_bit, s). end_bit - k)") auto

declare bitmap_alloc_range.simps [simp del]

definition inode_alloc :: "kifs_fs \<Rightarrow> kstate \<Rightarrow> nat option \<times> kstate" where
  "inode_alloc fs s = bitmap_alloc_range fs True 1 (sb_inode_count (fs_sb fs)) s"

definition data_block_alloc :: "kifs_fs \<Rightarrow> kstate \<Rightarrow> nat option \<times> kstate" where
  "data_block_alloc fs s = bitmap_alloc_range fs False (fs_data_start fs) (fs_data_end fs) s"

definition inode_free :: "kifs_fs \<Rightarrow> nat \<Rightarrow> kstate \<Rightarrow> kstate" where
  "inode_free fs n s = snd (bitmap_access fs True n (Some False) s)"

definition data_block_free :: "kifs_fs \<Rightarrow> nat \<Rightarrow> kstate \<Rightarrow> kstate" where
  "data_block_free fs n s = snd (bitmap_access fs False n (Some False) s)"

section \<open>Directories\<close>

definition block_count_of :: "nat \<Rightarrow> nat" where
  "block_count_of size_bytes = (size_bytes + (KIFS_BLOCK_SIZE - 1)) mod 2 ^ 64 div KIFS_BLOCK_SIZE mod 2 ^ 32"

function dir_iterate_from ::
  "kifs_fs \<Rightarrow> kifs_inode \<Rightarrow> (bytes \<Rightarrow> nat \<Rightarrow> 'u \<Rightarrow> bool \<times> 'u) \<Rightarrow> nat \<Rightarrow> nat \<Rightarrow> 'u \<Rightarrow> kstate \<Rightarrow> bool \<times> 'u \<times> kstate" where
  "dir_iterate_from fs ino cb fb nblocks user s =
     (if fb < nblocks then
        let (m, s1) = map_file_block fs ino fb s in
        case m of
          None \<Rightarrow> dir_iterate_from fs ino cb (fb + 1) nblocks user s1
        | Some disk \<Rightarrow>
          let (r, s2) = with_block (fs_dev fs) disk (\<lambda>b. (b, None)) s1 in
          (case r of
             None \<Rightarrow> dir_iterate_from fs ino cb (fb + 1) nblocks user s2
           | Some buf \<Rightarrow>
             let (go, user') = parse_dir_block fs buf cb user in
             if \<not> go then (False, user', s2) else dir_iterate_from fs ino cb (fb + 1) nblocks user' s2)
      else (True, user, s))"
  by pat_completeness auto
termination
  by (relation "measure (\<lambda>(fs, ino, cb, fb, nblocks, user, s). nblocks - fb)") auto

declare dir_iterate_from.simps [simp del]

definition dir_iterate ::
  "kifs_fs \<Rightarrow> kifs_inode \<Rightarrow> (bytes \<Rightarrow> nat \<Rightarrow> 'u \<Rightarrow> bool \<times> 'u) \<Rightarrow> 'u \<Rightarrow> kstate \<Rightarrow> bool \<times> 'u \<times> kstate" where
  "dir_iterate fs ino cb user s =
     (let (ok, s1) = kmalloc_ok s in
      if \<not> ok then (False, user, s1) else dir_iterate_from fs ino cb 0 (block_count_of (i_size ino)) user s1)"

definition dir_lookup :: "kifs_fs \<Rightarrow> kifs_inode \<Rightarrow> bytes \<Rightarrow> kstate \<Rightarrow> nat option \<times> kstate" where
  "dir_lookup fs ino name s =
     (let (ok, (found, n), s1) = dir_iterate fs ino (dir_lookup_cb name) (False, 0) s
      in (if found then Some n else None, s1))"

definition dir_is_empty :: "kifs_fs \<Rightarrow> kifs_inode \<Rightarrow> kstate \<Rightarrow> bool \<times> kstate" where
  "dir_is_empty fs ino s =
     (if i_type ino \<noteq> KIFS_INO_T_DIR then (False, s)
      else let (ok, e, s1) = dir_iterate fs ino dir_empty_cb True s in (e, s1))"

text \<open>The extent list of a directory grown by one block.\<close>

definition grow_extents :: "kifs_inode \<Rightarrow> nat \<Rightarrow> nat \<Rightarrow> kifs_inode option" where
  "grow_extents ino fb disk =
     (let n = i_inline_count ino; es = i_extents ino in
      if n > 0 then
        let e = es ! (n - 1) in
        if add32 (e_file e) (e_count e) = fb \<and> add32 (e_disk e) (e_count e) = disk
        then Some (ino\<lparr>i_extents := es[n - 1 := e\<lparr>e_count := add32 (e_count e) 1\<rparr>]\<rparr>)
        else if n < 8 then
          Some (ino\<lparr>i_extents := es[n := \<lparr>e_file = fb, e_disk = disk, e_count = 1\<rparr>], i_inline_count := n + 1\<rparr>)
        else None
      else Some (ino\<lparr>i_inline_count := 1, i_extents := es[0 := \<lparr>e_file = fb, e_disk = disk, e_count = 1\<rparr>]\<rparr>))"

text \<open>A name has at most 255 bytes, so the test that its record fits into an empty block succeeds.\<close>

definition dir_append_entry_block ::
  "kifs_fs \<Rightarrow> nat \<Rightarrow> kifs_inode \<Rightarrow> bytes \<Rightarrow> nat \<Rightarrow> nat \<Rightarrow> nat \<Rightarrow> kstate \<Rightarrow> bool \<times> kifs_inode \<times> kstate" where
  "dir_append_entry_block fs dir_n ino name child ftype need_rec s =
     (if i_type ino \<noteq> KIFS_INO_T_DIR \<or> i_height ino \<noteq> 0 \<or> need_rec = 0 then (False, ino, s) else
      let (a, s1) = data_block_alloc fs s in
      case a of
        None \<Rightarrow> (False, ino, s1)
      | Some disk \<Rightarrow>
        let (r, s2) = with_block (fs_dev fs) disk
              (\<lambda>b. let b0 = init_dir_block dir_n (fs_meta_crc fs);
                       off = h_header_bytes (shdr_of b0);
                       rec = (KIFS_BLOCK_SIZE - off) div 8 * 8
                   in if rec < need_rec then (False, None)
                      else (True, Some (structured_rechecksum (dir_write_ent b0 off child name ftype rec) (fs_meta_crc fs)))) s1 in
        (case r of
           Some True \<Rightarrow>
             let fb = block_count_of (i_size ino) in
             (case grow_extents ino fb disk of
                None \<Rightarrow> (False, ino, data_block_free fs disk s2)
              | Some ino1 \<Rightarrow>
                let ino2 = ino1\<lparr>i_size := (fb + 1) * KIFS_BLOCK_SIZE mod 2 ^ 64,
                                i_mtime := (i_mtime ino1 + 1) mod 2 ^ 64, i_ctime := (i_ctime ino1 + 1) mod 2 ^ 64\<rparr>;
                    (ok, s3) = inode_write fs dir_n ino2 s2 in
                if \<not> ok then (False, ino2, data_block_free fs disk s3) else (True, ino2, s3))
         | _ \<Rightarrow> (False, ino, data_block_free fs disk s2)))"

function dir_add_from ::
  "kifs_fs \<Rightarrow> nat \<Rightarrow> kifs_inode \<Rightarrow> bytes \<Rightarrow> nat \<Rightarrow> nat \<Rightarrow> nat \<Rightarrow> nat \<Rightarrow> nat \<Rightarrow> kstate \<Rightarrow> bool \<times> kifs_inode \<times> kstate" where
  "dir_add_from fs dir_n ino name child ftype need_rec fb nblocks s =
     (if fb < nblocks then
        let (m, s1) = map_file_block fs ino fb s in
        case m of
          None \<Rightarrow> dir_add_from fs dir_n ino name child ftype need_rec (fb + 1) nblocks s1
        | Some disk \<Rightarrow>
          let (r, s2) = with_block (fs_dev fs) disk
            (\<lambda>b. if \<not> validate_shdr b KIFS_MAGIC_DIR KIFS_BTYPE_DIR (fs_meta_crc fs) then (None, None)
                 else
                   let scan = scan_dir_block_mutable b name need_rec in
                   if ds_found scan then (Some False, None)
                   else if \<not> ds_slot_valid scan then (None, None)
                   else (Some True, Some (dir_block_insert b scan child name ftype (fs_meta_crc fs)))) s1 in
          (case r of
             Some (Some ok) \<Rightarrow> (ok, ino, s2)
           | _ \<Rightarrow> dir_add_from fs dir_n ino name child ftype need_rec (fb + 1) nblocks s2)
      else dir_append_entry_block fs dir_n ino name child ftype need_rec s)"
  by pat_completeness auto
termination
  by (relation "measure (\<lambda>(fs, dn, ino, nm, c, ft, nr, fb, nblocks, s). nblocks - fb)") auto

declare dir_add_from.simps [simp del]

definition dir_add_entry ::
  "kifs_fs \<Rightarrow> nat \<Rightarrow> kifs_inode \<Rightarrow> bytes \<Rightarrow> nat \<Rightarrow> nat \<Rightarrow> kstate \<Rightarrow> bool \<times> kifs_inode \<times> kstate" where
  "dir_add_entry fs dir_n ino name child ftype s =
     (if i_type ino \<noteq> KIFS_INO_T_DIR \<or> \<not> kifs_name_valid name then (False, ino, s)
      else dir_add_from fs dir_n ino name child ftype (dir_rec_len (length name mod 256)) 0 (block_count_of (i_size ino)) s)"

text \<open>The result of the removal is the inode number of the entry that was removed.\<close>

function dir_remove_from :: "kifs_fs \<Rightarrow> kifs_inode \<Rightarrow> bytes \<Rightarrow> nat \<Rightarrow> nat \<Rightarrow> kstate \<Rightarrow> nat option \<times> kstate" where
  "dir_remove_from fs ino name fb nblocks s =
     (if fb < nblocks then
        let (m, s1) = map_file_block fs ino fb s in
        case m of
          None \<Rightarrow> dir_remove_from fs ino name (fb + 1) nblocks s1
        | Some disk \<Rightarrow>
          let (r, s2) = with_block (fs_dev fs) disk
            (\<lambda>b. if \<not> validate_shdr b KIFS_MAGIC_DIR KIFS_BTYPE_DIR (fs_meta_crc fs) then (None, None)
                 else
                   let scan = scan_dir_block_mutable b name 0 in
                   if \<not> ds_found scan then (None, None)
                   else if \<not> ds_prev_valid scan then (Some None, None)
                   else (Some (Some (ds_ino scan)), Some (dir_block_unlink b scan (fs_meta_crc fs)))) s1 in
          (case r of
             Some (Some res) \<Rightarrow> (res, s2)
           | _ \<Rightarrow> dir_remove_from fs ino name (fb + 1) nblocks s2)
      else (None, s))"
  by pat_completeness auto
termination
  by (relation "measure (\<lambda>(fs, ino, nm, fb, nblocks, s). nblocks - fb)") auto

declare dir_remove_from.simps [simp del]

definition dir_remove_entry :: "kifs_fs \<Rightarrow> kifs_inode \<Rightarrow> bytes \<Rightarrow> kstate \<Rightarrow> nat option \<times> kstate" where
  "dir_remove_entry fs ino name s =
     (if i_type ino \<noteq> KIFS_INO_T_DIR \<or> \<not> kifs_name_valid name then (None, s)
      else dir_remove_from fs ino name 0 (block_count_of (i_size ino)) s)"

section \<open>Allocating and filling extents\<close>

definition extent_blocks :: "kifs_extent \<Rightarrow> nat list" where
  "extent_blocks e = map (\<lambda>j. add32 (e_disk e) j) [0..<e_count e]"

definition blocks_of :: "kifs_extent list \<Rightarrow> nat list" where
  "blocks_of es = concat (map extent_blocks es)"

text \<open>The scan for free blocks: \<open>cs\<close>, \<open>cl\<close> and \<open>cf\<close> are the start, length and file block of the run being
  collected, \<open>acc\<close> the extents that are complete.\<close>

function extent_scan ::
  "kifs_fs \<Rightarrow> nat \<Rightarrow> nat \<Rightarrow> nat \<Rightarrow> nat \<Rightarrow> nat \<Rightarrow> kifs_extent list \<Rightarrow> kstate \<Rightarrow> (nat \<times> nat \<times> nat \<times> nat \<times> kifs_extent list) option \<times> kstate" where
  "extent_scan fs b remaining cs cl cf acc s =
     (if b < fs_data_end fs \<and> remaining > 0 then
        let (r, s1) = bitmap_access fs False b None s in
        case r of
          None \<Rightarrow> (None, s1)
        | Some True \<Rightarrow>
          if cl \<noteq> 0 then
            if length acc \<ge> 8 then (None, s1)
            else extent_scan fs (b + 1) remaining cs 0 (add32 cf cl) (acc @ [\<lparr>e_file = cf, e_disk = cs, e_count = cl\<rparr>]) s1
          else extent_scan fs (b + 1) remaining cs cl cf acc s1
        | Some False \<Rightarrow>
          if cl = 0 then extent_scan fs (b + 1) (remaining - 1) b 1 cf acc s1
          else if b = add32 cs cl then extent_scan fs (b + 1) (remaining - 1) cs (add32 cl 1) cf acc s1
          else if length acc \<ge> 8 then (None, s1)
          else extent_scan fs (b + 1) (remaining - 1) b 1 (add32 cf cl) (acc @ [\<lparr>e_file = cf, e_disk = cs, e_count = cl\<rparr>]) s1
      else (Some (remaining, cs, cl, cf, acc), s))"
  by pat_completeness auto
termination
  by (relation "measure (\<lambda>(fs, b, rem, cs, cl, cf, acc, s). fs_data_end fs - b)") auto

declare extent_scan.simps [simp del]

text \<open>Marking the blocks; on a failure those already marked are freed again.\<close>

fun mark_blocks :: "kifs_fs \<Rightarrow> nat list \<Rightarrow> nat list \<Rightarrow> kstate \<Rightarrow> bool \<times> kstate" where
  "mark_blocks fs marked [] s = (True, s)"
| "mark_blocks fs marked (b # bs) s =
     (let (r, s1) = bitmap_access fs False b (Some True) s in
      if r = None then (False, fold (data_block_free fs) marked s1) else mark_blocks fs (marked @ [b]) bs s1)"

definition allocate_extents :: "kifs_fs \<Rightarrow> nat \<Rightarrow> kstate \<Rightarrow> kifs_extent list option \<times> kstate" where
  "allocate_extents fs need_blocks s =
     (if need_blocks = 0 then (Some [], s) else
      let (r, s1) = extent_scan fs (fs_data_start fs) need_blocks 0 0 0 [] s in
      case r of
        None \<Rightarrow> (None, s1)
      | Some (remaining, cs, cl, cf, acc) \<Rightarrow>
        if cl \<noteq> 0 \<and> length acc \<ge> 8 then (None, s1)
        else
          let es = (if cl \<noteq> 0 then acc @ [\<lparr>e_file = cf, e_disk = cs, e_count = cl\<rparr>] else acc) in
          if remaining \<noteq> 0 then (None, s1)
          else let (ok, s2) = mark_blocks fs [] (blocks_of es) s1 in (if ok then Some es else None, s2))"

definition free_extent_array :: "kifs_fs \<Rightarrow> kifs_extent list \<Rightarrow> kstate \<Rightarrow> kstate" where
  "free_extent_array fs es s = fold (data_block_free fs) (blocks_of es) s"

definition free_inode_data :: "kifs_fs \<Rightarrow> kifs_inode \<Rightarrow> kstate \<Rightarrow> kstate" where
  "free_inode_data fs ino s =
     (if i_height ino \<noteq> 0 then s
      else fold (data_block_free fs) (blocks_of (take (min (i_inline_count ino) 8) (i_extents ino))) s)"

text \<open>Each block is zeroed and filled with the next bytes of \<open>data\<close>.\<close>

definition fill_block :: "bytes \<Rightarrow> bytes" where
  "fill_block chunk = splice 0 chunk (replicate KIFS_BLOCK_SIZE 0)"

fun write_blocks :: "kifs_fs \<Rightarrow> bytes \<Rightarrow> nat list \<Rightarrow> kstate \<Rightarrow> bool \<times> kstate" where
  "write_blocks fs data [] s = (True, s)"
| "write_blocks fs data (b # bs) s =
     (let chunk = take KIFS_BLOCK_SIZE data;
          (r, s1) = with_block (fs_dev fs) b (\<lambda>_. ((), Some (fill_block chunk))) s in
      if r = None then (False, s1) else write_blocks fs (drop KIFS_BLOCK_SIZE data) bs s1)"

definition write_extent_data :: "kifs_fs \<Rightarrow> bytes \<Rightarrow> kifs_extent list \<Rightarrow> kstate \<Rightarrow> bool \<times> kstate" where
  "write_extent_data fs data es s = write_blocks fs data (blocks_of es) s"

definition pad_extents :: "kifs_extent list \<Rightarrow> kifs_extent list" where
  "pad_extents es = es @ replicate (8 - length es) no_extent"

text \<open>The file is given by its inode number; on success the size of the vnode is the length of the
  new contents.\<close>

definition replace_file_contents :: "kifs_fs \<Rightarrow> nat \<Rightarrow> kifs_inode \<Rightarrow> bytes \<Rightarrow> kstate \<Rightarrow> bool \<times> kstate" where
  "replace_file_contents fs n old data s =
     (if i_type old \<noteq> KIFS_INO_T_FILE \<or> i_height old \<noteq> 0 then (False, s) else
      let (a, s1) = allocate_extents fs (block_count_of (length data)) s in
      case a of
        None \<Rightarrow> (False, s1)
      | Some es \<Rightarrow>
        let (w, s2) = write_extent_data fs data es s1 in
        if \<not> w then (False, free_extent_array fs es s2)
        else
          let new = old\<lparr>i_size := length data, i_inline_count := length es, i_height := 0, i_root := 0,
                        i_mtime := (i_mtime old + 1) mod 2 ^ 64, i_ctime := (i_ctime old + 1) mod 2 ^ 64,
                        i_extents := pad_extents es\<rparr>;
              (ok, s3) = inode_write fs n new s2 in
          if \<not> ok then (False, free_extent_array fs es s3) else (True, free_inode_data fs old s3))"

text \<open>Appending extents to those of an inode, the first ones merged into the last if adjacent.\<close>

fun add_extents :: "kifs_inode \<Rightarrow> kifs_extent list \<Rightarrow> kifs_inode option" where
  "add_extents ino [] = Some ino"
| "add_extents ino (e # es) =
     (let n = i_inline_count ino; l = i_extents ino ! (n - 1) in
      if n > 0 \<and> add32 (e_file l) (e_count l) = e_file e \<and> add32 (e_disk l) (e_count l) = e_disk e
      then add_extents (ino\<lparr>i_extents := (i_extents ino)[n - 1 := l\<lparr>e_count := add32 (e_count l) (e_count e)\<rparr>]\<rparr>) es
      else if n \<ge> 8 then None
      else add_extents (ino\<lparr>i_extents := (i_extents ino)[n := e], i_inline_count := n + 1\<rparr>) es)"

text \<open>The tail of the last block, when the old size is not a multiple of the block size; the result is
  the number of bytes stored there.\<close>

definition append_tail :: "kifs_fs \<Rightarrow> kifs_inode \<Rightarrow> bytes \<Rightarrow> kstate \<Rightarrow> nat option \<times> kstate" where
  "append_tail fs old data s =
     (if i_size old mod KIFS_BLOCK_SIZE = 0 then (Some 0, s) else
      let fb = i_size old div KIFS_BLOCK_SIZE mod 2 ^ 32;
          in_blk = i_size old mod KIFS_BLOCK_SIZE;
          chunk = min (length data) (KIFS_BLOCK_SIZE - in_blk);
          (m, s1) = map_file_block fs old fb s in
      case m of
        None \<Rightarrow> (None, s1)
      | Some disk \<Rightarrow>
        let (r, s2) = with_block (fs_dev fs) disk (\<lambda>b. ((), Some (splice in_blk (take chunk data) b))) s1
        in (if r = None then None else Some chunk, s2))"

definition append_file_contents :: "kifs_fs \<Rightarrow> nat \<Rightarrow> kifs_inode \<Rightarrow> bytes \<Rightarrow> kstate \<Rightarrow> bool \<times> kstate" where
  "append_file_contents fs n old data s =
     (if i_type old \<noteq> KIFS_INO_T_FILE \<or> i_height old \<noteq> 0 \<or> i_inline_count old > 8 then (False, s)
      else if data = [] then (True, s)
      else if i_size old > 2 ^ 64 - 1 - length data then (False, s)
      else
        let (t, s1) = append_tail fs old data s in
        case t of
          None \<Rightarrow> (False, s1)
        | Some copied \<Rightarrow>
          let first = block_count_of (i_size old);
              need = block_count_of (length data - copied);
              (a, s2) = (if need \<noteq> 0 then allocate_extents fs need s1 else (Some [], s1)) in
          (case a of
             None \<Rightarrow> (False, s2)
           | Some es0 \<Rightarrow>
             let es = map (\<lambda>e. e\<lparr>e_file := add32 (e_file e) first\<rparr>) es0 in
             (case add_extents old es of
                None \<Rightarrow> (False, free_extent_array fs es s2)
              | Some new0 \<Rightarrow>
                let (w, s3) = (if need \<noteq> 0 then write_extent_data fs (drop copied data) es s2 else (True, s2)) in
                if \<not> w then (False, free_extent_array fs es s3)
                else
                  let new = new0\<lparr>i_size := i_size old + length data, i_mtime := (i_mtime old + 1) mod 2 ^ 64,
                                 i_ctime := (i_ctime old + 1) mod 2 ^ 64\<rparr>;
                      (ok, s4) = inode_write fs n new s3 in
                  if \<not> ok then (False, free_extent_array fs es s4) else (True, s4))))"

end
