(* ===== verification/Vfs_Types.thy ===== *)
theory Vfs_Types
  imports Prelude
begin

text \<open>
  The data that the virtual file system and its drivers share, from \<open>src/src/vfs/vfs.h\<close>. A vnode here is
  what a driver keeps in it; the mount it belongs to is an argument of the operations.
\<close>

datatype vnode_type = VNODE_NONE | VNODE_FILE | VNODE_DIR

record vfs_stat =
  st_type :: vnode_type
  st_ino :: nat
  st_size :: nat
  st_mode :: nat
  st_link_count :: nat
  st_mtime :: nat
  st_ctime :: nat

record vnode =
  vn_type :: vnode_type
  vn_ino :: nat
  vn_size :: nat
  vn_refcount :: nat

text \<open>An unsigned 64-bit value read as \<open>int64_t\<close>.\<close>

definition i64 :: "nat \<Rightarrow> int" where
  "i64 n = (if n < 2 ^ 63 then int n else int n - 2 ^ 64)"

lemma i64_inj: "a < 2 ^ 64 \<Longrightarrow> b < 2 ^ 64 \<Longrightarrow> i64 a = i64 b \<longleftrightarrow> a = b"
  by (auto simp: i64_def split: if_splits)

end
