(* ===== verification/Kifs_Ops.thy ===== *)
theory Kifs_Ops
  imports Kifs_Fs Vfs_Types
begin

text \<open>
  The operations KiFS offers to the virtual file system, mounting and formatting
  (\<open>src/src/fs/kifs/kifs.c\<close>). A vnode's mount has the file system state \<open>fs\<close> as its private data.
\<close>

section \<open>Reading\<close>

definition vnode_from_inode :: "kifs_fs \<Rightarrow> nat \<Rightarrow> kstate \<Rightarrow> vnode option \<times> kstate" where
  "vnode_from_inode fs n s =
     (let (r, s1) = inode_read fs n s in
      case r of
        None \<Rightarrow> (None, s1)
      | Some ino \<Rightarrow>
        let (ok, s2) = kmalloc_ok s1 in
        if \<not> ok then (None, s2)
        else (Some \<lparr>vn_type = (if i_type ino = KIFS_INO_T_DIR then VNODE_DIR else VNODE_FILE), vn_ino = n,
                    vn_size = i_size ino, vn_refcount = 0\<rparr>, s2))"

definition kifs_vnode_stat :: "kifs_fs \<Rightarrow> vnode \<Rightarrow> kstate \<Rightarrow> vfs_stat option \<times> kstate" where
  "kifs_vnode_stat fs vn s =
     (let (r, s1) = inode_read fs (vn_ino vn) s in
      case r of
        None \<Rightarrow> (None, s1)
      | Some ino \<Rightarrow>
        (Some \<lparr>st_type = (if i_type ino = KIFS_INO_T_DIR then VNODE_DIR else VNODE_FILE), st_ino = vn_ino vn,
               st_size = i_size ino, st_mode = i_mode ino, st_link_count = i_link_count ino,
               st_mtime = i_mtime ino, st_ctime = i_ctime ino\<rparr>, s1))"

text \<open>The inode of a directory, or nothing.\<close>

definition dir_inode :: "kifs_fs \<Rightarrow> nat \<Rightarrow> kstate \<Rightarrow> kifs_inode option \<times> kstate" where
  "dir_inode fs n s =
     (let (r, s1) = inode_read fs n s in
      case r of
        None \<Rightarrow> (None, s1)
      | Some ino \<Rightarrow> (if i_type ino = KIFS_INO_T_DIR then Some ino else None, s1))"

definition kifs_vnode_lookup :: "kifs_fs \<Rightarrow> vnode \<Rightarrow> bytes \<Rightarrow> kstate \<Rightarrow> vnode option \<times> kstate" where
  "kifs_vnode_lookup fs dir name s =
     (let (r, s1) = dir_inode fs (vn_ino dir) s in
      case r of
        None \<Rightarrow> (None, s1)
      | Some din \<Rightarrow>
        let (f, s2) = dir_lookup fs din name s1 in
        (case f of None \<Rightarrow> (None, s2) | Some n \<Rightarrow> vnode_from_inode fs n s2))"

definition kifs_vnode_readdir ::
  "kifs_fs \<Rightarrow> vnode \<Rightarrow> (bytes \<Rightarrow> nat \<Rightarrow> 'u \<Rightarrow> bool \<times> 'u) \<Rightarrow> 'u \<Rightarrow> kstate \<Rightarrow> bool \<times> 'u \<times> kstate" where
  "kifs_vnode_readdir fs dir cb user s =
     (let (r, s1) = dir_inode fs (vn_ino dir) s in
      case r of None \<Rightarrow> (False, user, s1) | Some din \<Rightarrow> dir_iterate fs din cb user s1)"

text \<open>The loop of \<open>kifs_vnode_read\<close>: \<open>out\<close> is what has been copied so far; the result is None when a
  block cannot be fetched.\<close>

function read_loop :: "kifs_fs \<Rightarrow> kifs_inode \<Rightarrow> nat \<Rightarrow> nat \<Rightarrow> nat \<Rightarrow> bytes \<Rightarrow> kstate \<Rightarrow> bytes option \<times> kstate" where
  "read_loop fs ino offset to_read pos out s =
     (if pos < to_read then
        let cur = offset + pos;
            fb = cur div KIFS_BLOCK_SIZE mod 2 ^ 32;
            in_blk = cur mod KIFS_BLOCK_SIZE;
            chunk = min (to_read - pos) (KIFS_BLOCK_SIZE - in_blk);
            (m, s1) = map_file_block fs ino fb s in
        case m of
          None \<Rightarrow> read_loop fs ino offset to_read (pos + chunk) (out @ replicate chunk 0) s1
        | Some disk \<Rightarrow>
          let (r, s2) = with_block (fs_dev fs) disk (\<lambda>b. (slice in_blk chunk b, None)) s1 in
          (case r of
             None \<Rightarrow> (None, s2)
           | Some bs \<Rightarrow> read_loop fs ino offset to_read (pos + chunk) (out @ bs) s2)
      else (Some out, s))"
  by pat_completeness auto
termination
proof (relation "measure (\<lambda>(fs, ino, offset, to_read, pos, out, s). to_read - pos)", goal_cases)
  case 1
  show ?case by simp
next
  case (2 fs ino offset to_read pos out s cur fb in_blk chunk x m s1)
  have "in_blk < KIFS_BLOCK_SIZE" using 2(4) by simp
  then show ?case using 2(1,5) by auto
next
  case (3 fs ino offset to_read pos out s cur fb in_blk chunk x m s1 disk y r s2 bs)
  have "in_blk < KIFS_BLOCK_SIZE" using 3(4) by simp
  then show ?case using 3(1,5) by auto
qed

declare read_loop.simps [simp del]

text \<open>The bytes read, or None for an error (the code returns their number, or -1).\<close>

definition kifs_read_bytes :: "kifs_fs \<Rightarrow> nat \<Rightarrow> nat \<Rightarrow> nat \<Rightarrow> kstate \<Rightarrow> bytes option \<times> kstate" where
  "kifs_read_bytes fs n offset len s =
     (if len = 0 then (Some [], s) else
      let (r, s1) = inode_read fs n s in
      case r of
        None \<Rightarrow> (None, s1)
      | Some ino \<Rightarrow>
        if i_type ino \<noteq> KIFS_INO_T_FILE \<and> i_type ino \<noteq> KIFS_INO_T_DIR then (None, s1)
        else if offset \<ge> i_size ino then (Some [], s1)
        else read_loop fs ino offset (min len (i_size ino - offset)) 0 [] s1)"

definition kifs_vnode_read :: "kifs_fs \<Rightarrow> vnode \<Rightarrow> nat \<Rightarrow> nat \<Rightarrow> kstate \<Rightarrow> int \<times> bytes \<times> kstate" where
  "kifs_vnode_read fs vn offset len s =
     (let (r, s1) = kifs_read_bytes fs (vn_ino vn) offset len s in
      case r of None \<Rightarrow> (-1, [], s1) | Some bs \<Rightarrow> (i64 (length bs), bs, s1))"

section \<open>Writing\<close>

definition file_inode :: "kifs_fs \<Rightarrow> nat \<Rightarrow> kstate \<Rightarrow> kifs_inode option \<times> kstate" where
  "file_inode fs n s =
     (if fs_readonly fs then (None, s) else
      let (r, s1) = inode_read fs n s in
      case r of
        None \<Rightarrow> (None, s1)
      | Some ino \<Rightarrow> (if i_type ino = KIFS_INO_T_FILE then Some ino else None, s1))"

text \<open>A buffer of \<open>size\<close> zero bytes with the first \<open>keep\<close> bytes of the file read into it.\<close>

definition load_file :: "kifs_fs \<Rightarrow> vnode \<Rightarrow> nat \<Rightarrow> nat \<Rightarrow> kstate \<Rightarrow> bytes option \<times> kstate" where
  "load_file fs vn total_bytes keep s =
     (let (ok, s1) = kmalloc_ok s in
      if \<not> ok then (None, s1)
      else if keep = 0 then (Some (replicate total_bytes 0), s1)
      else
        let (r, bs, s2) = kifs_vnode_read fs vn 0 keep s1 in
        if r \<noteq> i64 keep then (None, s2) else (Some (splice 0 bs (replicate total_bytes 0)), s2))"

definition store_and_sync :: "kifs_fs \<Rightarrow> vnode \<Rightarrow> kifs_inode \<Rightarrow> bytes \<Rightarrow> kstate \<Rightarrow> bool \<times> vnode \<times> kstate" where
  "store_and_sync fs vn ino data s =
     (let (ok, s1) = replace_file_contents fs (vn_ino vn) ino data s in
      if \<not> ok then (False, vn, s1)
      else let (ok2, s2) = sync_dev (fs_dev fs) s1 in (ok2, vn\<lparr>vn_size := length data\<rparr>, s2))"

definition kifs_vnode_truncate :: "kifs_fs \<Rightarrow> vnode \<Rightarrow> nat \<Rightarrow> kstate \<Rightarrow> bool \<times> vnode \<times> kstate" where
  "kifs_vnode_truncate fs vn new_size s =
     (let (r, s1) = file_inode fs (vn_ino vn) s in
      case r of
        None \<Rightarrow> (False, vn, s1)
      | Some ino \<Rightarrow>
        if new_size = i_size ino then (True, vn, s1)
        else if new_size \<noteq> 0 then
          let (t, s2) = load_file fs vn new_size (min new_size (i_size ino)) s1 in
          (case t of None \<Rightarrow> (False, vn, s2) | Some tmp \<Rightarrow> store_and_sync fs vn ino tmp s2)
        else store_and_sync fs vn ino [] s1)"

definition kifs_vnode_write :: "kifs_fs \<Rightarrow> vnode \<Rightarrow> nat \<Rightarrow> bytes \<Rightarrow> kstate \<Rightarrow> int \<times> vnode \<times> kstate" where
  "kifs_vnode_write fs vn offset buf s =
     (let (r, s1) = file_inode fs (vn_ino vn) s in
      case r of
        None \<Rightarrow> (-1, vn, s1)
      | Some ino \<Rightarrow>
        if length buf = 0 then (0, vn, s1)
        else if offset > 2 ^ 64 - 1 - length buf then (-1, vn, s1)
        else if offset = i_size ino then
          let (ok, s2) = append_file_contents fs (vn_ino vn) ino buf s1 in
          if \<not> ok then (-1, vn, s2)
          else
            let (ok2, s3) = sync_dev (fs_dev fs) s2
            in (if ok2 then i64 (length buf) else -1, vn\<lparr>vn_size := i_size ino + length buf\<rparr>, s3)
        else
          let new_size = max (offset + length buf) (i_size ino);
              (t, s2) = load_file fs vn new_size (i_size ino) s1 in
          (case t of
             None \<Rightarrow> (-1, vn, s2)
           | Some tmp \<Rightarrow>
             let (ok, vn', s3) = store_and_sync fs vn ino (splice offset buf tmp) s2
             in (if ok then i64 (length buf) else -1, vn', s3)))"

section \<open>Creating and removing\<close>

text \<open>The directory of a mutating operation: writable, a directory, and with a usable name. The default
  modes are 0644 and 0755 in octal.\<close>

definition parent_inode :: "kifs_fs \<Rightarrow> vnode \<Rightarrow> bytes \<Rightarrow> kstate \<Rightarrow> kifs_inode option \<times> kstate" where
  "parent_inode fs dir name s =
     (if \<not> kifs_name_valid name then (None, s)
      else if fs_readonly fs then (None, s)
      else dir_inode fs (vn_ino dir) s)"

definition discard_inode :: "kifs_fs \<Rightarrow> nat \<Rightarrow> kstate \<Rightarrow> kstate" where
  "discard_inode fs n s = inode_free fs n (snd (inode_clear fs n s))"

definition kifs_vnode_create :: "kifs_fs \<Rightarrow> vnode \<Rightarrow> bytes \<Rightarrow> nat \<Rightarrow> kstate \<Rightarrow> vnode option \<times> kstate" where
  "kifs_vnode_create fs dir name mode s =
     (let (p, s1) = parent_inode fs dir name s in
      case p of
        None \<Rightarrow> (None, s1)
      | Some par \<Rightarrow>
        let (f, s2) = dir_lookup fs par name s1 in
        if f \<noteq> None then (None, s2) else
        let (a, s3) = inode_alloc fs s2 in
        (case a of
           None \<Rightarrow> (None, s3)
         | Some n \<Rightarrow>
           let child = inode_zero\<lparr>i_type := KIFS_INO_T_FILE, i_mode := (if mode \<noteq> 0 then mode else 420), i_link_count := 1,
                                  i_size := 0\<rparr>;
               (w, s4) = inode_write fs n child s3 in
           if \<not> w then (None, discard_inode fs n s4) else
           let (d, par', s5) = dir_add_entry fs (vn_ino dir) par name n 1 s4 in
           if \<not> d then (None, discard_inode fs n s5) else
           let (ok, s6) = sync_dev (fs_dev fs) s5 in
           if \<not> ok then (None, discard_inode fs n (snd (dir_remove_entry fs par' name s6)))
           else vnode_from_inode fs n s6))"

definition kifs_vnode_mkdir :: "kifs_fs \<Rightarrow> vnode \<Rightarrow> bytes \<Rightarrow> nat \<Rightarrow> kstate \<Rightarrow> bool \<times> vnode \<times> kstate" where
  "kifs_vnode_mkdir fs dir name mode s =
     (let (p, s1) = parent_inode fs dir name s in
      case p of
        None \<Rightarrow> (False, dir, s1)
      | Some par \<Rightarrow>
        let (f, s2) = dir_lookup fs par name s1 in
        if f \<noteq> None then (False, dir, s2) else
        let (a, s3) = inode_alloc fs s2 in
        (case a of
           None \<Rightarrow> (False, dir, s3)
         | Some n \<Rightarrow>
           let (ba, s4) = data_block_alloc fs s3 in
           (case ba of
              None \<Rightarrow> (False, dir, inode_free fs n s4)
            | Some blkno \<Rightarrow>
              let (mok, s5) = kmalloc_ok s4 in
              if \<not> mok then (False, dir, inode_free fs n (data_block_free fs blkno s5)) else
              let (r, s6) = with_block (fs_dev fs) blkno
                              (\<lambda>_. ((), Some (new_dir_block n (vn_ino dir) (fs_meta_crc fs)))) s5 in
              if r = None then (False, dir, inode_free fs n (data_block_free fs blkno s6)) else
              let child = inode_zero\<lparr>i_type := KIFS_INO_T_DIR, i_mode := (if mode \<noteq> 0 then mode else 493),
                            i_link_count := 2, i_size := 4096, i_inline_count := 1,
                            i_extents := pad_extents [\<lparr>e_file = 0, e_disk = blkno, e_count = 1\<rparr>]\<rparr>;
                  (w, s7) = inode_write fs n child s6 in
              if \<not> w then (False, dir, discard_inode fs n (data_block_free fs blkno s7)) else
              let (d, par1, s8) = dir_add_entry fs (vn_ino dir) par name n 2 s7 in
              if \<not> d then (False, dir, discard_inode fs n (data_block_free fs blkno s8)) else
              let par2 = par1\<lparr>i_link_count := add32 (i_link_count par1) 1,
                              i_mtime := (i_mtime par1 + 1) mod 2 ^ 64, i_ctime := (i_ctime par1 + 1) mod 2 ^ 64\<rparr>;
                  (pw, s9) = inode_write fs (vn_ino dir) par2 s8 in
              if \<not> pw then (False, dir, s9) else
              let (ok, s10) = sync_dev (fs_dev fs) s9 in
              if \<not> ok then (False, dir, s10) else (True, dir\<lparr>vn_size := i_size par2\<rparr>, s10))))"

text \<open>The end of an unlink: the inode and its blocks go with the last link.\<close>

definition drop_link :: "kifs_fs \<Rightarrow> nat \<Rightarrow> kifs_inode \<Rightarrow> kstate \<Rightarrow> bool \<times> kstate" where
  "drop_link fs n child s =
     (if i_link_count child = 0 then
        let (ok, s1) = inode_clear fs n (free_inode_data fs child s) in
        if \<not> ok then (False, s1) else sync_dev (fs_dev fs) (inode_free fs n s1)
      else
        let (ok, s1) = inode_write fs n (child\<lparr>i_ctime := (i_ctime child + 1) mod 2 ^ 64\<rparr>) s in
        if \<not> ok then (False, s1) else sync_dev (fs_dev fs) s1)"

definition kifs_vnode_unlink :: "kifs_fs \<Rightarrow> vnode \<Rightarrow> bytes \<Rightarrow> kstate \<Rightarrow> bool \<times> kstate" where
  "kifs_vnode_unlink fs dir name s =
     (let (p, s1) = parent_inode fs dir name s in
      case p of
        None \<Rightarrow> (False, s1)
      | Some par \<Rightarrow>
        let (f, s2) = dir_lookup fs par name s1 in
        (case f of
           None \<Rightarrow> (False, s2)
         | Some n0 \<Rightarrow>
           let (c, s3) = inode_read fs n0 s2 in
           (case c of
              None \<Rightarrow> (False, s3)
            | Some child \<Rightarrow>
              let (e, s4) = (if i_type child = KIFS_INO_T_DIR then dir_is_empty fs child s3 else (True, s3)) in
              if \<not> e then (False, s4) else
              let (r, s5) = dir_remove_entry fs par name s4 in
              (case r of
                 None \<Rightarrow> (False, s5)
               | Some n \<Rightarrow>
                 if i_type child = KIFS_INO_T_DIR then
                   let par1 = par\<lparr>i_link_count := i_link_count par - 1,
                                   i_mtime := (i_mtime par + 1) mod 2 ^ 64, i_ctime := (i_ctime par + 1) mod 2 ^ 64\<rparr>;
                       (ok, s6) = inode_write fs (vn_ino dir) par1 s5 in
                   if \<not> ok then (False, s6) else drop_link fs n (child\<lparr>i_link_count := 0\<rparr>) s6
                 else drop_link fs n (child\<lparr>i_link_count := i_link_count child - 1\<rparr>) s5))))"

section \<open>Mounting\<close>

definition dev_blocks_of :: "blockdev \<Rightarrow> kstate \<Rightarrow> nat option" where
  "dev_blocks_of d s =
     (case dev_info d (blk (k_cache s)) of
        None \<Rightarrow> None
      | Some i \<Rightarrow>
        if sector_size i \<noteq> 512 then None
        else if total_sectors i = 0 then None
        else Some (total_sectors i div BCACHE_SECTORS_PER_BLOCK mod 2 ^ 32))"

definition kifs_probe :: "blockdev \<Rightarrow> kstate \<Rightarrow> bool \<times> kstate" where
  "kifs_probe d s =
     (case dev_blocks_of d s of
        None \<Rightarrow> (False, s)
      | Some dev_blocks \<Rightarrow>
        if dev_blocks < 8 then (False, s)
        else let (r, s1) = pick_superblock d dev_blocks s in (r \<noteq> None, s1))"

definition mount_fs :: "blockdev \<Rightarrow> nat \<Rightarrow> kifs_superblock \<Rightarrow> kifs_fs" where
  "mount_fs d dev_blocks sb = \<lparr>fs_dev = d, fs_sb = sb, fs_dev_blocks = dev_blocks, fs_usable_blocks = sb_usable_blocks sb,
     fs_data_start = sb_data_start sb, fs_data_end = add32 (sb_data_start sb) (sb_data_blocks sb),
     fs_journal_start = sb_journal_start sb, fs_readonly = (sb_features_ro_compat sb \<noteq> 0),
     fs_meta_crc = (sb_features_incompat sb mod 2 = 1)\<rparr>"

text \<open>The result is the file system and its root vnode; \<open>features_incompat & ~3\<close> is what \<open>div 4\<close> leaves.\<close>

definition kifs_mount :: "blockdev \<Rightarrow> kstate \<Rightarrow> (kifs_fs \<times> vnode) option \<times> kstate" where
  "kifs_mount d s =
     (case dev_blocks_of d s of
        None \<Rightarrow> (None, s)
      | Some dev_blocks \<Rightarrow>
        if dev_blocks < 8 then (None, s) else
        let (m1, s1) = kmalloc_ok s in
        if \<not> m1 then (None, s1) else
        let (r, s2) = pick_superblock d dev_blocks s1 in
        (case r of
           None \<Rightarrow> (None, s2)
         | Some sb \<Rightarrow>
           if sb_features_incompat sb div 4 \<noteq> 0 then (None, s2) else
           let (m2, s3) = kmalloc_ok s2 in
           if \<not> m2 then (None, s3) else
           let fs = mount_fs d dev_blocks sb; (m3, s4) = kmalloc_ok s3; (m4, s5) = kmalloc_ok s4 in
           if \<not> m3 \<or> \<not> m4 then (None, s5) else
           let (ri, s6) = inode_read fs (sb_root_ino sb) s5 in
           (case ri of
              None \<Rightarrow> (None, s6)
            | Some rino \<Rightarrow>
              if i_type rino \<noteq> KIFS_INO_T_DIR then (None, s6)
              else (Some (fs, \<lparr>vn_type = VNODE_DIR, vn_ino = sb_root_ino sb, vn_size = i_size rino, vn_refcount = 0\<rparr>), s6))))"

text \<open>The two debug helpers; a bit of a block that does not validate reads as 0.\<close>

fun debug_bits :: "kifs_fs \<Rightarrow> bool \<Rightarrow> nat list \<Rightarrow> kstate \<Rightarrow> bool list option \<times> kstate" where
  "debug_bits fs inode_bitmap [] s = (Some [], s)"
| "debug_bits fs inode_bitmap (i # is) s =
     (let start = (if inode_bitmap then sb_inode_bitmap_start (fs_sb fs) else sb_block_bitmap_start (fs_sb fs));
          blocks = (if inode_bitmap then sb_inode_bitmap_blocks (fs_sb fs) else sb_block_bitmap_blocks (fs_sb fs));
          magic = (if inode_bitmap then KIFS_MAGIC_IMB else KIFS_MAGIC_BMB);
          btype = (if inode_bitmap then KIFS_BTYPE_IMB else KIFS_BTYPE_BMB);
          bi = i div KIFS_BITMAP_BITS_PER_BLOCK; k = i mod KIFS_BITMAP_BITS_PER_BLOCK in
      if bi \<ge> blocks then (None, s) else
      let (r, s1) = with_block (fs_dev fs) (add32 start bi)
            (\<lambda>b. (validate_shdr b magic btype True \<and> bitmap_payload_get (drop SHDR_SIZE b) k, None)) s in
      (case r of
         None \<Rightarrow> (None, s1)
       | Some v \<Rightarrow> let (rs, s2) = debug_bits fs inode_bitmap is s1 in (map_option ((#) v) rs, s2)))"

definition kifs_debug_get_bitmap_bits :: "kifs_fs \<Rightarrow> bool \<Rightarrow> nat \<Rightarrow> nat \<Rightarrow> kstate \<Rightarrow> bool list option \<times> kstate" where
  "kifs_debug_get_bitmap_bits fs inode_bitmap start_bit nbits s =
     (let blocks = (if inode_bitmap then sb_inode_bitmap_blocks (fs_sb fs) else sb_block_bitmap_blocks (fs_sb fs));
          total_bits = blocks * KIFS_BITMAP_BITS_PER_BLOCK in
      if nbits = 0 then (None, s)
      else if start_bit \<ge> total_bits then (None, s)
      else if start_bit + nbits > total_bits then (None, s)
      else debug_bits fs inode_bitmap (map (\<lambda>i. add32 start_bit i) [0..<nbits]) s)"

definition kifs_debug_get_superblock :: "kifs_fs \<Rightarrow> bytes" where
  "kifs_debug_get_superblock fs = encode_sb (fs_sb fs)"

end
