(* ===== verification/Kifs_Mkfs.thy ===== *)
theory Kifs_Mkfs
  imports Kifs_Ops
begin

text \<open>
  Formatting a device with KiFS: \<open>kifs_mkfs_ex\<close> and \<open>kifs_mkfs\<close> of \<open>src/src/fs/kifs/kifs.c\<close>.
  The bitmaps and the inode table are built in memory as one byte list each and written block by
  block; the code ignores whether these writes succeed, and so does the model. The number of
  inodes is halved until the layout fits.
\<close>

section \<open>The layout\<close>

definition mkfs_bb_blocks :: "nat \<Rightarrow> nat" where
  "mkfs_bb_blocks usable = add32 usable (KIFS_BITMAP_BITS_PER_BLOCK - 1) div KIFS_BITMAP_BITS_PER_BLOCK"

definition mkfs_it_blocks :: "nat \<Rightarrow> nat" where
  "mkfs_it_blocks inode_count = add32 inode_count 15 div 16"

definition mkfs_data_start :: "nat \<Rightarrow> nat \<Rightarrow> nat" where
  "mkfs_data_start usable inode_count =
     add32 (add32 (add32 2 (mkfs_bb_blocks usable)) (mkfs_bb_blocks inode_count)) (mkfs_it_blocks inode_count)"

text \<open>The number of inodes for which the layout fits, if there is one.\<close>

function mkfs_inode_count :: "nat \<Rightarrow> nat \<Rightarrow> nat \<Rightarrow> nat option" where
  "mkfs_inode_count usable needed inode_count =
     (if add32 (mkfs_data_start usable inode_count) needed \<le> usable then Some inode_count
      else if inode_count \<le> 16 then None
      else mkfs_inode_count usable needed (inode_count div 2))"
  by pat_completeness auto
termination
  by (relation "measure (\<lambda>(u, n, i). i)") auto

declare mkfs_inode_count.simps [simp del]

definition mkfs_superblock :: "nat \<Rightarrow> nat \<Rightarrow> nat \<Rightarrow> nat \<Rightarrow> kifs_superblock" where
  "mkfs_superblock n_blocks journal_blocks usable inode_count =
     (let bb = mkfs_bb_blocks usable; ib = mkfs_bb_blocks inode_count; it = mkfs_it_blocks inode_count;
          data_start = mkfs_data_start usable inode_count in
      \<lparr>sb_h = \<lparr>h_magic = KIFS_MAGIC_SUPER, h_version = KIFS_STRUCT_VERSION, h_block_type = KIFS_BTYPE_SUPER,
               h_header_bytes = SHDR_SIZE, h_payload_bytes = 4096 - SHDR_SIZE, h_flags = 0, h_checksum = 0\<rparr>,
       sb_fs_major = 0, sb_fs_minor = 1, sb_block_size = KIFS_BLOCK_SIZE, sb_blockno = 0, sb_dirty = 0,
       sb_features_compat = 0, sb_features_ro_compat = 0, sb_features_incompat = 3,
       sb_total_blocks = n_blocks, sb_usable_blocks = usable, sb_journal_start = usable, sb_journal_blocks = journal_blocks,
       sb_block_bitmap_start = 2, sb_block_bitmap_blocks = bb,
       sb_inode_bitmap_start = add32 2 bb, sb_inode_bitmap_blocks = ib,
       sb_inode_table_start = add32 (add32 2 bb) ib, sb_inode_table_blocks = it,
       sb_data_start = data_start, sb_data_blocks = sub32 usable data_start,
       sb_inode_count = inode_count, sb_root_ino = 1, sb_orphan_ino = 2,
       sb_seq = 1, sb_mount_count = 0, sb_last_mount_time = 0, sb_pad = replicate 3964 0\<rparr>)"

text \<open>The superblock as written to block \<open>n\<close>: its number and its checksum filled in.\<close>

definition superblock_at :: "kifs_superblock \<Rightarrow> nat \<Rightarrow> bytes" where
  "superblock_at sb n =
     (let b = encode_sb (sb\<lparr>sb_blockno := n, sb_h := (sb_h sb)\<lparr>h_checksum := 0\<rparr>\<rparr>)
      in wr_le 4 16 (unat (crc32_ieee b)) b)"

section \<open>Bitmaps, inodes and directories in memory\<close>

definition bitmap_set_in_blocks :: "nat \<Rightarrow> nat \<Rightarrow> bytes \<Rightarrow> bytes" where
  "bitmap_set_in_blocks bm_blocks bit_index mem =
     (let bi = bit_index div KIFS_BITMAP_BITS_PER_BLOCK; k = bit_index mod KIFS_BITMAP_BITS_PER_BLOCK;
          p = bi * 4096 + SHDR_SIZE + k div 8 in
      if bi \<ge> bm_blocks then mem else mem[p := byte_set (mem ! p) (k mod 8)])"

definition mem_block :: "bytes \<Rightarrow> nat \<Rightarrow> bytes" where
  "mem_block mem i = slice (i * 4096) 4096 mem"

text \<open>A bitmap of \<open>blocks\<close> blocks with the given bits set and the checksums recomputed.\<close>

definition mkfs_bitmap :: "bytes \<Rightarrow> nat \<Rightarrow> nat \<Rightarrow> nat list \<Rightarrow> bytes" where
  "mkfs_bitmap magic btype blocks bits =
     (let mem = fold (bitmap_set_in_blocks blocks) bits (concat (replicate blocks (init_bitmap_block magic btype True)))
      in concat (map (\<lambda>i. structured_rechecksum (mem_block mem i) True) [0..<blocks]))"

definition mkfs_dir_inode :: "nat \<Rightarrow> nat \<Rightarrow> kifs_inode" where
  "mkfs_dir_inode links disk =
     inode_zero\<lparr>i_type := KIFS_INO_T_DIR, i_mode := 493, i_link_count := links, i_size := 4096, i_inline_count := 1,
       i_extents := pad_extents [\<lparr>e_file = 0, e_disk = disk, e_count = 1\<rparr>]\<rparr>"

definition mkfs_orphan_inode :: kifs_inode where
  "mkfs_orphan_inode = inode_zero\<lparr>i_type := KIFS_INO_T_FILE, i_mode := 0, i_link_count := 1, i_size := 0\<rparr>"

text \<open>Inode 1 is the root, 2 the orphan file, the base directories follow from 3.\<close>

definition mkfs_inode_table :: "nat \<Rightarrow> nat \<Rightarrow> nat \<Rightarrow> bytes" where
  "mkfs_inode_table it_blocks base data_start =
     (let mem = replicate (it_blocks * 4096 mod 2 ^ 32) 0;
          mem = splice INODE_SIZE (encode_inode (mkfs_dir_inode (2 + base) data_start)) mem;
          mem = splice (2 * INODE_SIZE) (encode_inode mkfs_orphan_inode) mem
      in fold (\<lambda>i. splice ((3 + i) * INODE_SIZE) (encode_inode (mkfs_dir_inode 2 (data_start + 1 + i)))) [0..<base] mem)"

definition base_dir_names :: "bytes list" where
  "base_dir_names = [[0x62, 0x69, 0x6E], [0x64, 0x65, 0x76], [0x6D, 0x6E, 0x74], [0x68, 0x6F, 0x6D, 0x65], [0x74, 0x6D, 0x70]]"

text \<open>The record length of an entry: the last one takes the rest of the block.\<close>

definition mkfs_rec :: "bool \<Rightarrow> nat \<Rightarrow> nat \<Rightarrow> nat \<Rightarrow> nat" where
  "mkfs_rec final min_rec dir_end doff =
     (if final \<and> dir_end > doff then
        let rec = (dir_end - doff) div 8 * 8 in if rec < min_rec then min_rec else rec
      else min_rec)"

fun mkfs_base_entries :: "nat \<Rightarrow> nat \<Rightarrow> nat \<Rightarrow> bytes list \<Rightarrow> bytes \<Rightarrow> bytes" where
  "mkfs_base_entries ino doff dir_end [] b = b"
| "mkfs_base_entries ino doff dir_end (name # names) b =
     (let rec = mkfs_rec (names = []) (dir_rec_len (length name)) dir_end doff
      in mkfs_base_entries (ino + 1) (doff + rec) dir_end names (dir_write_ent b doff ino name 2 rec))"

definition mkfs_root_block :: "bytes list \<Rightarrow> bytes" where
  "mkfs_root_block names =
     (let b0 = init_dir_block 1 True;
          doff = h_header_bytes (shdr_of b0);
          dir_end = h_header_bytes (shdr_of b0) + h_payload_bytes (shdr_of b0);
          b1 = dir_write_ent b0 doff 1 [0x2E] 2 (dir_rec_len 1);
          doff1 = doff + dir_rec_len 1;
          rec = mkfs_rec (names = []) (dir_rec_len 2) dir_end doff1;
          b2 = dir_write_ent b1 doff1 1 [0x2E, 0x2E] 2 rec
      in structured_rechecksum (mkfs_base_entries 3 (doff1 + rec) dir_end names b2) True)"

definition mkfs_base_block :: "nat \<Rightarrow> bytes" where
  "mkfs_base_block ino =
     (let b0 = init_dir_block 1 True;
          hb = h_header_bytes (shdr_of b0);
          r1 = dir_rec_len 1;
          b1 = dir_write_ent b0 hb ino [0x2E] 2 r1;
          doff = hb + r1;
          r2 = (4096 - hb - doff) div 8 * 8;
          r2 = (if r2 < dir_rec_len 2 then dir_rec_len 2 else r2)
      in structured_rechecksum (dir_write_ent b1 doff 1 [0x2E, 0x2E] 2 r2) True)"

section \<open>Formatting\<close>

text \<open>All the blocks that are written, in order.\<close>

definition mkfs_blocks :: "kifs_superblock \<Rightarrow> nat \<Rightarrow> (nat \<times> bytes) list" where
  "mkfs_blocks sb base =
     (let bb = sb_block_bitmap_blocks sb; ib = sb_inode_bitmap_blocks sb; it = sb_inode_table_blocks sb; ds = sb_data_start sb;
          bb_mem = mkfs_bitmap KIFS_MAGIC_BMB KIFS_BTYPE_BMB bb
            ([0, 1] @ map (\<lambda>i. sb_block_bitmap_start sb + i) [0..<bb] @ map (\<lambda>i. sb_inode_bitmap_start sb + i) [0..<ib] @
             map (\<lambda>i. sb_inode_table_start sb + i) [0..<it] @ [ds] @ map (\<lambda>i. ds + 1 + i) [0..<base]);
          ib_mem = mkfs_bitmap KIFS_MAGIC_IMB KIFS_BTYPE_IMB ib ([0, 1, 2] @ map (\<lambda>i. 3 + i) [0..<base]);
          it_mem = mkfs_inode_table it base ds
      in [(0, superblock_at sb 0), (1, superblock_at sb 1)] @
         map (\<lambda>i. (sb_block_bitmap_start sb + i, mem_block bb_mem i)) [0..<bb] @
         map (\<lambda>i. (sb_inode_bitmap_start sb + i, mem_block ib_mem i)) [0..<ib] @
         map (\<lambda>i. (sb_inode_table_start sb + i, mem_block it_mem i)) [0..<it] @
         [(ds, mkfs_root_block (take base base_dir_names))] @
         map (\<lambda>i. (ds + 1 + i, mkfs_base_block (3 + i))) [0..<base])"

fun kmallocs_ok :: "nat \<Rightarrow> kstate \<Rightarrow> bool \<times> kstate" where
  "kmallocs_ok 0 s = (True, s)"
| "kmallocs_ok (Suc n) s = (let (ok, s1) = kmalloc_ok s in if ok then kmallocs_ok n s1 else (False, s1))"

text \<open>The five buffers are for the two bitmaps, the inode table, the directory blocks and a superblock.\<close>

definition kifs_mkfs_ex :: "blockdev \<Rightarrow> nat \<Rightarrow> bool \<Rightarrow> kstate \<Rightarrow> bool \<times> kstate" where
  "kifs_mkfs_ex d inode_count0 create_kiwios_root s =
     (let base = (if create_kiwios_root then 5 else 0) in
      case dev_blocks_of d s of
        None \<Rightarrow> (False, s)
      | Some n_blocks \<Rightarrow>
        if n_blocks < 64 then (False, s) else
        let journal_blocks = n_blocks div 100;
            usable = n_blocks - journal_blocks;
            inode_count1 = (if inode_count0 = 0 then 1024 else inode_count0);
            inode_count2 = (if inode_count1 < 16 then 16 else inode_count1) in
        (case mkfs_inode_count usable (1 + base) inode_count2 of
           None \<Rightarrow> (False, s)
         | Some inode_count \<Rightarrow>
           let (ok, s1) = kmallocs_ok 5 s in
           if \<not> ok then (False, s1)
           else
             let sb = mkfs_superblock n_blocks journal_blocks usable inode_count;
                 s2 = fold (\<lambda>(n, b) t. snd (write_block_raw d n b t)) (mkfs_blocks sb base) s1
             in (True, snd (sync_dev d s2))))"

definition kifs_mkfs :: "blockdev \<Rightarrow> nat \<Rightarrow> kstate \<Rightarrow> bool \<times> kstate" where
  "kifs_mkfs d inode_count s = kifs_mkfs_ex d inode_count False s"

end
