(* ===== verification/Kifs_Volume.thy ===== *)
theory Kifs_Volume
  imports Kifs_Mkfs
begin

text \<open>
  What the middle layer of KiFS does to the volumes. A volume is the array of blocks that the clients
  of the buffer cache see on a device; every access of KiFS to a block is a read or an update of one such array, so
  the laws of the cache carry over to inodes, extents and directories. File blocks map into the data region
  only, an inode that is written is read back and no other inode changes, looking up names changes no
  volume, and an entry that starts a directory block can be looked up but not removed.
\<close>

section \<open>The volumes behind the cache\<close>

definition vol :: "blockdev \<Rightarrow> kstate \<Rightarrow> nat \<Rightarrow> bytes" where
  "vol d s = view (k_cache s) d"

text \<open>The cache is set up and at rest, and what it holds belongs to the devices in \<open>D\<close>.\<close>

definition kready :: "blockdev set \<Rightarrow> kstate \<Rightarrow> bool" where
  "kready D s \<longleftrightarrow> ready_ok D (k_cache s)"

lemma kready_kmalloc [simp]: "kready D (snd (kmalloc_ok s)) = kready D s" "vol d (snd (kmalloc_ok s)) = vol d s"
  by (simp_all add: kmalloc_ok_def kready_def vol_def)

lemma kreadyD:
  assumes "kready D s"
  shows "bc_inv D (k_cache s)" "cache_ok D (k_cache s)" "bc_ready (k_cache s)"
  using assms by (simp_all add: kready_def ready_ok_def cache_ok_def)

lemma with_block_law:
  assumes ok: "kready D s" and d: "d \<in> D" and n: "n < 2 ^ 61" and run: "with_block d n f s = (r, s')"
    and len: "\<And>b'. length (vol d s n) = KIFS_BLOCK_SIZE \<Longrightarrow> snd (f (vol d s n)) = Some b' \<Longrightarrow> length b' = KIFS_BLOCK_SIZE"
  shows "kready D s'" "r = None \<Longrightarrow> e \<in> D \<Longrightarrow> vol e s' = vol e s"
    "r \<noteq> None \<Longrightarrow> length (vol d s n) = KIFS_BLOCK_SIZE"
    "r \<noteq> None \<Longrightarrow> r = Some (fst (f (vol d s n)))"
    "r \<noteq> None \<Longrightarrow> e \<in> D \<Longrightarrow>
       vol e s' = (case snd (f (vol d s n)) of None \<Rightarrow> vol e s | Some b \<Rightarrow> if e = d then (vol e s)(n := b) else vol e s)"
proof -
  obtain o1 c where g: "bcache_get d n (k_cache s) = (o1, c)" by fastforce
  note inv = kreadyD [OF ok]
  have got: "got D (k_cache s) d n o1 c" by (rule bcache_get_spec [OF inv(1) d n g])
  have all: "kready D s' \<and> (r = None \<longrightarrow> (\<forall>e \<in> D. vol e s' = vol e s)) \<and> (r \<noteq> None \<longrightarrow> length (vol d s n) = KIFS_BLOCK_SIZE \<and>
     r = Some (fst (f (vol d s n))) \<and> (\<forall>e \<in> D. vol e s' =
       (case snd (f (vol d s n)) of None \<Rightarrow> vol e s | Some b \<Rightarrow> if e = d then (vol e s)(n := b) else vol e s)))"
  proof (cases o1)
    case None
    have rd: "bread d n (k_cache s) = (None, c)" using g None by (simp add: bread_def)
    have "r = None" "k_cache s' = c" using run g None by (auto simp: with_block_def)
    then show ?thesis using sc.read_law [OF _ d n rd] ok by (simp add: kready_def vol_def)
  next
    case (Some i)
    have dat: "bcache_data i c = vol d s n" "length (vol d s n) = KIFS_BLOCK_SIZE"
      using got_Some(4,5) [OF inv(2) d got [unfolded Some]] by (simp_all add: vol_def)
    show ?thesis
    proof (cases "snd (f (vol d s n))")
      case None
      have rd: "bread d n (k_cache s) = (Some (vol d s n), bcache_put i c)" using g Some dat(1) by (simp add: bread_def)
      have "r = Some (fst (f (vol d s n)))" "k_cache s' = bcache_put i c"
        using run g Some dat(1) None by (auto simp: with_block_def split: prod.splits)
      then show ?thesis using sc.read_law [OF _ d n rd] ok dat(2) None by (simp add: kready_def vol_def)
    next
      case (Some b)
      have l: "length b = KIFS_BLOCK_SIZE" by (rule len [OF dat(2) Some])
      have md: "bmodify d n (\<lambda>_. b) (k_cache s) = (True, bcache_put i (bcache_store i b c))" using g \<open>o1 = Some i\<close> by (simp add: bmodify_def)
      have "r = Some (fst (f (vol d s n)))" "k_cache s' = bcache_put i (bcache_store i b c)"
        using run g \<open>o1 = Some i\<close> dat(1) Some by (auto simp: with_block_def split: prod.splits)
      then show ?thesis using sc.mod_law [OF _ d n _ md] ok dat(2) Some l by (simp add: kready_def vol_def)
    qed
  qed
  then show "kready D s'" "r = None \<Longrightarrow> e \<in> D \<Longrightarrow> vol e s' = vol e s"
    "r \<noteq> None \<Longrightarrow> length (vol d s n) = KIFS_BLOCK_SIZE"
    "r \<noteq> None \<Longrightarrow> r = Some (fst (f (vol d s n)))"
    "r \<noteq> None \<Longrightarrow> e \<in> D \<Longrightarrow>
       vol e s' = (case snd (f (vol d s n)) of None \<Rightarrow> vol e s | Some b \<Rightarrow> if e = d then (vol e s)(n := b) else vol e s)"
    by simp_all
qed

text \<open>A block that was accessed is in the cache, so the next access to it succeeds whatever the hardware does.\<close>

lemma with_block_again:
  assumes ok: "kready D s" and d: "d \<in> D" and n: "n < 2 ^ 61" and run: "with_block d n f s = (Some x, s')"
    and len: "\<And>b'. length (vol d s n) = KIFS_BLOCK_SIZE \<Longrightarrow> snd (f (vol d s n)) = Some b' \<Longrightarrow> length b' = KIFS_BLOCK_SIZE"
  shows "fst (with_block d n g s') \<noteq> None"
proof -
  obtain i c where gt: "bcache_get d n (k_cache s) = (Some i, c)"
    using run by (auto simp: with_block_def split: prod.splits option.splits)
  note inv = kreadyD [OF ok]
  have got: "got D (k_cache s) d n (Some i) c" by (rule bcache_get_spec [OF inv(1) d n gt])
  note h = got_Some(2,3) [OF inv(2) d got]
  have held: "i < g_nbufs (k_cache s') \<and> holds (k_cache s') d n i"
    using run gt h by (auto simp: with_block_def bcache_put_def bcache_store_def bcache_mark_dirty_def holds_def split: prod.splits option.splits)
  have "kready D s'" by (rule with_block_law(1) [OF ok d n run len])
  note inv' = kreadyD [OF this]
  have "\<exists>i < g_nbufs (k_cache s'). holds (k_cache s') d n i" using held by blast
  then have "ht_lookup d n (k_cache s') \<noteq> None" by (simp only: ht_lookup_None [OF inv'(1)] not_not)
  moreover have "g_nbufs (k_cache s') \<noteq> 0" using held by linarith
  moreover note inv'(3)
  ultimately show ?thesis by (auto simp: with_block_def bcache_get_def split: prod.splits option.splits)
qed

section \<open>File blocks lie in the data region\<close>

definition in_data :: "kifs_fs \<Rightarrow> nat \<Rightarrow> bool" where
  "in_data fs b \<longleftrightarrow> fs_data_start fs \<le> b \<and> b < fs_data_end fs \<and> b < fs_journal_start fs"

lemma sub_mod_le: "b \<le> a \<Longrightarrow> a < M \<Longrightarrow> (a + M - b) mod M = a - (b :: nat)"
proof -
  assume "b \<le> a" "a < M"
  then obtain c where c: "a = b + c" using le_Suc_ex by blast
  then have "a + M - b = c + M" "c < M" using \<open>a < M\<close> by simp_all
  then show ?thesis using c by simp
qed

lemma sub32_le: "b \<le> a \<Longrightarrow> a < 2 ^ 32 \<Longrightarrow> sub32 a b = a - b"
  unfolding sub32_def by (rule sub_mod_le)

lemma extent_target_in_data:
  assumes "extent_wf e" "disk_block_in_data_region fs (e_disk e) (e_count e)" "fs_data_end fs < 2 ^ 32" "extent_covers e fb"
  shows "extent_target e fb = e_disk e + (fb - e_file e)" "fb - e_file e < e_count e" "in_data fs (extent_target e fb)"
proof -
  have w: "e_file e < 2 ^ 32" "e_disk e < 2 ^ 32" "e_count e < 2 ^ 32" using assms(1) by (simp_all add: extent_wf_def)
  have cov: "e_file e \<le> fb" "fb < (e_file e + e_count e) mod 2 ^ 32" using assms(4) by (simp_all add: extent_covers_def add32_def)
  have fb: "fb < e_file e + e_count e" using cov(2) mod_less_eq_dividend [of "e_file e + e_count e" "2 ^ 32"] by linarith
  then show lt: "fb - e_file e < e_count e" using cov(1) by linarith
  have dr: "fs_data_start fs \<le> e_disk e" "e_disk e + e_count e \<le> fs_data_end fs" "e_disk e + e_count e \<le> fs_journal_start fs"
    using assms(2) by (simp_all add: disk_block_in_data_region_def)
  have fb32: "fb < 2 ^ 32" by (rule less_trans [OF cov(2)]) simp
  have "sub32 fb (e_file e) = fb - e_file e" using cov(1) fb32 by (rule sub32_le)
  moreover have "e_disk e + (fb - e_file e) < 2 ^ 32" using lt dr(2) assms(3) by linarith
  ultimately show t: "extent_target e fb = e_disk e + (fb - e_file e)" by (simp add: extent_target_def add32_def)
  show "in_data fs (extent_target e fb)" unfolding t in_data_def using lt dr by linarith
qed

lemma find_in_set: "find P xs = Some x \<Longrightarrow> x \<in> set xs \<and> P x"
  by (induction xs) (auto split: if_splits)

lemma extents_ok_region: "extents_ok fs prev es \<Longrightarrow> e \<in> set es \<Longrightarrow> disk_block_in_data_region fs (e_disk e) (e_count e)"
  by (induction es arbitrary: prev) auto

lemma map_inline_in_data:
  assumes "inode_validate fs ino" "inode_wf ino" "fs_data_end fs < 2 ^ 32" "map_inline ino fb = Some b"
  shows "in_data fs b"
proof -
  obtain e where e: "find (\<lambda>e. extent_covers e fb) (take (i_inline_count ino) (i_extents ino)) = Some e" "b = extent_target e fb"
    using assms(4) by (auto simp: map_inline_def)
  then have "e \<in> set (take (i_inline_count ino) (i_extents ino))" "extent_covers e fb" using find_in_set [OF e(1)] by auto
  moreover from this have "extent_wf e" using assms(2) by (auto simp: inode_wf_def dest: in_set_takeD)
  moreover have "extents_ok fs None (take (i_inline_count ino) (i_extents ino))" using assms(1) by (simp add: inode_validate_def)
  ultimately show ?thesis using extent_target_in_data(3) [OF _ _ assms(3)] extents_ok_region e(2) by blast
qed

lemma leaf_find_in_data:
  assumes "\<forall>e \<in> set es. extent_wf e \<and> disk_block_in_data_region fs (e_disk e) (e_count e)" "fs_data_end fs < 2 ^ 32" "leaf_find fb es = Some b"
  shows "in_data fs b"
  using assms extent_target_in_data(3) [where fs = fs] by (induction es) (auto split: if_splits)

lemma extent_descend_in_data:
  assumes "extent_descend fs fb depth cur s = (Some b, s')" "fs_data_end fs < 2 ^ 32"
  shows "in_data fs b"
  using assms
proof (induction depth arbitrary: cur s)
  case 0
  obtain r s1 where w: "with_block (fs_dev fs) cur (\<lambda>b. (b, None)) s = (r, s1)" by fastforce
  then obtain buf where buf: "extnode_validate fs buf" "node_type buf \<noteq> 1" "leaf_find fb (leaf_ents buf) = Some b"
    using 0(1) by (auto simp: extent_descend.simps [of fs fb 0] split: option.splits if_splits)
  have "\<forall>e \<in> set (leaf_ents buf). extent_wf e" by (auto simp: leaf_ents_def Let_def extent_wf_decode)
  moreover have "extents_ok fs None (leaf_ents buf)" using buf(1,2) by (simp add: extnode_validate_def Let_def)
  ultimately show ?case using leaf_find_in_data [OF _ 0(2) buf(3)] extents_ok_region by blast
next
  case (Suc depth)
  obtain r s1 where w: "with_block (fs_dev fs) cur (\<lambda>b. (b, None)) s = (r, s1)" by fastforce
  then obtain child s2 where "extent_descend fs fb depth child s2 = (Some b, s')"
    using Suc.prems(1) by (auto simp: extent_descend.simps [of fs fb "Suc depth"] split: option.splits if_splits)
  then show ?case using Suc.IH Suc.prems(2) by blast
qed

text \<open>C7: a file block of a valid inode, whether it is found in the inline extents or through the extent tree, is mapped
  to a block of the data region in front of the journal: no read or write of file contents or of a
  directory reaches the superblocks, the bitmaps, the inode table or the journal, even if the
  extents on disk are corrupt.\<close>

theorem map_file_block_in_data:
  assumes "inode_validate fs ino" and "inode_wf ino" and "fs_data_end fs < 2 ^ 32" and "map_file_block fs ino fb s = (Some b, s')"
  shows "fs_data_start fs \<le> b \<and> b < fs_data_end fs \<and> b < fs_journal_start fs"
proof -
  have "in_data fs b"
  proof (cases "map_inline ino fb")
    case None
    then show ?thesis
      using assms(4) extent_descend_in_data [OF _ assms(3)]
      by (auto simp: map_file_block_def extent_tree_lookup_def split: if_splits prod.splits)
  qed (use assms map_inline_in_data in \<open>auto simp: map_file_block_def\<close>)
  then show ?thesis by (simp add: in_data_def)
qed

definition example_kstate :: kstate where
  "example_kstate = \<lparr>k_cache = example_cache, k_mem = (\<lambda>_. True), k_allocs = 0\<rparr>"

definition example_inode :: kifs_inode where
  "example_inode = inode_zero\<lparr>i_type := KIFS_INO_T_FILE, i_size := 8192, i_inline_count := 1,
     i_extents := \<lparr>e_file = 0, e_disk = 10, e_count = 2\<rparr> # replicate 7 no_extent\<rparr>"

theorem map_file_block_in_data_witness:
  "fst (map_file_block example_fs example_inode 1 example_kstate) = Some 11 \<and>
   fs_data_start example_fs \<le> 11 \<and> 11 < fs_data_end example_fs \<and> 11 < fs_journal_start example_fs"
proof
  have m: "map_file_block example_fs example_inode 1 example_kstate = (Some 11, example_kstate)"
    by (simp add: map_file_block_def map_inline_def example_inode_def extent_covers_def extent_target_def add32_def sub32_def)
  then show "fst (map_file_block example_fs example_inode 1 example_kstate) = Some 11" by simp
  have "inode_validate example_fs example_inode" "inode_wf example_inode" "fs_data_end example_fs < 2 ^ 32"
    by (simp_all add: inode_validate_def inode_wf_def example_inode_def inode_zero_def null_inode_def no_extent_def extent_wf_def magic_eq_def
        KIFS_MAGIC_INODE_def disk_block_in_data_region_def example_fs_def)
  from map_file_block_in_data [OF this m]
  show "fs_data_start example_fs \<le> 11 \<and> 11 < fs_data_end example_fs \<and> 11 < fs_journal_start example_fs" .
qed

section \<open>Reading leaves the volume alone\<close>

text \<open>On the way from \<open>s\<close> to \<open>s'\<close>, with accesses to \<open>d\<close> only, no volume changes.\<close>

definition quiet :: "blockdev \<Rightarrow> kstate \<Rightarrow> kstate \<Rightarrow> bool" where
  "quiet d s s' \<longleftrightarrow> (\<forall>D. d \<in> D \<longrightarrow> kready D s \<longrightarrow> kready D s' \<and> (\<forall>e \<in> D. vol e s' = vol e s))"

lemma quiet_refl [simp]: "quiet d s s"
  by (simp add: quiet_def)

lemma quiet_trans: "quiet d a b \<Longrightarrow> quiet d b c \<Longrightarrow> quiet d a c"
  by (simp add: quiet_def)

lemma quiet_kmalloc: "kmalloc_ok s = (ok, s') \<Longrightarrow> quiet d s s'"
  using kready_kmalloc [of _ s] by (simp add: quiet_def)

lemma quiet_read:
  assumes "with_block d n f s = (r, s')" "n < 2 ^ 61" "\<And>b. snd (f b) = None"
  shows "quiet d s s'"
  unfolding quiet_def
proof (intro allI impI)
  fix D assume D: "d \<in> D" "kready D s"
  note law = with_block_law [OF D(2,1) assms(2,1)]
  show "kready D s' \<and> (\<forall>e \<in> D. vol e s' = vol e s)" using law(1,2,5) assms(3) by (cases r) simp_all
qed

lemma with_block_result: "with_block d n f s = (Some x, s') \<Longrightarrow> \<exists>b. x = fst (f b)"
  by (auto simp: with_block_def split: prod.splits option.splits) (metis fst_conv)+

lemma add32_less: "add32 a b < 2 ^ 32"
  by (simp add: add32_def)

lemma add32_61 [simp]: "add32 a b < 2305843009213693952"
  using add32_less [of a b] by simp

lemma inode_read_quiet:
  assumes "inode_read fs n s = (r, s')"
  shows "quiet (fs_dev fs) s s'" "r = Some ino \<Longrightarrow> i_root ino < 2 ^ 32 \<and> inode_validate fs ino"
proof -
  obtain x s1 where w: "with_block (fs_dev fs) (inode_block fs n)
      (\<lambda>b. (decode_inode (slice (inode_offset n) INODE_SIZE b), None)) s = (x, s1)" by fastforce
  have q: "quiet (fs_dev fs) s s1" by (rule quiet_read [OF w]) (simp_all add: inode_block_def)
  show "quiet (fs_dev fs) s s'" using assms w q by (auto simp: inode_read_def split: if_splits option.splits)
  show "i_root ino < 2 ^ 32 \<and> inode_validate fs ino" if "r = Some ino"
  proof -
    have x: "x = Some ino" "inode_validate fs ino"
      using assms w that by (auto simp: inode_read_def Let_def split: if_splits option.splits)
    then obtain b where "ino = decode_inode b" using with_block_result w by fastforce
    then show ?thesis using x(2) rd_le_less [of 4 52 b] by (simp add: decode_inode_def)
  qed
qed

lemma best_child_mem: "best_child fb best es = Some c \<Longrightarrow> best = Some c \<or> c \<in> snd ` set es"
  by (induction fb best es rule: best_child.induct) (auto split: if_splits)

lemma extent_descend_quiet:
  assumes "extent_descend fs fb depth cur s = (r, s')" "cur < 2 ^ 61"
  shows "quiet (fs_dev fs) s s'"
  using assms
proof (induction depth arbitrary: cur s)
  case 0
  obtain x s1 where w: "with_block (fs_dev fs) cur (\<lambda>b. (b, None)) s = (x, s1)" by fastforce
  have "quiet (fs_dev fs) s s1" by (rule quiet_read [OF w 0(2)]) simp
  then show ?case using 0(1) w by (auto simp: extent_descend.simps [of fs fb 0] split: option.splits if_splits)
next
  case (Suc depth)
  obtain x s1 where w: "with_block (fs_dev fs) cur (\<lambda>b. (b, None)) s = (x, s1)" by fastforce
  have q: "quiet (fs_dev fs) s s1" by (rule quiet_read [OF w Suc.prems(2)]) simp
  show ?case
  proof (cases "\<exists>buf child. x = Some buf \<and> extnode_validate fs buf \<and> node_height buf = Suc depth \<and> node_type buf = 1 \<and>
      best_child fb None (internal_ents buf) = Some child")
    case True
    then obtain buf child where x: "x = Some buf" "extnode_validate fs buf" "node_height buf = Suc depth" "node_type buf = 1"
      and c: "best_child fb None (internal_ents buf) = Some child" by blast
    obtain off where "child = rd_le 4 off buf" using best_child_mem [OF c] by (auto simp: internal_ents_def Let_def)
    then have "child < 2 ^ 61" using rd_le_less [of 4 off buf] by simp
    then show ?thesis using Suc.IH [of child s1] Suc.prems(1) w x c quiet_trans [OF q] by (auto simp: extent_descend.simps [of fs fb "Suc depth"])
  next
    case False
    then show ?thesis
      using Suc.prems(1) w q by (auto simp: extent_descend.simps [of fs fb "Suc depth"] split: option.splits if_splits)
  qed
qed

lemma map_file_block_quiet:
  assumes "map_file_block fs ino fb s = (r, s')" "i_root ino < 2 ^ 32"
  shows "quiet (fs_dev fs) s s'"
proof -
  have "i_root ino < 2 ^ 61" using assms(2) by simp
  then show ?thesis
    using assms(1) extent_descend_quiet quiet_kmalloc [of s] quiet_trans
    by (fastforce simp: map_file_block_def extent_tree_lookup_def split: option.splits if_splits prod.splits)
qed

lemma leaf_find_less: "leaf_find fb es = Some b \<Longrightarrow> b < 2 ^ 32"
  using add32_less by (induction es) (auto simp: extent_target_def split: if_splits)

lemma extent_descend_less: "extent_descend fs fb depth cur s = (Some b, s') \<Longrightarrow> b < 2 ^ 32"
proof (induction depth arbitrary: cur s)
  case 0
  then show ?case using leaf_find_less
    by (auto simp: extent_descend.simps [of fs fb 0] split: option.splits if_splits prod.splits)
next
  case (Suc depth)
  then show ?case by (auto simp: extent_descend.simps [of fs fb "Suc depth"] split: option.splits if_splits prod.splits)
qed

lemma map_file_block_less:
  assumes "map_file_block fs ino fb s = (Some b, s')"
  shows "b < 2 ^ 61"
proof -
  have "b < 2 ^ 32"
    using assms extent_descend_less add32_less
    by (auto simp: map_file_block_def extent_tree_lookup_def map_inline_def extent_target_def split: option.splits if_splits prod.splits)
  then show ?thesis by simp
qed

lemma dir_iterate_from_quiet:
  assumes "dir_iterate_from fs ino cb fb nblocks u s = (ok, u', s')" "i_root ino < 2 ^ 32"
  shows "quiet (fs_dev fs) s s'"
  using assms
proof (induction fs ino cb fb nblocks u s rule: dir_iterate_from.induct)
  case (1 fs ino cb fb nblocks u s)
  show ?case
  proof (cases "fb < nblocks")
    case False
    then show ?thesis using "1.prems"(1) by (simp add: dir_iterate_from.simps [of fs ino cb fb])
  next
    case True
    obtain m s1 where m: "map_file_block fs ino fb s = (m, s1)" by fastforce
    have q1: "quiet (fs_dev fs) s s1" by (rule map_file_block_quiet [OF m "1.prems"(2)])
    show ?thesis
    proof (cases m)
      case None
      have "quiet (fs_dev fs) s1 s'" 
        by (rule 1(1) [OF True m [symmetric] refl None]) (use "1.prems" True m None in \<open>simp_all add: dir_iterate_from.simps [of fs ino cb fb]\<close>)
      then show ?thesis using quiet_trans [OF q1] by blast
    next
      case (Some disk)
      obtain r s2 where w: "with_block (fs_dev fs) disk (\<lambda>b. (b, None)) s1 = (r, s2)" by fastforce
      have q2: "quiet (fs_dev fs) s s2" using quiet_trans [OF q1 quiet_read [OF w map_file_block_less]] m Some by simp
      show ?thesis
      proof (cases r)
        case None
        have "quiet (fs_dev fs) s2 s'"
          by (rule 1(2) [OF True m [symmetric] refl Some w [symmetric] refl None])
            (use "1.prems" True m Some w None in \<open>simp_all add: dir_iterate_from.simps [of fs ino cb fb]\<close>)
        then show ?thesis using quiet_trans [OF q2] by blast
      next
        case buf: (Some buf)
        obtain go u1 where p: "parse_dir_block fs buf cb u = (go, u1)" by fastforce
        show ?thesis
        proof (cases go)
          case False
          then show ?thesis using "1.prems"(1) True m Some w buf p q2 by (simp add: dir_iterate_from.simps [of fs ino cb fb])
        next
          case go: True
          have "quiet (fs_dev fs) s2 s'"
            by (rule 1(3) [OF True m [symmetric] refl Some w [symmetric] refl buf p [symmetric] refl])
              (use "1.prems" True m Some w buf p go in \<open>simp_all add: dir_iterate_from.simps [of fs ino cb fb]\<close>)
          then show ?thesis using quiet_trans [OF q2] by blast
        qed
      qed
    qed
  qed
qed

lemma dir_iterate_quiet:
  assumes "dir_iterate fs ino cb u s = (ok, u', s')" "i_root ino < 2 ^ 32"
  shows "quiet (fs_dev fs) s s'"
proof -
  obtain a s1 where a: "kmalloc_ok s = (a, s1)" by fastforce
  have q: "quiet (fs_dev fs) s s1" by (rule quiet_kmalloc [OF a])
  show ?thesis
  proof (cases a)
    case True
    then have "dir_iterate_from fs ino cb 0 (block_count_of (i_size ino)) u s1 = (ok, u', s')"
      using assms(1) a by (simp add: dir_iterate_def)
    from quiet_trans [OF q dir_iterate_from_quiet [OF this assms(2)]] show ?thesis .
  qed (use assms(1) a q in \<open>simp add: dir_iterate_def\<close>)
qed

lemma dir_lookup_quiet: "dir_lookup fs ino name s = (r, s') \<Longrightarrow> i_root ino < 2 ^ 32 \<Longrightarrow> quiet (fs_dev fs) s s'"
  using dir_iterate_quiet by (auto simp: dir_lookup_def split: prod.splits)

lemma vnode_from_inode_quiet:
  assumes "vnode_from_inode fs n s = (r, s')"
  shows "quiet (fs_dev fs) s s'"
proof -
  obtain x s1 where i: "inode_read fs n s = (x, s1)" by fastforce
  show ?thesis
    using assms i inode_read_quiet(1) [OF i] quiet_kmalloc [of s1] quiet_trans
    by (fastforce simp: vnode_from_inode_def split: option.splits prod.splits if_splits)
qed

lemma dir_inode_quiet:
  assumes "dir_inode fs n s = (r, s')"
  shows "quiet (fs_dev fs) s s'" "r = Some ino \<Longrightarrow> i_root ino < 2 ^ 32"
  using assms inode_read_quiet [of fs n s] by (auto simp: dir_inode_def split: option.splits prod.splits if_splits)

lemma kifs_vnode_lookup_quiet:
  assumes "kifs_vnode_lookup fs dir name s = (r, s')"
  shows "quiet (fs_dev fs) s s'"
proof -
  obtain x s1 where d: "dir_inode fs (vn_ino dir) s = (x, s1)" by fastforce
  show ?thesis
  proof (cases x)
    case None
    then show ?thesis using assms d dir_inode_quiet(1) [OF d] by (simp add: kifs_vnode_lookup_def)
  next
    case (Some din)
    obtain f s2 where l: "dir_lookup fs din name s1 = (f, s2)" by fastforce
    have "quiet (fs_dev fs) s s2"
      using quiet_trans [OF dir_inode_quiet(1) [OF d] dir_lookup_quiet [OF l]] dir_inode_quiet(2) [OF d Some] by blast
    then show ?thesis using assms d Some l vnode_from_inode_quiet quiet_trans
      by (auto simp: kifs_vnode_lookup_def split: option.splits)
  qed
qed

lemma kifs_vnode_readdir_quiet:
  assumes "kifs_vnode_readdir fs dir cb u s = (r, u', s')"
  shows "quiet (fs_dev fs) s s'"
  using assms dir_inode_quiet [of fs "vn_ino dir" s] dir_iterate_quiet quiet_trans
  by (fastforce simp: kifs_vnode_readdir_def split: option.splits prod.splits)

section \<open>Inodes\<close>

lemma inode_offset_fits: "inode_offset n + INODE_SIZE \<le> KIFS_BLOCK_SIZE"
proof -
  have "n mod 16 \<le> 15" using mod_less_divisor [of 16 n] by linarith
  then show ?thesis by (simp add: inode_offset_def)
qed

lemma inode_block_less: "inode_block fs n < 2 ^ 61"
  using add32_less [of "sb_inode_table_start (fs_sb fs)" "n div 16"] by (simp add: inode_block_def)

lemma inode_block_neq:
  assumes "sb_inode_table_start (fs_sb fs) + sb_inode_count (fs_sb fs) div 16 < 2 ^ 32"
    "m < sb_inode_count (fs_sb fs)" "n < sb_inode_count (fs_sb fs)" "inode_block fs m = inode_block fs n"
  shows "m div 16 = n div 16"
proof -
  have "k div 16 \<le> sb_inode_count (fs_sb fs) div 16" if "k < sb_inode_count (fs_sb fs)" for k using that by (simp add: div_le_mono)
  then have "sb_inode_table_start (fs_sb fs) + m div 16 < 2 ^ 32" "sb_inode_table_start (fs_sb fs) + n div 16 < 2 ^ 32"
    using assms(1-3) by (meson add_left_mono order_le_less_trans)+
  then show ?thesis using assms(4) by (simp add: inode_block_def add32_def)
qed

lemma inode_read_value:
  assumes "kready D s" "fs_dev fs \<in> D" "fst (inode_read fs n s) = Some x"
  shows "x = decode_inode (slice (inode_offset n) INODE_SIZE (vol (fs_dev fs) s (inode_block fs n)))" "n < sb_inode_count (fs_sb fs)"
proof -
  let ?f = "\<lambda>b. (decode_inode (slice (inode_offset n) INODE_SIZE b), None :: bytes option)"
  obtain r s1 where w: "with_block (fs_dev fs) (inode_block fs n) ?f s = (r, s1)" by fastforce
  have r: "r = Some x" "n < sb_inode_count (fs_sb fs)" using assms(3) w by (auto simp: inode_read_def split: if_splits option.splits)
  then show "x = decode_inode (slice (inode_offset n) INODE_SIZE (vol (fs_dev fs) s (inode_block fs n)))" "n < sb_inode_count (fs_sb fs)"
    using with_block_law(4) [OF assms(1,2) inode_block_less w] by simp_all
qed

lemma inode_write_law:
  assumes ok: "kready D s" and d: "fs_dev fs \<in> D" and wf: "inode_wf ino" and run: "inode_write fs n ino s = (True, s1)"
  shows "0 < n" "n < sb_inode_count (fs_sb fs)" "kready D s1" "length (vol (fs_dev fs) s (inode_block fs n)) = KIFS_BLOCK_SIZE"
    "e \<in> D \<Longrightarrow> vol e s1 = (if e = fs_dev fs then (vol e s)(inode_block fs n :=
        splice (inode_offset n) (encode_inode ino) (vol e s (inode_block fs n))) else vol e s)"
    "fst (with_block (fs_dev fs) (inode_block fs n) g s1) \<noteq> None"
proof -
  let ?f = "\<lambda>b. ((), Some (splice (inode_offset n) (encode_inode ino) b))"
  show n: "0 < n" "n < sb_inode_count (fs_sb fs)" using run by (auto simp: inode_write_def split: if_splits)
  obtain r where w: "with_block (fs_dev fs) (inode_block fs n) ?f s = (r, s1)" "r \<noteq> None"
    using run n by (auto simp: inode_write_def split: if_splits prod.splits)
  let ?v = "vol (fs_dev fs) s (inode_block fs n)"
  have len: "length b' = KIFS_BLOCK_SIZE" if "length ?v = KIFS_BLOCK_SIZE" "snd (?f ?v) = Some b'" for b'
    using that inode_offset_fits [of n] wf by (auto simp: length_encode_inode)
  note law = with_block_law [OF ok d inode_block_less w(1) len]
  show "kready D s1" "length (vol (fs_dev fs) s (inode_block fs n)) = KIFS_BLOCK_SIZE"
    "e \<in> D \<Longrightarrow> vol e s1 = (if e = fs_dev fs then (vol e s)(inode_block fs n :=
        splice (inode_offset n) (encode_inode ino) (vol e s (inode_block fs n))) else vol e s)"
    using law(1,3,5) w(2) by auto
  obtain x where x: "r = Some x" using w(2) by auto
  show "fst (with_block (fs_dev fs) (inode_block fs n) g s1) \<noteq> None"
    by (rule with_block_again [OF ok d inode_block_less w(1) [unfolded x] len])
qed

text \<open>C8: an inode that was written is what the next read of it returns, whatever the disk does, every other inode reads as
  before, and no other block of any volume changes. The inode is one that the code accepts, and the inode table ends below
  block \<open>2 ^ 32\<close>.\<close>

theorem inode_write_read:
  assumes "kready D s" and "fs_dev fs \<in> D" and "inode_wf ino" and "inode_validate fs ino"
    and "sb_inode_table_start (fs_sb fs) + sb_inode_count (fs_sb fs) div 16 < 2 ^ 32" and "inode_write fs n ino s = (True, s1)"
  shows "fst (inode_read fs n s1) = Some ino \<and>
    (\<forall>m x y. m \<noteq> n \<longrightarrow> fst (inode_read fs m s) = Some x \<longrightarrow> fst (inode_read fs m s1) = Some y \<longrightarrow> y = x) \<and>
    (\<forall>e \<in> D. \<forall>b. (e, b) \<noteq> (fs_dev fs, inode_block fs n) \<longrightarrow> vol e s1 b = vol e s b)"
proof -
  note law = inode_write_law [OF assms(1-3,6)]
  let ?b = "vol (fs_dev fs) s (inode_block fs n)"
  have le: "length (encode_inode ino) = INODE_SIZE" by (rule length_encode_inode [OF assms(3)])
  have b1: "vol (fs_dev fs) s1 (inode_block fs n) = splice (inode_offset n) (encode_inode ino) ?b" using law(5) [OF assms(2)] by simp
  let ?f = "\<lambda>b. (decode_inode (slice (inode_offset n) INODE_SIZE b), None :: bytes option)"
  obtain x s2 where w: "with_block (fs_dev fs) (inode_block fs n) ?f s1 = (Some x, s2)" using law(6) [of ?f] by (metis option.exhaust prod.collapse)
  have "x = decode_inode (slice (inode_offset n) INODE_SIZE (splice (inode_offset n) (encode_inode ino) ?b))"
    using with_block_law(4) [OF law(3) assms(2) inode_block_less w] b1 by simp
  also have "\<dots> = ino"
    using slice_splice_same [of "inode_offset n" "encode_inode ino" ?b] inode_offset_fits [of n] law(4) le decode_encode_inode [OF assms(3)] by simp
  finally have "fst (inode_read fs n s1) = Some ino" using w law(1,2) assms(4) by (simp add: inode_read_def)
  moreover have "y = x" if "m \<noteq> n" "fst (inode_read fs m s) = Some x" "fst (inode_read fs m s1) = Some y" for m x y
  proof -
    note x = inode_read_value [OF assms(1,2) that(2)] and y = inode_read_value [OF law(3) assms(2) that(3)]
    have "slice (inode_offset m) INODE_SIZE (vol (fs_dev fs) s1 (inode_block fs m)) =
        slice (inode_offset m) INODE_SIZE (vol (fs_dev fs) s (inode_block fs m))"
    proof (cases "inode_block fs m = inode_block fs n")
      case True
      have "m div 16 = n div 16" by (rule inode_block_neq [OF assms(5) x(2) law(2) True])
      then have "m mod 16 \<noteq> n mod 16" using that(1) by (metis mult_div_mod_eq)
      then have "inode_offset m + INODE_SIZE \<le> inode_offset n \<or> inode_offset n + INODE_SIZE \<le> inode_offset m"
        by (auto simp: inode_offset_def neq_iff)
      then show ?thesis
        using True b1 law(4) le inode_offset_fits [of m] inode_offset_fits [of n] by (simp add: slice_splice_disjoint)
    qed (use law(5) [OF assms(2)] in simp)
    then show ?thesis using x(1) y(1) by simp
  qed
  moreover have "vol e s1 b = vol e s b" if "e \<in> D" "(e, b) \<noteq> (fs_dev fs, inode_block fs n)" for e b
    using law(5) [OF that(1)] that(2) by auto
  ultimately show ?thesis by blast
qed

section \<open>Entries that cannot be removed\<close>

text \<open>On a cache whose devices work, a block with contents is fetched.\<close>

lemma bcache_get_present:
  assumes live: "cache_live D c" and d: "d \<in> D" "n < 2 ^ 61" and len: "length (view c d n) = KIFS_BLOCK_SIZE"
  shows "\<exists>i c'. bcache_get d n c = (Some i, c') \<and> healthy (blk c') \<and> g_lru c' \<noteq> []"
proof (cases "dev_in_range (blk c) d (8 * n) 8")
  case True
  then show ?thesis by (rule bcache_get_live [OF live d])
next
  case False
  have inv: "bc_inv D c" "healthy (blk c)" "bc_ready c" "g_lru c \<noteq> []" using live by (simp_all add: cache_live_def cache_ok_def)
  have "view c d n \<noteq> dev_block (blk c) d n" using False len by (auto simp: dev_block_def)
  then have held: "\<exists>i < g_nbufs c. holds c d n i" using view_not_held by blast
  then have "ht_lookup d n c \<noteq> None" by (simp only: ht_lookup_None [OF inv(1)] not_not)
  moreover have "g_nbufs c \<noteq> 0" using held by auto
  ultimately obtain b where "ht_lookup d n c = Some b" "g_nbufs c \<noteq> 0" by blast
  then show ?thesis using inv by (simp add: bcache_get_def)
qed

lemma release_frame:
  "blk (bcache_put i c) = blk c" "g_lru (bcache_put i c) = g_lru c" "blk (bcache_store i bs c) = blk c" "g_lru (bcache_store i bs c) = g_lru c"
  by (simp_all add: bcache_put_def bcache_store_def bcache_mark_dirty_def)

lemma with_block_live:
  assumes live: "cache_live D (k_cache s)" and d: "d \<in> D" "n < 2 ^ 61" and len: "length (vol d s n) = KIFS_BLOCK_SIZE"
    and f: "\<And>b'. snd (f (vol d s n)) = Some b' \<Longrightarrow> length b' = KIFS_BLOCK_SIZE"
  shows "\<exists>s'. with_block d n f s = (Some (fst (f (vol d s n))), s') \<and> cache_live D (k_cache s')"
proof -
  obtain i c where g: "bcache_get d n (k_cache s) = (Some i, c)" "healthy (blk c)" "g_lru c \<noteq> []"
    using bcache_get_present [OF live d] len by (auto simp: vol_def)
  obtain r s' where w: "with_block d n f s = (r, s')" by fastforce
  have ok: "kready D s" using live by (simp add: cache_live_def kready_def ready_ok_def)
  have h: "r \<noteq> None" "healthy (blk (k_cache s'))" "g_lru (k_cache s') \<noteq> []"
    using w g by (auto simp: with_block_def release_frame split: prod.splits option.splits)
  note law = with_block_law [OF ok d w f]
  have "cache_live D (k_cache s')" using law(1) h(2,3) by (simp add: cache_live_def kready_def ready_ok_def)
  then show ?thesis using w law(4) [OF _ h(1)] by auto
qed

text \<open>The name occurs in the directory in the block \<open>disk\<close> only, and the blocks of the directory are valid.\<close>

definition listed_in :: "kifs_fs \<Rightarrow> kifs_inode \<Rightarrow> bytes \<Rightarrow> nat \<Rightarrow> kstate \<Rightarrow> bool" where
  "listed_in fs ino name disk s \<longleftrightarrow> (\<forall>fb b. map_inline ino fb = Some b \<longrightarrow> dir_wf (fs_meta_crc fs) (vol (fs_dev fs) s b) \<and>
     (b \<noteq> disk \<longrightarrow> name \<notin> fst ` set (dir_listing (vol (fs_dev fs) s b))))"

lemma listed_in_cong: "vol (fs_dev fs) s' = vol (fs_dev fs) s \<Longrightarrow> listed_in fs ino name disk s' = listed_in fs ino name disk s"
  by (simp add: listed_in_def)

lemma map_file_block_inline: "i_height ino = 0 \<Longrightarrow> map_file_block fs ino fb s = (map_inline ino fb, s)"
  by (simp add: map_file_block_def extent_tree_lookup_def split: option.splits)

lemma map_inline_less: "map_inline ino fb = Some b \<Longrightarrow> b < 2 ^ 61"
  using map_file_block_less [of undefined ino fb undefined b undefined] by (simp add: map_file_block_def)

lemma dir_remove_from_stuck:
  assumes "kready D s" "fs_dev fs \<in> D" "i_height ino = 0" "listed_in fs ino (d_name r) disk s"
    "dir_wf (fs_meta_crc fs) (vol (fs_dev fs) s disk)" "block_recs (vol (fs_dev fs) s disk) = r # rs" "d_ino r \<noteq> 0"
    "dir_remove_from fs ino (d_name r) fb nblocks s = (res, s')"
  shows "res = None \<and> (\<forall>e \<in> D. vol e s' = vol e s)"
  using assms(1,4-6,8)
proof (induction "nblocks - fb" arbitrary: fb s)
  case 0
  then show ?case by (simp add: dir_remove_from.simps [of fs ino _ fb])
next
  case (Suc k)
  have fb: "fb < nblocks" "k = nblocks - (fb + 1)" using Suc.hyps(2) by simp_all
  let ?f = "\<lambda>b. if \<not> validate_shdr b KIFS_MAGIC_DIR KIFS_BTYPE_DIR (fs_meta_crc fs) then (None, None)
     else let scan = scan_dir_block_mutable b (d_name r) 0 in
       if \<not> ds_found scan then (None, None) else if \<not> ds_prev_valid scan then (Some None, None)
       else (Some (Some (ds_ino scan)), Some (dir_block_unlink b scan (fs_meta_crc fs)))"
  show ?case
  proof (cases "map_inline ino fb")
    case None
    then show ?thesis
      using Suc.hyps(1) [OF fb(2) Suc.prems(1-4)] Suc.prems(5) fb(1) assms(3)
      by (simp add: dir_remove_from.simps [of fs ino _ fb] map_file_block_inline)
  next
    case (Some b)
    have wf: "dir_wf (fs_meta_crc fs) (vol (fs_dev fs) s b)"
      and other: "b \<noteq> disk \<Longrightarrow> d_name r \<notin> fst ` set (dir_listing (vol (fs_dev fs) s b))"
      using Suc.prems(2) Some by (auto simp: listed_in_def)
    have v: "validate_shdr (vol (fs_dev fs) s b) KIFS_MAGIC_DIR KIFS_BTYPE_DIR (fs_meta_crc fs)" using wf by (simp add: dir_wf_def)
    have f: "?f (vol (fs_dev fs) s b) = (if b = disk then Some None else None, None)"
    proof (cases "b = disk")
      case True
      then show ?thesis using v first_entry_stuck [OF Suc.prems(3,4) assms(7), of 0] by (simp add: Let_def)
    next
      case False
      then have "\<not> ds_found (scan_dir_block_mutable (vol (fs_dev fs) s b) (d_name r) 0)" unfolding scan_found_listing [OF wf] by (rule other)
      then show ?thesis using v False by (simp add: Let_def)
    qed
    obtain x s2 where w: "with_block (fs_dev fs) b ?f s = (x, s2)" by fastforce
    note law = with_block_law [OF Suc.prems(1) assms(2) map_inline_less [OF Some] w]
    have ok: "kready D s2" using law(1) f by simp
    have vs: "\<forall>e \<in> D. vol e s2 = vol e s" using law(2,5) f by (cases x) simp_all
    have x: "x = None \<or> x = Some (if b = disk then Some None else None)" using law(4) f by (cases x) simp_all
    show ?thesis
    proof (cases "x = Some (Some None)")
      case True
      then show ?thesis using Suc.prems(5) fb(1) Some assms(3) w vs
        by (simp add: dir_remove_from.simps [of fs ino _ fb] map_file_block_inline)
    next
      case False
      then have "dir_remove_from fs ino (d_name r) (fb + 1) nblocks s2 = (res, s')"
        using Suc.prems(5) fb(1) Some assms(3) w x
        by (auto simp: dir_remove_from.simps [of fs ino _ fb] map_file_block_inline split: if_splits)
      moreover have "vol (fs_dev fs) s2 = vol (fs_dev fs) s" using vs assms(2) by blast
      ultimately show ?thesis using Suc.hyps(1) [OF fb(2) ok] Suc.prems(2-4) listed_in_cong [of fs s2 s] vs by simp
    qed
  qed
qed

lemma parse_lookup:
  assumes "dir_wf (fs_meta_crc fs) b"
  shows "parse_dir_block fs b (dir_lookup_cb name) u = (case map_of (dir_listing b) name of Some n \<Rightarrow> (False, True, n) | None \<Rightarrow> (True, u))"
  using assms by (simp add: parse_dir_block_listing dir_wf_def iter_lookup)

lemma dir_lookup_from_finds:
  assumes "cache_live D (k_cache s)" "fs_dev fs \<in> D" "i_height ino = 0" "listed_in fs ino name disk s"
    "map_of (dir_listing (vol (fs_dev fs) s disk)) name = Some n" "map_inline ino fb0 = Some disk" "fb \<le> fb0" "fb0 < nblocks"
  shows "\<exists>s'. dir_iterate_from fs ino (dir_lookup_cb name) fb nblocks (False, 0) s = (False, (True, n), s')"
  using assms(1,4,5,7)
proof (induction "Suc fb0 - fb" arbitrary: fb s)
  case (Suc k)
  have fb: "fb < nblocks" "fb \<noteq> fb0 \<Longrightarrow> k = Suc fb0 - (fb + 1) \<and> fb + 1 \<le> fb0" using Suc.hyps(2) Suc.prems(4) assms(8) by simp_all
  show ?case
  proof (cases "map_inline ino fb")
    case None
    then have "fb \<noteq> fb0" using assms(6) by auto
    then show ?thesis
      using Suc.hyps(1) [of "fb + 1" s] Suc.prems(1-3) None fb assms(3) by (simp add: dir_iterate_from.simps [of fs ino _ fb] map_file_block_inline)
  next
    case (Some b)
    have wf: "dir_wf (fs_meta_crc fs) (vol (fs_dev fs) s b)"
      and other: "b \<noteq> disk \<Longrightarrow> name \<notin> fst ` set (dir_listing (vol (fs_dev fs) s b))"
      using Suc.prems(2) Some by (auto simp: listed_in_def)
    let ?f = "\<lambda>b. (b, None :: bytes option)"
    have "length (vol (fs_dev fs) s b) = KIFS_BLOCK_SIZE" using wf by (simp add: dir_wf_def)
    then obtain s2 where w: "with_block (fs_dev fs) b ?f s = (Some (vol (fs_dev fs) s b), s2)" and live: "cache_live D (k_cache s2)"
      using with_block_live [OF Suc.prems(1) assms(2) map_inline_less [OF Some], of ?f] by auto
    have "kready D s" using Suc.prems(1) by (simp add: cache_live_def kready_def ready_ok_def)
    then have vs: "vol (fs_dev fs) s2 = vol (fs_dev fs) s"
      using quiet_read [OF w map_inline_less [OF Some]] assms(2) by (simp add: quiet_def)
    show ?thesis
    proof (cases "b = disk")
      case True
      then show ?thesis using w Some fb(1) assms(3) Suc.prems(3) parse_lookup [OF wf, of name "(False, 0)"]
        by (simp add: dir_iterate_from.simps [of fs ino _ fb] map_file_block_inline)
    next
      case False
      then have "fb \<noteq> fb0" using Some assms(6) by auto
      have "map_of (dir_listing (vol (fs_dev fs) s b)) name = None" using other [OF False] by (simp add: map_of_eq_None_iff)
      then have "dir_iterate_from fs ino (dir_lookup_cb name) fb nblocks (False, 0) s =
          dir_iterate_from fs ino (dir_lookup_cb name) (fb + 1) nblocks (False, 0) s2"
        using w Some fb(1) assms(3) parse_lookup [OF wf, of name "(False, 0)"]
        by (simp add: dir_iterate_from.simps [of fs ino _ fb] map_file_block_inline)
      then show ?thesis using Suc.hyps(1) [of "fb + 1" s2] live Suc.prems(2,3) vs listed_in_cong [OF vs] fb(2) \<open>fb \<noteq> fb0\<close> by simp
    qed
  qed
qed simp

text \<open>C10: when the first record of a block of a directory is a live entry, and its name occurs in no other block of the directory,
  \<open>dir_remove_entry\<close> fails for that name and leaves every volume as it is, although the name can be looked up: with working devices
  and memory \<open>dir_lookup\<close> finds its inode. Blocks that start with an entry are the ones that \<open>dir_append_entry_block\<close> makes; the
  extents of the directory are in its inode, as they are for every directory that grows.\<close>

theorem dir_first_entry_not_removable:
  assumes "kready D s" and "fs_dev fs \<in> D" and "i_height ino = 0" and "fb < block_count_of (i_size ino)" and "map_inline ino fb = Some disk"
    and "block_recs (vol (fs_dev fs) s disk) = r # rs" and "d_ino r \<noteq> 0" and "listed_in fs ino (d_name r) disk s"
  shows "fst (dir_remove_entry fs ino (d_name r) s) = None \<and> (\<forall>e \<in> D. vol e (snd (dir_remove_entry fs ino (d_name r) s)) = vol e s) \<and>
    (cache_live D (k_cache s) \<and> fst (kmalloc_ok s) \<longrightarrow> fst (dir_lookup fs ino (d_name r) s) = Some (d_ino r))"
proof -
  have wf: "dir_wf (fs_meta_crc fs) (vol (fs_dev fs) s disk)" using assms(5,8) by (auto simp: listed_in_def)
  obtain res s' where rm: "dir_remove_from fs ino (d_name r) 0 (block_count_of (i_size ino)) s = (res, s')" by fastforce
  note dir_remove_from_stuck [OF assms(1-3,8) wf assms(6,7) rm]
  then have "fst (dir_remove_entry fs ino (d_name r) s) = None \<and> (\<forall>e \<in> D. vol e (snd (dir_remove_entry fs ino (d_name r) s)) = vol e s)"
    using rm by (simp add: dir_remove_entry_def)
  moreover have "fst (dir_lookup fs ino (d_name r) s) = Some (d_ino r)" if l: "cache_live D (k_cache s)" "fst (kmalloc_ok s)"
  proof -
    obtain s1 where k: "kmalloc_ok s = (True, s1)" using l(2) by (metis (full_types) prod.collapse)
    then have "k_cache s1 = k_cache s" by (auto simp: kmalloc_ok_def)
    then have s1: "cache_live D (k_cache s1)" "vol (fs_dev fs) s1 = vol (fs_dev fs) s" using l(1) by (simp_all add: vol_def)
    have "map_of (dir_listing (vol (fs_dev fs) s1 disk)) (d_name r) = Some (d_ino r)" using s1(2) assms(6,7) by (simp add: dir_listing_def)
    from dir_lookup_from_finds [OF s1(1) assms(2,3) _ this assms(5) _ assms(4), of 0] assms(8) listed_in_cong [OF s1(2)]
    show ?thesis using k by (auto simp: dir_lookup_def dir_iterate_def)
  qed
  ultimately show ?thesis by blast
qed

section \<open>Examples\<close>

lemma example_kstate_facts: "kready {PartDev 0} example_kstate" "cache_live {PartDev 0} (k_cache example_kstate)" "fs_dev example_fs \<in> {PartDev 0}"
  using example_cache_ready example_cache_live by (simp_all add: kready_def example_kstate_def example_fs_def)

lemma example_block_length: "n < 16 \<Longrightarrow> length (vol (PartDev 0) example_kstate n) = KIFS_BLOCK_SIZE"
  using view_length [of "{PartDev 0}" example_cache "PartDev 0" n] example_cache_ready
  by (simp add: vol_def example_kstate_def ready_ok_def cache_ok_def example_cache_parts example_block_def)

definition example_fs2 :: kifs_fs where
  "example_fs2 = example_fs\<lparr>fs_sb := (fs_sb example_fs)\<lparr>sb_inode_table_start := 2, sb_inode_count := 64\<rparr>\<rparr>"

theorem inode_write_read_witness:
  "\<exists>s1. inode_write example_fs2 5 example_inode example_kstate = (True, s1) \<and> fst (inode_read example_fs2 5 s1) = Some example_inode"
proof -
  have wf: "inode_wf example_inode" "inode_validate example_fs2 example_inode"
    by (simp_all add: inode_validate_def inode_wf_def example_inode_def inode_zero_def null_inode_def no_extent_def extent_wf_def magic_eq_def
        KIFS_MAGIC_INODE_def disk_block_in_data_region_def example_fs2_def example_fs_def)
  have fs: "fs_dev example_fs2 = PartDev 0" "fs_dev example_fs2 \<in> {PartDev 0}" "inode_block example_fs2 5 = 2"
    by (simp_all add: example_fs2_def example_fs_def inode_block_def add32_def)
  let ?f = "\<lambda>b. ((), Some (splice (inode_offset 5) (encode_inode example_inode) b))"
  have len: "length b' = KIFS_BLOCK_SIZE" if "snd (?f (vol (PartDev 0) example_kstate 2)) = Some b'" for b'
    using that example_block_length [of 2] inode_offset_fits [of 5] length_encode_inode [OF wf(1)] by auto
  have "\<exists>s1. with_block (PartDev 0) 2 ?f example_kstate = (Some (), s1)"
    using with_block_live [where f = ?f and n = 2, OF example_kstate_facts(2) _ _ example_block_length len] by auto
  then obtain s1 where w: "inode_write example_fs2 5 example_inode example_kstate = (True, s1)"
    using fs by (auto simp: inode_write_def example_fs2_def)
  have "sb_inode_table_start (fs_sb example_fs2) + sb_inode_count (fs_sb example_fs2) div 16 < 2 ^ 32" by (simp add: example_fs2_def)
  from inode_write_read [OF example_kstate_facts(1) fs(2) wf this w] w show ?thesis by blast
qed

text \<open>A directory with one block, as \<open>dir_append_entry_block\<close> makes it for the name a.\<close>

definition example_dir :: kifs_inode where
  "example_dir = inode_zero\<lparr>i_type := KIFS_INO_T_DIR, i_size := 4096, i_inline_count := 1,
     i_extents := \<lparr>e_file = 0, e_disk = 10, e_count = 1\<rparr> # replicate 7 no_extent\<rparr>"

definition dir_kstate :: kstate where
  "dir_kstate = snd (write_block_raw (PartDev 0) 10 (appended_block 2 3 [0x61] 1 True) example_kstate)"

lemma dir_kstate_facts:
  "kready {PartDev 0} dir_kstate" "cache_live {PartDev 0} (k_cache dir_kstate)"
  "vol (PartDev 0) dir_kstate 10 = appended_block 2 3 [0x61] 1 True"
proof -
  let ?b = "appended_block 2 3 [0x61] 1 True" and ?f = "\<lambda>b. ((), Some (appended_block 2 3 [0x61] 1 True))"
  have len: "length b' = KIFS_BLOCK_SIZE" if "snd (?f (vol (PartDev 0) example_kstate 10)) = Some b'" for b'
    using that appended_block_recs(1) [where child = 3 and name = "[0x61]" and crc = True and dir_n = 2 and ft = 1] by (simp add: dir_wf_def)
  obtain s where w: "with_block (PartDev 0) 10 ?f example_kstate = (Some (), s)" "cache_live {PartDev 0} (k_cache s)"
    using with_block_live [where f = ?f and n = 10, OF example_kstate_facts(2) _ _ example_block_length len] by auto
  have s: "dir_kstate = s" using w(1) by (simp add: dir_kstate_def write_block_raw_def)
  show "kready {PartDev 0} dir_kstate" "cache_live {PartDev 0} (k_cache dir_kstate)"
    using w(2) s by (simp_all add: cache_live_def kready_def ready_ok_def)
  show "vol (PartDev 0) dir_kstate 10 = ?b"
    using with_block_law(5) [where f = ?f and n = 10 and e = "PartDev 0", OF example_kstate_facts(1) _ _ w(1) len] s by simp
qed

lemma example_dir_blocks: "map_inline example_dir fb = (if fb = 0 then Some 10 else None)"
  by (auto simp: map_inline_def example_dir_def extent_covers_def extent_target_def add32_def sub32_def no_extent_def inode_zero_def null_inode_def)

theorem dir_first_entry_not_removable_witness:
  "i_type example_dir = KIFS_INO_T_DIR \<and> kifs_name_valid [0x61] \<and> fst (dir_lookup example_fs example_dir [0x61] dir_kstate) = Some 3 \<and>
   fst (dir_remove_entry example_fs example_dir [0x61] dir_kstate) = None"
proof -
  define r where "r = \<lparr>d_off = 24, d_len = 4072, d_ino = 3, d_raw = [0x61 :: 8 word]\<rparr>"
  have fs: "fs_dev example_fs = PartDev 0" "fs_meta_crc example_fs" by (simp_all add: example_fs_def)
  note ab = appended_block_recs [where child = 3 and name = "[0x61]" and crc = True and dir_n = 2 and ft = 1]
  have nm: "d_name r = [0x61]" "d_ino r = 3" by (simp_all add: r_def d_name_def cstr_def)
  have rs: "block_recs (vol (fs_dev example_fs) dir_kstate 10) = r # []" using ab(2) fs dir_kstate_facts(3) by (simp add: r_def)
  have li: "listed_in example_fs example_dir (d_name r) 10 dir_kstate"
    using ab(1) fs dir_kstate_facts(3) by (simp add: listed_in_def example_dir_blocks)
  have b: "0 < block_count_of (i_size example_dir)" by (simp add: example_dir_def block_count_of_def)
  have "fst (kmalloc_ok dir_kstate)"
    by (simp add: dir_kstate_def write_block_raw_def with_block_def example_kstate_def kmalloc_ok_def case_prod_unfold split: option.splits)
  then show ?thesis
    using dir_first_entry_not_removable [OF dir_kstate_facts(1) _ _ b _ rs _ li] dir_kstate_facts(2) fs nm
    by (simp add: example_dir_blocks) (simp add: example_dir_def kifs_name_valid_def inode_zero_def null_inode_def)
qed

end
