(* ===== verification/Paths.thy ===== *)
theory Paths
  imports Prelude
begin

text \<open>
  Paths as lists of bytes without the terminator, and the names in a path.
\<close>

abbreviation (input) slash :: "8 word" where "slash \<equiv> 0x2F"

fun split_on :: "8 word \<Rightarrow> bytes \<Rightarrow> bytes list" where
  "split_on c [] = [[]]"
| "split_on c (x # xs) = (if x = c then [] # split_on c xs else case split_on c xs of y # ys \<Rightarrow> (x # y) # ys | [] \<Rightarrow> [[x]])"

text \<open>The names in a path, without empty ones.\<close>

definition components :: "bytes \<Rightarrow> bytes list" where
  "components p = filter (\<lambda>n. n \<noteq> []) (split_on slash p)"

lemma dropWhile_ConsD: "dropWhile P xs = y # ys \<Longrightarrow> \<not> P y"
  by (induction xs) (auto split: if_splits)

lemma split_on_nonempty: "split_on c p \<noteq> []"
  by (induction p) (auto split: list.splits)

lemma split_on_takeWhile:
  "split_on c p = takeWhile (\<lambda>x. x \<noteq> c) p # (case dropWhile (\<lambda>x. x \<noteq> c) p of [] \<Rightarrow> [] | _ # r \<Rightarrow> split_on c r)"
  by (induction p) (auto split: list.splits)

lemma components_slash [simp]: "components (slash # p) = components p" "components [] = []"
  by (simp_all add: components_def)

lemma components_strip: "components (dropWhile (\<lambda>c. c = slash) p) = components p"
  by (induction p) auto

lemma components_next:
  "components p = (case dropWhile (\<lambda>c. c = slash) p of [] \<Rightarrow> []
     | q # qs \<Rightarrow> takeWhile (\<lambda>c. c \<noteq> slash) (q # qs) # components (dropWhile (\<lambda>c. c \<noteq> slash) (q # qs)))"
proof -
  let ?q = "dropWhile (\<lambda>c. c = slash) p"
  show ?thesis
  proof (cases ?q)
    case Nil
    show ?thesis using components_strip [of p] unfolding Nil by simp
  next
    case (Cons c cs)
    have c: "c \<noteq> slash" using dropWhile_ConsD [OF Cons] .
    have "components (c # cs) = takeWhile (\<lambda>c. c \<noteq> slash) (c # cs) # components (dropWhile (\<lambda>c. c \<noteq> slash) (c # cs))"
    proof (cases "dropWhile (\<lambda>x. x \<noteq> slash) (c # cs)")
      case Nil
      show ?thesis using c split_on_takeWhile [of slash "c # cs"] unfolding Nil by (simp add: components_def)
    next
      case (Cons d ds)
      have "d = slash" using dropWhile_ConsD [OF Cons] by simp
      then show ?thesis using c split_on_takeWhile [of slash "c # cs"] unfolding Cons by (simp add: components_def)
    qed
    then show ?thesis using components_strip [of p] unfolding Cons by simp
  qed
qed

end
