(* ===== verification/Vfs.thy ===== *)
theory Vfs
  imports Kifs_Volume Paths
begin

text \<open>
  The virtual file system (\<open>src/src/vfs/vfs.c\<close>): the mount table, the choice of the mount for a path,
  path resolution and the operations by path. A driver is a record of functions; KiFS is the first of
  the two drivers, the second (FAT) is a parameter. The private data of a mount is that of its driver. A
  vnode belongs to the mount it was looked up in, and its operations are those of that mount's driver.
  Strings are lists of bytes without the terminating zero. A mount is a value, and binding stores a copy of it with its path: every
  caller binds a mount that it has just made, so that no mount is bound at two paths.
\<close>

abbreviation (input) VFS_MAX_MOUNT_PATH :: nat where "VFS_MAX_MOUNT_PATH \<equiv> 256"
abbreviation (input) VFS_MAX_MOUNTS :: nat where "VFS_MAX_MOUNTS \<equiv> 16"

section \<open>Drivers and mounts\<close>

type_synonym 'u readdir_cb = "bytes \<Rightarrow> nat \<Rightarrow> 'u \<Rightarrow> bool \<times> 'u"

text \<open>An operation that a driver leaves out is None. Reads, writes and the like are called through the
  vnode by the clients of this layer and take no part in path resolution.\<close>

record ('p, 'u) vnode_ops =
  op_lookup :: "('p \<Rightarrow> vnode \<Rightarrow> bytes \<Rightarrow> kstate \<Rightarrow> vnode option \<times> kstate) option"
  op_readdir :: "('p \<Rightarrow> vnode \<Rightarrow> 'u readdir_cb \<Rightarrow> 'u \<Rightarrow> kstate \<Rightarrow> bool \<times> 'u \<times> kstate) option"
  op_create :: "('p \<Rightarrow> vnode \<Rightarrow> bytes \<Rightarrow> nat \<Rightarrow> kstate \<Rightarrow> vnode option \<times> kstate) option"
  op_mkdir :: "('p \<Rightarrow> vnode \<Rightarrow> bytes \<Rightarrow> nat \<Rightarrow> kstate \<Rightarrow> bool \<times> kstate) option"
  op_unlink :: "('p \<Rightarrow> vnode \<Rightarrow> bytes \<Rightarrow> kstate \<Rightarrow> bool \<times> kstate) option"

record ('p, 'u) vfs_mount =
  m_fs_name :: bytes
  m_dev :: "blockdev option"
  m_root :: "vnode option"
  mount_path :: bytes
  m_readonly :: bool
  m_private :: 'p
  m_ops :: "('p, 'u) vnode_ops"

record ('p, 'u) fs_driver =
  drv_name :: bytes
  drv_probe :: "blockdev \<Rightarrow> kstate \<Rightarrow> bool \<times> kstate"
  drv_mount :: "blockdev \<Rightarrow> kstate \<Rightarrow> ('p, 'u) vfs_mount option \<times> kstate"

record ('p, 'u) vfs_mount_slot =
  sl_used :: bool
  sl_mount :: "('p, 'u) vfs_mount option"

record ('p, 'u) vfs =
  g_mounts :: "('p, 'u) vfs_mount_slot list"
  ks :: kstate

text \<open>The driver of KiFS, whose private data is tagged to tell it from that of the other driver.\<close>

definition kifs_vops :: "(kifs_fs + 'o, 'u) vnode_ops" where
  "kifs_vops = \<lparr>
     op_lookup = Some (\<lambda>p dir name s. case p of Inl fs \<Rightarrow> kifs_vnode_lookup fs dir name s | Inr _ \<Rightarrow> (None, s)),
     op_readdir = Some (\<lambda>p dir cb u s. case p of Inl fs \<Rightarrow> kifs_vnode_readdir fs dir cb u s | Inr _ \<Rightarrow> (False, u, s)),
     op_create = Some (\<lambda>p dir name mode s. case p of Inl fs \<Rightarrow> kifs_vnode_create fs dir name mode s | Inr _ \<Rightarrow> (None, s)),
     op_mkdir = Some (\<lambda>p dir name mode s. case p of Inl fs \<Rightarrow> (let (ok, _, s1) = kifs_vnode_mkdir fs dir name mode s in (ok, s1))
                                           | Inr _ \<Rightarrow> (False, s)),
     op_unlink = Some (\<lambda>p dir name s. case p of Inl fs \<Rightarrow> kifs_vnode_unlink fs dir name s | Inr _ \<Rightarrow> (False, s))\<rparr>"

definition kifs_driver :: "(kifs_fs + 'o, 'u) fs_driver" where
  "kifs_driver = \<lparr>drv_name = [0x6B, 0x69, 0x66, 0x73], drv_probe = kifs_probe,
     drv_mount = (\<lambda>d s. let (r, s1) = kifs_mount d s in
        (map_option (\<lambda>(fs, root). \<lparr>m_fs_name = [0x6B, 0x69, 0x66, 0x73], m_dev = Some d, m_root = Some root, mount_path = [],
           m_readonly = fs_readonly fs, m_private = Inl fs, m_ops = kifs_vops\<rparr>) r, s1))\<rparr>"

definition g_drivers :: "(kifs_fs + 'o, 'u) fs_driver \<Rightarrow> (kifs_fs + 'o, 'u) fs_driver list" where
  "g_drivers fat = [kifs_driver, fat]"

section \<open>Devices\<close>

definition on_blk :: "(block_state \<Rightarrow> 'r \<times> block_state) \<Rightarrow> kstate \<Rightarrow> 'r \<times> kstate" where
  "on_blk f s = (let (r, st) = f (blk (k_cache s)) in (r, s\<lparr>k_cache := (k_cache s)\<lparr>blk := st\<rparr>\<rparr>))"

definition mount_available :: "('p, 'u) vfs_mount option \<Rightarrow> kstate \<Rightarrow> bool \<times> kstate" where
  "mount_available mo s =
     (case mo of
        None \<Rightarrow> (False, s)
      | Some m \<Rightarrow>
        if m_root m = None then (False, s)
        else (case m_dev m of
                None \<Rightarrow> (True, s)
              | Some d \<Rightarrow> on_blk (block_device_is_present d) s))"

definition root_candidate :: "blockdev option \<Rightarrow> bool \<Rightarrow> kstate \<Rightarrow> bool \<times> kstate" where
  "root_candidate dev require_kifs s =
     (case dev of
        None \<Rightarrow> (False, s)
      | Some d \<Rightarrow>
        let (present, s1) = on_blk (block_device_is_present d) s in
        if \<not> present \<or> block_device_is_removable (Some d) (blk (k_cache s1)) then (False, s1)
        else if \<not> require_kifs then (True, s1) else kifs_probe d s1)"

fun pick_partition :: "bool \<Rightarrow> nat list \<Rightarrow> kstate \<Rightarrow> blockdev option \<times> kstate" where
  "pick_partition require_kifs [] s = (None, s)"
| "pick_partition require_kifs (i # is) s =
     (let (dev, s1) = on_blk (block_partition_device i) s; (ok, s2) = root_candidate dev require_kifs s1 in
      if ok then (dev, s2) else pick_partition require_kifs is s2)"

definition pick_boot :: "bool \<Rightarrow> kstate \<Rightarrow> blockdev option \<times> kstate" where
  "pick_boot require_kifs s =
     (let (dev, s1) = on_blk block_boot_device s; (ok, s2) = root_candidate dev require_kifs s1 in
      if ok then on_blk block_boot_device s2 else (None, s2))"

definition pick_default_root_device :: "kstate \<Rightarrow> blockdev option \<times> kstate" where
  "pick_default_root_device s =
     (let (pc, s0) = on_blk block_partition_count s;
          (d1, s1) = pick_partition True [0..<pc] s0 in
      if d1 \<noteq> None then (d1, s1) else
      let (d2, s2) = pick_boot True s1 in
      if d2 \<noteq> None then (d2, s2) else
      let (d3, s3) = pick_partition False [0..<pc] s2 in
      if d3 \<noteq> None then (d3, s3) else pick_boot False s3)"

section \<open>Mount paths\<close>

definition vfs_init :: "('p, 'u) vfs \<Rightarrow> ('p, 'u) vfs" where
  "vfs_init v = v\<lparr>g_mounts := replicate VFS_MAX_MOUNTS \<lparr>sl_used = False, sl_mount = None\<rparr>\<rparr>"

function trim_slashes :: "bytes \<Rightarrow> nat \<Rightarrow> nat" where
  "trim_slashes p len = (if len > 1 \<and> p ! (len - 1) = slash then trim_slashes p (len - 1) else len)"
  by pat_completeness auto
termination
  by (relation "measure snd") auto

declare trim_slashes.simps [simp del]

definition normalize_mount_path :: "bytes \<Rightarrow> nat \<Rightarrow> bytes option" where
  "normalize_mount_path p out_cap =
     (if out_cap < 2 \<or> p = [] \<or> hd p \<noteq> slash then None
      else let len = trim_slashes p (length p) in if len + 1 > out_cap then None else Some (take len p))"

fun find_slot :: "(('p, 'u) vfs_mount_slot \<Rightarrow> bool) \<Rightarrow> ('p, 'u) vfs_mount_slot list \<Rightarrow> nat \<Rightarrow> nat option" where
  "find_slot P [] i = None"
| "find_slot P (x # xs) i = (if P x then Some i else find_slot P xs (i + 1))"

definition find_mount_slot_exact :: "bytes \<Rightarrow> ('p, 'u) vfs \<Rightarrow> nat option" where
  "find_mount_slot_exact path v =
     find_slot (\<lambda>sl. sl_used sl \<and> (case sl_mount sl of None \<Rightarrow> False | Some m \<Rightarrow> mount_path m = path)) (g_mounts v) 0"

definition find_mount_slot_available :: "('p, 'u) vfs \<Rightarrow> nat option" where
  "find_mount_slot_available v = find_slot (\<lambda>sl. \<not> sl_used sl) (g_mounts v) 0"

definition set_slot :: "nat \<Rightarrow> bool \<Rightarrow> ('p, 'u) vfs_mount option \<Rightarrow> ('p, 'u) vfs \<Rightarrow> ('p, 'u) vfs" where
  "set_slot i used m v = v\<lparr>g_mounts := (g_mounts v)[i := \<lparr>sl_used = used, sl_mount = m\<rparr>]\<rparr>"

definition slot_available :: "nat \<Rightarrow> ('p, 'u) vfs \<Rightarrow> bool \<times> ('p, 'u) vfs" where
  "slot_available i v = (let (a, s) = mount_available (sl_mount (g_mounts v ! i)) (ks v) in (a, v\<lparr>ks := s\<rparr>))"

text \<open>Drop the mount at a path if its device has gone; false when the path is in use.\<close>

definition clear_stale :: "bytes \<Rightarrow> ('p, 'u) vfs \<Rightarrow> bool \<times> ('p, 'u) vfs" where
  "clear_stale path v =
     (case find_mount_slot_exact path v of
        None \<Rightarrow> (True, v)
      | Some i \<Rightarrow> let (a, v1) = slot_available i v in if a then (False, v1) else (True, set_slot i False None v1))"

definition bind_mount_normalized :: "bytes \<Rightarrow> ('p, 'u) vfs_mount \<Rightarrow> ('p, 'u) vfs \<Rightarrow> bool \<times> ('p, 'u) vfs" where
  "bind_mount_normalized path m v =
     (if m_root m = None then (False, v) else
      let (free, v1) = clear_stale path v in
      if \<not> free then (False, v1)
      else (case find_mount_slot_available v1 of
              None \<Rightarrow> (False, v1)
            | Some i \<Rightarrow> (True, set_slot i True (Some (m\<lparr>mount_path := path\<rparr>)) v1)))"

definition vfs_bind_mount :: "bytes \<Rightarrow> ('p, 'u) vfs_mount \<Rightarrow> ('p, 'u) vfs \<Rightarrow> bool \<times> ('p, 'u) vfs" where
  "vfs_bind_mount abs_path m v =
     (case normalize_mount_path abs_path VFS_MAX_MOUNT_PATH of
        None \<Rightarrow> (False, v)
      | Some p \<Rightarrow> bind_mount_normalized p m v)"

definition vfs_mount_at :: "bytes \<Rightarrow> ('p, 'u) vfs \<Rightarrow> ('p, 'u) vfs_mount option \<times> ('p, 'u) vfs" where
  "vfs_mount_at abs_path v =
     (case normalize_mount_path abs_path VFS_MAX_MOUNT_PATH of
        None \<Rightarrow> (None, v)
      | Some p \<Rightarrow>
        (case find_mount_slot_exact p v of
           None \<Rightarrow> (None, v)
         | Some i \<Rightarrow> let (a, v1) = slot_available i v in (if a then sl_mount (g_mounts v ! i) else None, v1)))"

definition vfs_root_mount :: "('p, 'u) vfs \<Rightarrow> ('p, 'u) vfs_mount option \<times> ('p, 'u) vfs" where
  "vfs_root_mount v = vfs_mount_at [slash] v"

section \<open>Path resolution\<close>

definition is_abs_path :: "bytes \<Rightarrow> bool" where
  "is_abs_path p \<longleftrightarrow> p \<noteq> [] \<and> hd p = slash"

text \<open>The rest of the path and the component, cut to the 255 bytes that fit into the buffer.\<close>

definition next_component :: "bytes \<Rightarrow> bytes \<times> bytes" where
  "next_component p =
     (let p1 = dropWhile (\<lambda>c. c = slash) p
      in (dropWhile (\<lambda>c. c \<noteq> slash) p1, take 255 (takeWhile (\<lambda>c. c \<noteq> slash) p1)))"

fun last_slash :: "bytes \<Rightarrow> nat \<Rightarrow> nat" where
  "last_slash p 0 = 0"
| "last_slash p (Suc i) = (if p ! Suc i \<noteq> slash then last_slash p i else Suc i)"

definition split_parent_child :: "bytes \<Rightarrow> nat \<Rightarrow> nat \<Rightarrow> (bytes \<times> bytes) option" where
  "split_parent_child p parent_cap name_cap =
     (if \<not> is_abs_path p \<or> parent_cap < 2 \<or> name_cap < 2 then None
      else if length p \<le> 1 then None
      else
        let e = trim_slashes p (length p) in
        if e \<le> 1 then None
        else
          let sl = last_slash p (e - 1) in
          if p ! sl \<noteq> slash then None
          else
            let name_len = e - sl - 1 in
            if name_len = 0 \<or> name_len + 1 > name_cap then None
            else
              let name = slice (sl + 1) name_len p in
              if name = [0x2E] \<or> name = [0x2E, 0x2E] then None
              else if sl = 0 then Some ([slash], name)
              else if sl + 1 > parent_cap then None
              else Some (take sl p, name))"

text \<open>The character at a position, which is the terminating zero behind the end.\<close>

definition at_pos :: "bytes \<Rightarrow> nat \<Rightarrow> 8 word" where
  "at_pos p i = (if i < length p then p ! i else 0)"

definition path_has_mount_prefix :: "bytes \<Rightarrow> bytes \<Rightarrow> nat option" where
  "path_has_mount_prefix p mp =
     (if mp = [] \<or> hd mp \<noteq> slash then None
      else if length mp = 1 then (if p = [] \<or> hd p \<noteq> slash then None else Some 1)
      else if take (length mp) p \<noteq> mp then None
      else if at_pos p (length mp) \<noteq> 0 \<and> at_pos p (length mp) \<noteq> slash then None
      else Some (length mp))"

text \<open>One pass over the table; \<open>best\<close> is the mount chosen so far with the length of its path.\<close>

fun select_loop :: "bytes \<Rightarrow> ('p, 'u) vfs_mount_slot list \<Rightarrow> (('p, 'u) vfs_mount \<times> nat) option \<Rightarrow> kstate \<Rightarrow>
    (('p, 'u) vfs_mount \<times> nat) option \<times> kstate" where
  "select_loop p [] best s = (best, s)"
| "select_loop p (sl # sls) best s =
     (if \<not> sl_used sl then select_loop p sls best s
      else (case sl_mount sl of
              None \<Rightarrow> select_loop p sls best s
            | Some m \<Rightarrow>
              let (a, s1) = mount_available (Some m) s in
              if \<not> a then select_loop p sls best s1
              else (case path_has_mount_prefix p (mount_path m) of
                      None \<Rightarrow> select_loop p sls best s1
                    | Some l \<Rightarrow>
                      select_loop p sls (case best of None \<Rightarrow> Some (m, l) | Some (b, bl) \<Rightarrow> if l > bl then Some (m, l) else best) s1)))"

definition rel_path :: "bytes \<Rightarrow> nat \<Rightarrow> bytes" where
  "rel_path p best_len = (if best_len = 1 then p else if at_pos p best_len = 0 then [slash] else drop best_len p)"

definition select_mount_for_path :: "bytes \<Rightarrow> ('p, 'u) vfs \<Rightarrow> (('p, 'u) vfs_mount \<times> bytes) option \<times> ('p, 'u) vfs" where
  "select_mount_for_path p v =
     (if \<not> is_abs_path p then (None, v)
      else let (b, s) = select_loop p (g_mounts v) None (ks v)
           in (map_option (\<lambda>(m, l). (m, rel_path p l)) b, v\<lparr>ks := s\<rparr>))"

definition clone_mount_root :: "('p, 'u) vfs_mount \<Rightarrow> kstate \<Rightarrow> vnode option \<times> kstate" where
  "clone_mount_root m s =
     (case m_root m of
        None \<Rightarrow> (None, s)
      | Some root \<Rightarrow> let (ok, s1) = kmalloc_ok s in (if ok then Some (root\<lparr>vn_refcount := 1\<rparr>) else None, s1))"

lemma next_component_shorter: "snd (next_component p) \<noteq> [] \<Longrightarrow> length (fst (next_component p)) < length p"
proof -
  let ?q = "dropWhile (\<lambda>c. c = slash) p"
  assume "snd (next_component p) \<noteq> []"
  then obtain c cs where q: "?q = c # cs" "c \<noteq> slash" by (cases ?q) (auto simp: next_component_def Let_def split: if_splits)
  have "length (dropWhile (\<lambda>c. c \<noteq> slash) (c # cs)) \<le> length cs" using q(2) by (simp add: length_dropWhile_le)
  moreover have "length (c # cs) \<le> length p" using q(1) length_dropWhile_le [of "\<lambda>c. c = slash" p] by simp
  ultimately show ?thesis using q(1) by (simp add: next_component_def Let_def)
qed

text \<open>The loop of \<open>vfs_resolve\<close>: every component is looked up in the directory reached so far.\<close>

function resolve_walk :: "('p, 'u) vfs_mount \<Rightarrow> vnode \<Rightarrow> bytes \<Rightarrow> kstate \<Rightarrow> vnode option \<times> kstate" where
  "resolve_walk m cur p s =
     (let (rest, name) = next_component p in
      if name = [] then (Some cur, s)
      else (case op_lookup (m_ops m) of
              None \<Rightarrow> (None, s)
            | Some lookup \<Rightarrow>
              if vn_type cur \<noteq> VNODE_DIR then (None, s)
              else (case lookup (m_private m) cur name s of
                      (None, s1) \<Rightarrow> (None, s1)
                    | (Some nxt, s1) \<Rightarrow> resolve_walk m nxt rest s1)))"
  by pat_completeness auto
termination
proof (relation "measure (\<lambda>(m, cur, p, s). length p)", goal_cases)
  case (2 m cur p s x rest name lookup y s1 nxt)
  then show ?case using next_component_shorter [of p] by (simp add: prod_eq_iff [symmetric]) (metis fst_conv snd_conv)
qed simp

declare resolve_walk.simps [simp del]

text \<open>The vnode that a path names, with the mount it belongs to.\<close>

definition vfs_resolve :: "bytes \<Rightarrow> ('p, 'u) vfs \<Rightarrow> (('p, 'u) vfs_mount \<times> vnode) option \<times> ('p, 'u) vfs" where
  "vfs_resolve p v =
     (let (sel, v1) = select_mount_for_path p v in
      case sel of
        None \<Rightarrow> (None, v1)
      | Some (m, rel) \<Rightarrow>
        let (root, s2) = clone_mount_root m (ks v1) in
        (case root of
           None \<Rightarrow> (None, v1\<lparr>ks := s2\<rparr>)
         | Some r \<Rightarrow>
           if rel = [slash] then (Some (m, r), v1\<lparr>ks := s2\<rparr>)
           else let (res, s3) = resolve_walk m r rel s2 in (map_option (\<lambda>vn. (m, vn)) res, v1\<lparr>ks := s3\<rparr>)))"

section \<open>Mounting devices\<close>

fun try_drivers :: "('p, 'u) fs_driver list \<Rightarrow> bytes \<Rightarrow> blockdev \<Rightarrow> ('p, 'u) vfs \<Rightarrow> bool \<times> ('p, 'u) vfs" where
  "try_drivers [] path d v = (False, v)"
| "try_drivers (drv # drvs) path d v =
     (let (hit, s1) = drv_probe drv d (ks v) in
      if \<not> hit then try_drivers drvs path d (v\<lparr>ks := s1\<rparr>)
      else
        let (mo, s2) = drv_mount drv d s1; v2 = v\<lparr>ks := s2\<rparr> in
        (case mo of
           None \<Rightarrow> try_drivers drvs path d v2
         | Some m \<Rightarrow> let (ok, v3) = bind_mount_normalized path m v2 in if ok then (True, v3) else try_drivers drvs path d v3))"

definition vfs_mount_dev :: "('p, 'u) fs_driver list \<Rightarrow> bytes \<Rightarrow> blockdev \<Rightarrow> ('p, 'u) vfs \<Rightarrow> bool \<times> ('p, 'u) vfs" where
  "vfs_mount_dev drvs abs_path d v =
     (let (present, s1) = on_blk (block_device_is_present d) (ks v); v1 = v\<lparr>ks := s1\<rparr> in
      if \<not> present then (False, v1)
      else (case normalize_mount_path abs_path VFS_MAX_MOUNT_PATH of
              None \<Rightarrow> (False, v1)
            | Some path \<Rightarrow>
              let (target_ok, v2) =
                (if path = [slash] then (True, v1)
                 else let (r, v') = vfs_resolve path v1 in
                      (case r of None \<Rightarrow> False | Some (m, vn) \<Rightarrow> vn_type vn = VNODE_DIR, v')) in
              if \<not> target_ok then (False, v2) else
              let (free, v3) = clear_stale path v2 in
              if \<not> free then (False, v3)
              else if find_mount_slot_available v3 = None then (False, v3)
              else try_drivers drvs path d v3))"

definition vfs_mount_root_dev :: "('p, 'u) fs_driver list \<Rightarrow> blockdev \<Rightarrow> ('p, 'u) vfs \<Rightarrow> bool \<times> ('p, 'u) vfs" where
  "vfs_mount_root_dev drvs d v = vfs_mount_dev drvs [slash] d v"

fun vfs_remount_root_dev :: "('p, 'u) fs_driver list \<Rightarrow> blockdev \<Rightarrow> ('p, 'u) vfs \<Rightarrow> bool \<times> ('p, 'u) vfs" where
  "vfs_remount_root_dev [] d v = (False, v)"
| "vfs_remount_root_dev (drv # drvs) d v =
     (let (hit, s1) = drv_probe drv d (ks v) in
      if \<not> hit then vfs_remount_root_dev drvs d (v\<lparr>ks := s1\<rparr>)
      else
        let (mo, s2) = drv_mount drv d s1; v2 = v\<lparr>ks := s2\<rparr> in
        (case mo of
           None \<Rightarrow> vfs_remount_root_dev drvs d v2
         | Some m \<Rightarrow>
           if m_root m = None then vfs_remount_root_dev drvs d v2
           else
             let m' = m\<lparr>mount_path := [slash]\<rparr> in
             (case find_mount_slot_exact [slash] v2 of
                Some i \<Rightarrow> (True, set_slot i True (Some m') v2)
              | None \<Rightarrow>
                (case find_mount_slot_available v2 of
                   None \<Rightarrow> (False, v2)
                 | Some i \<Rightarrow> (True, set_slot i True (Some m') v2)))))"

definition vfs_mount_root_auto :: "('p, 'u) fs_driver list \<Rightarrow> ('p, 'u) vfs \<Rightarrow> bool \<times> ('p, 'u) vfs" where
  "vfs_mount_root_auto drvs v =
     (let (dev, s1) = pick_default_root_device (ks v); v1 = v\<lparr>ks := s1\<rparr> in
      case dev of None \<Rightarrow> (False, v1) | Some d \<Rightarrow> vfs_mount_dev drvs [slash] d v1)"

section \<open>Directories\<close>

definition mount_direct_child_name :: "bytes \<Rightarrow> bytes \<Rightarrow> bytes option" where
  "mount_direct_child_name dir mp =
     (if dir = mp then None
      else
        let rem = (if dir = [slash] then if mp = [] \<or> hd mp \<noteq> slash \<or> length mp = 1 then None else Some (drop 1 mp)
                   else if take (length dir) mp \<noteq> dir then None
                   else if at_pos mp (length dir) \<noteq> slash then None
                   else Some (drop (length dir + 1) mp)) in
        case rem of
          None \<Rightarrow> None
        | Some r \<Rightarrow>
          let n = length (takeWhile (\<lambda>c. c \<noteq> slash) r) in if n = 0 \<or> n \<ge> 256 then None else Some (take n r))"

text \<open>The mount points below a directory that the directory itself does not list. The result says whether
  the callback let the enumeration go on; the caller ignores it.\<close>

fun readdir_mounts :: "bytes \<Rightarrow> ('p, 'u) vfs_mount \<Rightarrow> vnode \<Rightarrow> ('p, 'u) vfs_mount_slot list \<Rightarrow> 'u readdir_cb \<Rightarrow> bytes list \<Rightarrow> 'u \<Rightarrow>
    kstate \<Rightarrow> 'u \<times> kstate" where
  "readdir_mounts dir dm dvn [] cb seen u s = (u, s)"
| "readdir_mounts dir dm dvn (sl # sls) cb seen u s =
     (if \<not> sl_used sl then readdir_mounts dir dm dvn sls cb seen u s
      else (case sl_mount sl of
              None \<Rightarrow> readdir_mounts dir dm dvn sls cb seen u s
            | Some m \<Rightarrow>
              let (a, s1) = mount_available (Some m) s in
              if \<not> a then readdir_mounts dir dm dvn sls cb seen u s1
              else (case mount_direct_child_name dir (mount_path m) of
                      None \<Rightarrow> readdir_mounts dir dm dvn sls cb seen u s1
                    | Some child \<Rightarrow>
                      if child \<in> set seen then readdir_mounts dir dm dvn sls cb seen u s1
                      else
                        let (existing, s2) = (case op_lookup (m_ops dm) of
                              None \<Rightarrow> (None, s1)
                            | Some lookup \<Rightarrow> lookup (m_private dm) dvn child s1) in
                        if existing \<noteq> None then readdir_mounts dir dm dvn sls cb seen u s2
                        else
                          let (go, u') = cb child (case m_root m of None \<Rightarrow> 0 | Some r \<Rightarrow> vn_ino r) u in
                          if \<not> go then (u', s2)
                          else readdir_mounts dir dm dvn sls cb (seen @ [child]) u' s2)))"

definition vfs_readdir :: "bytes \<Rightarrow> 'u readdir_cb \<Rightarrow> 'u \<Rightarrow> ('p, 'u) vfs \<Rightarrow> bool \<times> 'u \<times> ('p, 'u) vfs" where
  "vfs_readdir abs_path cb u v =
     (case normalize_mount_path abs_path VFS_MAX_MOUNT_PATH of
        None \<Rightarrow> (False, u, v)
      | Some path \<Rightarrow>
        let (r, v1) = vfs_resolve path v in
        (case r of
           None \<Rightarrow> (False, u, v1)
         | Some (m, dir) \<Rightarrow>
           if vn_type dir \<noteq> VNODE_DIR then (False, u, v1)
           else (case op_readdir (m_ops m) of
                   None \<Rightarrow> (False, u, v1)
                 | Some rd \<Rightarrow>
                   let (go, u1, s2) = rd (m_private m) dir cb u (ks v1) in
                   if \<not> go then (True, u1, v1\<lparr>ks := s2\<rparr>)
                   else let (u2, s3) = readdir_mounts path m dir (g_mounts v1) cb [] u1 s2 in (True, u2, v1\<lparr>ks := s3\<rparr>))))"

section \<open>Changing the tree\<close>

text \<open>The writable directory that a path is to be created or removed in, and the name.\<close>

definition resolve_parent :: "bytes \<Rightarrow> ('p, 'u) vfs \<Rightarrow> (('p, 'u) vfs_mount \<times> vnode \<times> bytes) option \<times> ('p, 'u) vfs" where
  "resolve_parent abs_path v =
     (case split_parent_child abs_path 256 256 of
        None \<Rightarrow> (None, v)
      | Some (par_path, name) \<Rightarrow>
        let (r, v1) = vfs_resolve par_path v in
        (case r of
           None \<Rightarrow> (None, v1)
         | Some (m, par) \<Rightarrow>
           if m_readonly m then (None, v1)
           else if vn_type par \<noteq> VNODE_DIR then (None, v1)
           else (Some (m, par, name), v1)))"

text \<open>On success the driver hands out the new vnode, which belongs to the mount of its directory.\<close>

definition vfs_create :: "bytes \<Rightarrow> nat \<Rightarrow> ('p, 'u) vfs \<Rightarrow> (('p, 'u) vfs_mount \<times> vnode) option \<times> ('p, 'u) vfs" where
  "vfs_create abs_path mode v =
     (let (r, v1) = resolve_parent abs_path v in
      case r of
        None \<Rightarrow> (None, v1)
      | Some (m, par, name) \<Rightarrow>
        (case op_create (m_ops m) of
           None \<Rightarrow> (None, v1)
         | Some create \<Rightarrow> let (vn, s2) = create (m_private m) par name mode (ks v1) in (map_option (Pair m) vn, v1\<lparr>ks := s2\<rparr>)))"

definition vfs_mkdir :: "bytes \<Rightarrow> nat \<Rightarrow> ('p, 'u) vfs \<Rightarrow> bool \<times> ('p, 'u) vfs" where
  "vfs_mkdir abs_path mode v =
     (let (r, v1) = resolve_parent abs_path v in
      case r of
        None \<Rightarrow> (False, v1)
      | Some (m, par, name) \<Rightarrow>
        (case op_mkdir (m_ops m) of
           None \<Rightarrow> (False, v1)
         | Some mkdir \<Rightarrow> let (ok, s2) = mkdir (m_private m) par name mode (ks v1) in (ok, v1\<lparr>ks := s2\<rparr>)))"

definition vfs_unlink :: "bytes \<Rightarrow> ('p, 'u) vfs \<Rightarrow> bool \<times> ('p, 'u) vfs" where
  "vfs_unlink abs_path v =
     (let (r, v1) = resolve_parent abs_path v in
      case r of
        None \<Rightarrow> (False, v1)
      | Some (m, par, name) \<Rightarrow>
        (case op_unlink (m_ops m) of
           None \<Rightarrow> (False, v1)
         | Some unlink \<Rightarrow> let (ok, s2) = unlink (m_private m) par name (ks v1) in (ok, v1\<lparr>ks := s2\<rparr>)))"

text \<open>The reference count of a vnode; None means that the vnode is released and freed.\<close>

definition vfs_vnode_get :: "vnode \<Rightarrow> vnode" where
  "vfs_vnode_get vn = vn\<lparr>vn_refcount := ((if vn_refcount vn = 0 then 1 else vn_refcount vn) + 1) mod 2 ^ 32\<rparr>"

definition vfs_vnode_put :: "vnode \<Rightarrow> vnode option" where
  "vfs_vnode_put vn = (if vn_refcount vn > 1 then Some (vn\<lparr>vn_refcount := vn_refcount vn - 1\<rparr>) else None)"

section \<open>Normal paths\<close>

text \<open>A normal path is absolute and does not end in a slash unless it is the root.\<close>

definition normal_path :: "bytes \<Rightarrow> bool" where
  "normal_path p \<longleftrightarrow> p \<noteq> [] \<and> hd p = slash \<and> (p = [slash] \<or> last p \<noteq> slash)"

lemma trim_slashes_le: "trim_slashes p n \<le> n"
  by (induction p n rule: trim_slashes.induct) (subst trim_slashes.simps, auto)

lemma trim_slashes_pos: "0 < n \<Longrightarrow> 0 < trim_slashes p n"
  by (induction p n rule: trim_slashes.induct) (subst trim_slashes.simps, auto)

lemma trim_slashes_stop: "1 < trim_slashes p n \<Longrightarrow> p ! (trim_slashes p n - 1) \<noteq> slash"
proof (induction p n rule: trim_slashes.induct)
  case (1 p n)
  then show ?case by (cases "1 < n \<and> p ! (n - 1) = slash") (auto simp: trim_slashes.simps [of p n])
qed

lemma trim_slashes_dropped: "trim_slashes p n \<le> i \<Longrightarrow> i < n \<Longrightarrow> p ! i = slash"
proof (induction p n rule: trim_slashes.induct)
  case (1 p n)
  then show ?case by (cases "1 < n \<and> p ! (n - 1) = slash"; cases "i = n - 1") (auto simp: trim_slashes.simps [of p n])
qed

lemma trim_slashes_normal: "n \<le> 1 \<or> p ! (n - 1) \<noteq> slash \<Longrightarrow> trim_slashes p n = n"
  by (subst trim_slashes.simps) auto

lemma normalize_normal:
  assumes "normalize_mount_path p cap = Some q"
  shows "normal_path q" "length q < cap" "\<exists>k. p = q @ replicate k slash"
proof -
  let ?n = "trim_slashes p (length p)"
  have p: "p \<noteq> []" "hd p = slash" "q = take ?n p" "?n < cap"
    using assms by (auto simp: normalize_mount_path_def Let_def split: if_splits)
  have n: "0 < ?n" "?n \<le> length p" using p(1) trim_slashes_le trim_slashes_pos by (auto simp: length_greater_0_conv)
  then have q: "q \<noteq> []" "hd q = slash" "length q = ?n" using p by (auto simp: hd_conv_nth)
  have "last q = p ! (?n - 1)" using q(1,3) p(3) n by (simp add: last_conv_nth)
  then have "q = [slash] \<or> last q \<noteq> slash"
    using trim_slashes_stop [of p "length p"] q n by (cases "?n = 1") (auto simp: length_Suc_conv)
  then show "normal_path q" using q by (simp add: normal_path_def)
  show "length q < cap" using q(3) p(4) by simp
  have "drop ?n p = replicate (length p - ?n) slash"
    by (rule nth_equalityI) (use trim_slashes_dropped [of p "length p"] in auto)
  then show "\<exists>k. p = q @ replicate k slash" using p(3) by (metis append_take_drop_id)
qed

lemma normalize_id: "normal_path p \<Longrightarrow> length p < cap \<Longrightarrow> normalize_mount_path p cap = Some p"
proof -
  assume n: "normal_path p" "length p < cap"
  then have "length p \<le> 1 \<or> p ! (length p - 1) \<noteq> slash" by (auto simp: normal_path_def last_conv_nth)
  then have "trim_slashes p (length p) = length p" by (rule trim_slashes_normal)
  moreover have "2 \<le> cap" using n by (cases p) (auto simp: normal_path_def)
  ultimately show ?thesis using n by (simp add: normalize_mount_path_def normal_path_def)
qed

section \<open>Splitting a path\<close>

lemma last_slash_facts:
  "last_slash p i \<le> i" "last_slash p i = 0 \<or> p ! last_slash p i = slash" "last_slash p i < j \<Longrightarrow> j \<le> i \<Longrightarrow> p ! j \<noteq> slash"
proof -
  show "last_slash p i \<le> i" by (induction i) auto
  show "last_slash p i = 0 \<or> p ! last_slash p i = slash" by (induction i) auto
  show "last_slash p i < j \<Longrightarrow> j \<le> i \<Longrightarrow> p ! j \<noteq> slash" by (induction i) (auto simp: le_Suc_eq split: if_splits)
qed

lemma last_slash_unique:
  assumes "k \<le> i" "k = 0 \<or> p ! k = slash" "\<And>j. k < j \<Longrightarrow> j \<le> i \<Longrightarrow> p ! j \<noteq> slash"
  shows "last_slash p i = k"
  using assms last_slash_facts [of p i] by (metis linorder_neqE_nat not_less_zero)

lemma trim_slashes_unique:
  assumes "0 < k" "k \<le> n" "k = 1 \<or> p ! (k - 1) \<noteq> slash" "\<And>j. k \<le> j \<Longrightarrow> j < n \<Longrightarrow> p ! j = slash"
  shows "trim_slashes p n = k"
proof (rule ccontr)
  let ?t = "trim_slashes p n"
  have t: "?t \<le> n" "0 < ?t" using trim_slashes_le trim_slashes_pos [of n p] assms by auto
  assume "?t \<noteq> k"
  then consider "?t < k" | "k < ?t" by linarith
  then show False
  proof cases
    case 1
    then have "p ! (k - 1) = slash" using assms(1,2) by (intro trim_slashes_dropped [of p n]) auto
    then show False using assms(3) 1 t by auto
  next
    case 2
    then have "p ! (?t - 1) \<noteq> slash" using assms(1) by (intro trim_slashes_stop) auto
    moreover have "k \<le> ?t - 1" "?t - 1 < n" using 2 t by linarith+
    ultimately show False using assms(4) by blast
  qed
qed

definition good_name :: "bytes \<Rightarrow> bool" where
  "good_name n \<longleftrightarrow> n \<noteq> [] \<and> slash \<notin> set n \<and> length n < 256 \<and> n \<noteq> [0x2E] \<and> n \<noteq> [0x2E, 0x2E]"

lemma split_of_parts:
  assumes p: "p = d @ slash # name @ replicate k slash" and d: "d = [] \<or> hd d = slash" "length d < 256" and n: "good_name name"
  shows "split_parent_child p 256 256 = Some (if d = [] then [slash] else d, name)"
proof -
  let ?e = "length d + 1 + length name"
  have nm: "name \<noteq> []" "slash \<notin> set name" "length name < 256" "name \<noteq> [0x2E]" "name \<noteq> [0x2E, 0x2E]" using n by (auto simp: good_name_def)
  have at: "p ! (length d + 1 + j) = name ! j" if "j < length name" for j using that p by (simp add: nth_append)
  have e: "trim_slashes p (length p) = ?e"
  proof (rule trim_slashes_unique)
    have "?e - 1 = length d + 1 + (length name - 1)" "length name - 1 < length name" using nm(1) by (cases name; simp)+
    then have "p ! (?e - 1) = last name" using at [of "length name - 1"] last_conv_nth [OF nm(1)] by metis
    then show "?e = 1 \<or> p ! (?e - 1) \<noteq> slash" using nm(2) last_in_set [OF nm(1)] by metis
    show "p ! j = slash" if "?e \<le> j" "j < length p" for j using that p by (auto simp: nth_append nth_Cons')
  qed (use p nm in auto)
  have sl: "last_slash p (?e - 1) = length d"
  proof (rule last_slash_unique)
    show "length d = 0 \<or> p ! length d = slash" using p by (simp add: nth_append)
    show "p ! j \<noteq> slash" if "length d < j" "j \<le> ?e - 1" for j
    proof -
      have "j - length d - 1 < length name" "j = length d + 1 + (j - length d - 1)" using that by auto
      then have "p ! j \<in> set name" using at [of "j - length d - 1"] by (metis nth_mem)
      then show ?thesis using nm(2) by auto
    qed
  qed simp
  have "is_abs_path p" using p d(1) by (cases d) (auto simp: is_abs_path_def)
  moreover have "p ! length d = slash" "slice (length d + 1) (length name) p = name" "take (length d) p = d"
    using p by (simp_all add: nth_append slice_def)
  ultimately show ?thesis using e sl nm d p unfolding split_parent_child_def Let_def by auto
qed

lemma parts_of_split:
  assumes "split_parent_child p 256 256 = Some (par_path, name)"
  shows "\<exists>d k. p = d @ slash # name @ replicate k slash \<and> (d = [] \<or> hd d = slash) \<and> length d < 256 \<and> good_name name \<and>
    par_path = (if d = [] then [slash] else d)"
proof -
  let ?e = "trim_slashes p (length p)"
  let ?s = "last_slash p (?e - 1)"
  have s: "is_abs_path p" "1 < ?e" "p ! ?s = slash" "?e - ?s - 1 \<noteq> 0" "?e - ?s - 1 < 256" "name = slice (?s + 1) (?e - ?s - 1) p"
    "name \<noteq> [0x2E]" "name \<noteq> [0x2E, 0x2E]" "par_path = (if ?s = 0 then [slash] else take ?s p)" "?s < 256"
    using assms unfolding split_parent_child_def Let_def by (auto split: if_splits)
  have le: "?e \<le> length p" "?s < ?e" using trim_slashes_le s(4) by auto
  have tail: "drop ?e p = replicate (length p - ?e) slash"
    by (rule nth_equalityI) (use trim_slashes_dropped [of p "length p"] in auto)
  have "drop ?s p = slash # drop (?s + 1) p" using le s(3) by (metis Cons_nth_drop_Suc Suc_eq_plus1 less_le_trans)
  moreover have "drop (?s + 1) p = name @ drop ?e p"
    unfolding s(6) slice_def using le by (metis append_take_drop_id drop_drop Suc_eq_plus1 Suc_leI diff_diff_left le_add_diff_inverse2)
  ultimately have eq: "p = take ?s p @ slash # name @ replicate (length p - ?e) slash" using tail by (metis append_take_drop_id)
  have "slash \<notin> set name"
  proof
    assume "slash \<in> set name"
    then obtain j where j: "j < ?e - ?s - 1" "p ! (?s + 1 + j) = slash" using le unfolding s(6) by (auto simp: in_set_conv_nth slice_def)
    moreover have "?s < ?s + 1 + j" "?s + 1 + j \<le> ?e - 1" using j(1) by linarith+
    ultimately show False using last_slash_facts(3) by blast
  qed
  moreover have "length name = ?e - ?s - 1" unfolding s(6) using le by simp
  ultimately have "good_name name" using s(4,5,7,8) by (auto simp: good_name_def)
  moreover have "take ?s p = [] \<or> hd (take ?s p) = slash" using s(1) by (cases p) (auto simp: is_abs_path_def take_Cons')
  moreover have "take ?s p = [] \<longleftrightarrow> ?s = 0" "length (take ?s p) < 256" using le s(10) by auto
  ultimately show ?thesis using eq s(9) by metis
qed

end
