(* ===== verification/Process.thy ===== *)
theory Process
  imports Vmm Pipe Vfs
begin

text \<open>
  Processes (\<open>src/src/core/process.c\<close>) and the state of the kernel around them: the process table, the
  run queue of the scheduler, the queue of processes that wait for a key, the pipes, and the vnodes that
  descriptors refer to. A pointer to a process or a pipe is its index in the table, a pointer to a
  vnode its address in a heap of vnodes. What a vnode's mount and its operations are, and the state of the file
  systems, are type parameters. Page tables are seen through their entries, the other memory through its bytes.
\<close>

unbundle bit_operations_syntax

abbreviation (input) PROC_MAX :: nat where "PROC_MAX \<equiv> 64"
abbreviation (input) PROC_NAME_MAX :: nat where "PROC_NAME_MAX \<equiv> 64"
abbreviation (input) PROC_MAX_FDS :: nat where "PROC_MAX_FDS \<equiv> 16"
abbreviation (input) PROC_KERNEL_STACK_PAGES :: nat where "PROC_KERNEL_STACK_PAGES \<equiv> 4"
abbreviation (input) PROC_DEFAULT_TIME_SLICE :: nat where "PROC_DEFAULT_TIME_SLICE \<equiv> 5"

section \<open>State\<close>

record process_fd =
  fe_used :: bool
  fe_is_console :: bool
  fe_console_fd :: nat
  fe_is_pipe :: bool
  fe_pipe_read :: bool
  fe_pipe_write :: bool
  fe_fd_flags :: nat
  fe_flags :: nat
  fe_description_id :: nat
  fe_vnode :: "nat option"
  fe_pipe :: "nat option"
  fe_offset :: nat

datatype proc_state = PROC_UNUSED | PROC_READY | PROC_RUNNING | PROC_BLOCKED | PROC_ZOMBIE

datatype process_resume_kind = PROC_RESUME_USER | PROC_RESUME_KERNEL

record process_context =
  c_rip :: u64
  c_rsp :: u64
  c_rflags :: u64
  c_rax :: u64
  c_rbx :: u64
  c_rbp :: u64
  c_rdi :: u64
  c_rsi :: u64
  c_rdx :: u64
  c_rcx :: u64
  c_r8 :: u64
  c_r9 :: u64
  c_r10 :: u64
  c_r11 :: u64
  c_r12 :: u64
  c_r13 :: u64
  c_r14 :: u64
  c_r15 :: u64

record process_kernel_context =
  kc_rsp :: u64
  kc_rip :: u64
  kc_rbx :: u64
  kc_rbp :: u64
  kc_r12 :: u64
  kc_r13 :: u64
  kc_r14 :: u64
  kc_r15 :: u64
  kc_cr3 :: u64
  kc_rflags :: u64

record process =
  p_pid :: nat
  p_ppid :: nat
  p_wait_target_pid :: nat
  p_exec_replaced_by_pid :: nat
  p_name :: bytes
  p_cwd :: bytes
  p_state :: proc_state
  p_exit_code :: int
  p_resume_kind :: process_resume_kind
  p_page_table :: "u64 option"
  p_context :: process_context
  p_kernel_context :: process_kernel_context
  p_kernel_stack_phys :: nat
  p_kernel_stack_top :: u64
  p_brk_base :: u64
  p_brk_current :: u64
  p_ticks_remaining :: nat
  p_stdin_pending :: bytes
  p_stdin_pending_pos :: nat
  p_tty_raw_mode :: bool
  p_fds :: "process_fd list"
  p_next :: "nat option"

record ('m, 'v) kernel =
  g_procs :: "process list"
  g_current :: "nat option"
  g_next_pid :: nat
  g_pipes :: "process_pipe list"
  g_next_fd_description_id :: nat
  g_run_queue_head :: "nat option"
  g_run_queue_tail :: "nat option"
  g_kernel_wait_ctx :: "process_kernel_context option"
  g_kernel_wait_active :: bool
  g_idle_hotplug_ticks :: nat
  g_wait_head :: "nat option"
  g_wait_tail :: "nat option"
  shift_pressed :: bool
  ctrl_pressed :: bool
  e0_prefix :: bool
  g_keybuf :: "int list"
  g_keybuf_head :: nat
  g_keybuf_tail :: nat
  g_keybuf_count :: nat
  kernel_rsp_current :: u64
  tss_rsp0 :: u64
  mmu :: vmm_state
  ram :: "u64 \<Rightarrow> 8 word"
  vnodes :: "nat \<Rightarrow> ('m \<times> vnode) option"
  vnode_next :: nat
  fsys :: 'v
  console_out :: bytes
  kmem :: "nat \<Rightarrow> bool"
  kmem_calls :: nat

definition zero_fd :: process_fd where
  "zero_fd = \<lparr>fe_used = False, fe_is_console = False, fe_console_fd = 0, fe_is_pipe = False, fe_pipe_read = False,
     fe_pipe_write = False, fe_fd_flags = 0, fe_flags = 0, fe_description_id = 0, fe_vnode = None, fe_pipe = None, fe_offset = 0\<rparr>"

definition zero_context :: process_context where
  "zero_context = \<lparr>c_rip = 0, c_rsp = 0, c_rflags = 0, c_rax = 0, c_rbx = 0, c_rbp = 0, c_rdi = 0, c_rsi = 0, c_rdx = 0,
     c_rcx = 0, c_r8 = 0, c_r9 = 0, c_r10 = 0, c_r11 = 0, c_r12 = 0, c_r13 = 0, c_r14 = 0, c_r15 = 0\<rparr>"

definition zero_kernel_context :: process_kernel_context where
  "zero_kernel_context = \<lparr>kc_rsp = 0, kc_rip = 0, kc_rbx = 0, kc_rbp = 0, kc_r12 = 0, kc_r13 = 0, kc_r14 = 0, kc_r15 = 0,
     kc_cr3 = 0, kc_rflags = 0\<rparr>"

definition zero_process :: process where
  "zero_process = \<lparr>p_pid = 0, p_ppid = 0, p_wait_target_pid = 0, p_exec_replaced_by_pid = 0, p_name = [], p_cwd = [],
     p_state = PROC_UNUSED, p_exit_code = 0, p_resume_kind = PROC_RESUME_USER, p_page_table = None, p_context = zero_context,
     p_kernel_context = zero_kernel_context, p_kernel_stack_phys = 0, p_kernel_stack_top = 0, p_brk_base = 0, p_brk_current = 0,
     p_ticks_remaining = 0, p_stdin_pending = [], p_stdin_pending_pos = 0, p_tty_raw_mode = False,
     p_fds = replicate PROC_MAX_FDS zero_fd, p_next = None\<rparr>"

text \<open>The process at an index, and its update.\<close>

definition proc :: "nat \<Rightarrow> ('m, 'v) kernel \<Rightarrow> process" where
  "proc i st = g_procs st ! i"

definition upd_proc :: "nat \<Rightarrow> (process \<Rightarrow> process) \<Rightarrow> ('m, 'v) kernel \<Rightarrow> ('m, 'v) kernel" where
  "upd_proc i f st = st\<lparr>g_procs := (g_procs st)[i := f (g_procs st ! i)]\<rparr>"

definition upd_fd :: "nat \<Rightarrow> nat \<Rightarrow> (process_fd \<Rightarrow> process_fd) \<Rightarrow> ('m, 'v) kernel \<Rightarrow> ('m, 'v) kernel" where
  "upd_fd i fd f st = upd_proc i (\<lambda>p. p\<lparr>p_fds := (p_fds p)[fd := f (p_fds p ! fd)]\<rparr>) st"

definition upd_pipe :: "nat \<Rightarrow> (process_pipe \<Rightarrow> process_pipe) \<Rightarrow> ('m, 'v) kernel \<Rightarrow> ('m, 'v) kernel" where
  "upd_pipe k f st = st\<lparr>g_pipes := (g_pipes st)[k := f (g_pipes st ! k)]\<rparr>"

text \<open>Whether the kernel heap has room for an object.\<close>

definition kcalloc_ok :: "('m, 'v) kernel \<Rightarrow> bool \<times> ('m, 'v) kernel" where
  "kcalloc_ok st = (kmem st (kmem_calls st), st\<lparr>kmem_calls := kmem_calls st + 1\<rparr>)"

definition upd_pmm :: "(pmm_state \<Rightarrow> pmm_state) \<Rightarrow> ('m, 'v) kernel \<Rightarrow> ('m, 'v) kernel" where
  "upd_pmm f st = st\<lparr>mmu := (mmu st)\<lparr>vm_pmm := f (vm_pmm (mmu st))\<rparr>\<rparr>"

text \<open>\<open>memset\<close> of whole pages at a physical address to zero.\<close>

definition clear_ram :: "nat \<Rightarrow> nat \<Rightarrow> ('m, 'v) kernel \<Rightarrow> ('m, 'v) kernel" where
  "clear_ram phys len st = st\<lparr>ram := (\<lambda>a. if phys \<le> unat a \<and> unat a < phys + len then 0 else ram st a)\<rparr>"

section \<open>Descriptors and vnodes\<close>

definition vnode_put :: "nat \<Rightarrow> ('m, 'v) kernel \<Rightarrow> ('m, 'v) kernel" where
  "vnode_put a st =
     (case vnodes st a of
        None \<Rightarrow> st
      | Some (m, vn) \<Rightarrow> st\<lparr>vnodes := (vnodes st)(a := map_option (Pair m) (vfs_vnode_put vn))\<rparr>)"

definition vnode_get :: "nat \<Rightarrow> ('m, 'v) kernel \<Rightarrow> ('m, 'v) kernel" where
  "vnode_get a st =
     (case vnodes st a of
        None \<Rightarrow> st
      | Some (m, vn) \<Rightarrow> st\<lparr>vnodes := (vnodes st)(a \<mapsto> (m, vfs_vnode_get vn))\<rparr>)"

definition syscall_fd_release_resources :: "process_fd \<Rightarrow> ('m, 'v) kernel \<Rightarrow> ('m, 'v) kernel" where
  "syscall_fd_release_resources e st =
     (if \<not> fe_used e then st
      else if fe_is_pipe e \<and> fe_pipe e \<noteq> None
        then upd_pipe (the (fe_pipe e)) (pipe_release_endpoint (fe_pipe_read e) (fe_pipe_write e)) st
      else if \<not> fe_is_console e \<and> fe_vnode e \<noteq> None then vnode_put (the (fe_vnode e)) st
      else st)"

definition process_close_files :: "nat \<Rightarrow> ('m, 'v) kernel \<Rightarrow> ('m, 'v) kernel" where
  "process_close_files i st =
     fold (\<lambda>fd s. upd_fd i fd (\<lambda>_. zero_fd) (syscall_fd_release_resources (p_fds (proc i s) ! fd) s)) [0..<PROC_MAX_FDS] st"

section \<open>Operations\<close>

text \<open>The name is None for a null pointer.\<close>

definition copy_name :: "bytes option \<Rightarrow> bytes" where
  "copy_name src = take (PROC_NAME_MAX - 1) (case src of None \<Rightarrow> [0x70, 0x72, 0x6F, 0x63] | Some s \<Rightarrow> s)"

definition process_set_name :: "nat \<Rightarrow> bytes option \<Rightarrow> ('m, 'v) kernel \<Rightarrow> ('m, 'v) kernel" where
  "process_set_name i name st = upd_proc i (\<lambda>p. p\<lparr>p_name := copy_name name\<rparr>) st"

fun find_proc :: "(process \<Rightarrow> bool) \<Rightarrow> process list \<Rightarrow> nat \<Rightarrow> nat option" where
  "find_proc P [] i = None"
| "find_proc P (p # ps) i = (if P p then Some i else find_proc P ps (i + 1))"

definition process_create :: "bytes option \<Rightarrow> ('m, 'v) kernel \<Rightarrow> nat option \<times> ('m, 'v) kernel" where
  "process_create name st =
     (case find_proc (\<lambda>p. p_state p = PROC_UNUSED) (g_procs st) 0 of
        None \<Rightarrow> (None, st)
      | Some i \<Rightarrow>
        let parent_pid = (case g_current st of None \<Rightarrow> 0 | Some c \<Rightarrow> p_pid (proc c st));
            cwd = (case g_current st of None \<Rightarrow> [0x2F] | Some c \<Rightarrow> if p_cwd (proc c st) \<noteq> [] then p_cwd (proc c st) else [0x2F]);
            st1 = st\<lparr>g_next_pid := (g_next_pid st + 1) mod 2 ^ 32\<rparr>;
            st2 = upd_proc i (\<lambda>_. zero_process\<lparr>p_pid := g_next_pid st, p_ppid := parent_pid, p_name := copy_name name, p_cwd := cwd,
                    p_state := PROC_READY, p_ticks_remaining := PROC_DEFAULT_TIME_SLICE\<rparr>) st1;
            (ok, st3) = kcalloc_ok st2;
            (pt, m) = vmm_create_page_table ok (mmu st3);
            st4 = st3\<lparr>mmu := m\<rparr> in
        (case pt of
           None \<Rightarrow> (None, upd_proc i (\<lambda>_. zero_process) st4)
         | Some pml4 \<Rightarrow>
           let (stack, p) = pmm_alloc_pages PROC_KERNEL_STACK_PAGES (vm_pmm (mmu st4)); st5 = upd_pmm (\<lambda>_. p) st4 in
           if stack = 0
           then (None, upd_proc i (\<lambda>_. zero_process) (if pml4 \<noteq> 0 then upd_pmm (pmm_free (unat pml4)) st5 else st5))
           else
             let st6 = clear_ram stack (PROC_KERNEL_STACK_PAGES * PAGE_SIZE) st5 in
             (Some i, upd_proc i (\<lambda>q. q\<lparr>p_page_table := Some pml4, p_kernel_stack_phys := stack,
                p_kernel_stack_top := phys_to_virt (of_nat stack) (mmu st6) + of_nat (PROC_KERNEL_STACK_PAGES * PAGE_SIZE)\<rparr>) st6)))"

text \<open>Freeing the pages below a table; the table at level 1 holds pages, the others hold tables.\<close>

definition destroy_entry :: "(u64 \<Rightarrow> vmm_state \<Rightarrow> vmm_state) \<Rightarrow> u64 \<Rightarrow> nat \<Rightarrow> vmm_state \<Rightarrow> vmm_state" where
  "destroy_entry child t i st =
     (let e = ptes st t i in
      if e AND PAGE_PRESENT = 0 then st
      else
        let phys = PTE_GET_ADDR e in
        if phys = 0 then set_pte t i 0 st
        else
          let st1 = child phys st
          in set_pte t i 0 (st1\<lparr>vm_pmm := pmm_free (unat phys) (vm_pmm st1)\<rparr>))"

primrec destroy_pt_level :: "nat \<Rightarrow> u64 \<Rightarrow> vmm_state \<Rightarrow> vmm_state" where
  "destroy_pt_level 0 t st = st"
| "destroy_pt_level (Suc l) t st =
     (if phys_to_virt t st = 0 then st
      else fold (destroy_entry (\<lambda>c s. if l = 0 then s else destroy_pt_level l c s) t) [0..<512] st)"

definition destroy_user_half :: "u64 \<Rightarrow> vmm_state \<Rightarrow> vmm_state" where
  "destroy_user_half pml4 st = fold (destroy_entry (destroy_pt_level 3) pml4) [0..<256] st"

definition free_address_space :: "nat \<Rightarrow> ('m, 'v) kernel \<Rightarrow> ('m, 'v) kernel" where
  "free_address_space i st =
     (case p_page_table (proc i st) of
        None \<Rightarrow> st
      | Some pml4 \<Rightarrow>
        let st1 = st\<lparr>mmu := destroy_user_half pml4 (mmu st)\<rparr>
        in if pml4 \<noteq> 0 then upd_pmm (pmm_free (unat pml4)) st1 else st1)"

definition process_destroy :: "nat \<Rightarrow> ('m, 'v) kernel \<Rightarrow> ('m, 'v) kernel" where
  "process_destroy i st =
     (if p_state (proc i st) = PROC_UNUSED then st
      else
        let st1 = (if g_current st = Some i then st\<lparr>g_current := None\<rparr> else st);
            st2 = process_close_files i (free_address_space i st1);
            st3 = (if p_kernel_stack_phys (proc i st2) \<noteq> 0
                   then upd_pmm (pmm_free_pages (p_kernel_stack_phys (proc i st2)) PROC_KERNEL_STACK_PAGES) st2 else st2)
        in upd_proc i (\<lambda>_. zero_process) st3)"

definition process_current :: "('m, 'v) kernel \<Rightarrow> nat option" where
  "process_current st = g_current st"

definition process_by_pid :: "nat \<Rightarrow> ('m, 'v) kernel \<Rightarrow> nat option" where
  "process_by_pid pid st = find_proc (\<lambda>p. p_state p \<noteq> PROC_UNUSED \<and> p_pid p = pid) (g_procs st) 0"

fun first_child_loop :: "nat \<Rightarrow> bool \<Rightarrow> process list \<Rightarrow> nat \<Rightarrow> nat option \<Rightarrow> nat option" where
  "first_child_loop ppid prefer_zombie [] i first = first"
| "first_child_loop ppid prefer_zombie (p # ps) i first =
     (if p_state p = PROC_UNUSED \<or> p_ppid p \<noteq> ppid then first_child_loop ppid prefer_zombie ps (i + 1) first
      else if prefer_zombie \<and> p_state p = PROC_ZOMBIE then Some i
      else first_child_loop ppid prefer_zombie ps (i + 1) (if first = None then Some i else first))"

definition process_first_child :: "nat \<Rightarrow> bool \<Rightarrow> ('m, 'v) kernel \<Rightarrow> nat option" where
  "process_first_child ppid prefer_zombie st =
     (if ppid = 0 then None else first_child_loop ppid prefer_zombie (g_procs st) 0 None)"

definition process_set_current :: "nat option \<Rightarrow> ('m, 'v) kernel \<Rightarrow> ('m, 'v) kernel" where
  "process_set_current p st = st\<lparr>g_current := p\<rparr>"

definition process_reap_zombies :: "('m, 'v) kernel \<Rightarrow> ('m, 'v) kernel" where
  "process_reap_zombies st =
     fold (\<lambda>i s.
       if g_current s = Some i \<or> p_state (proc i s) \<noteq> PROC_ZOMBIE then s
       else if p_ppid (proc i s) \<noteq> 0 \<and> process_by_pid (p_ppid (proc i s)) s \<noteq> None then s
       else process_destroy i s) [0..<length (g_procs st)] st"

definition process_has_blocked :: "('m, 'v) kernel \<Rightarrow> bool" where
  "process_has_blocked st = (\<exists>p \<in> set (g_procs st). p_state p = PROC_BLOCKED)"

text \<open>Mapping a run of pages; on failure the pages mapped so far are unmapped and the run is given back.\<close>

fun map_run :: "u64 \<Rightarrow> (nat \<Rightarrow> u64) \<Rightarrow> (nat \<Rightarrow> u64) \<Rightarrow> u64 \<Rightarrow> nat list \<Rightarrow> nat list \<Rightarrow> vmm_state \<Rightarrow> bool \<times> vmm_state" where
  "map_run pt virt phys flags done [] st = (True, st)"
| "map_run pt virt phys flags done (i # is) st =
     (let (ok, st1) = vmm_map_page (Some pt) (virt i) (phys i) flags st in
      if ok then map_run pt virt phys flags (done @ [i]) is st1
      else (False, fold (\<lambda>j s. vmm_unmap_page (Some pt) (virt j) s) done st1))"

definition process_map_user_stack :: "nat \<Rightarrow> u64 \<Rightarrow> nat \<Rightarrow> ('m, 'v) kernel \<Rightarrow> bool \<times> ('m, 'v) kernel" where
  "process_map_user_stack i stack_top page_count st =
     (case p_page_table (proc i st) of
        None \<Rightarrow> (False, st)
      | Some pt \<Rightarrow>
        if page_count = 0 then (False, st)
        else
          let (stack_phys, p) = pmm_alloc_pages page_count (vm_pmm (mmu st)); st1 = upd_pmm (\<lambda>_. p) st in
          if stack_phys = 0 then (False, st1)
          else
            let st2 = clear_ram stack_phys (page_count * PAGE_SIZE) st1;
                (ok, m) = map_run pt (\<lambda>j. stack_top - of_nat ((page_count - j) * PAGE_SIZE)) (\<lambda>j. of_nat (stack_phys + j * PAGE_SIZE))
                            (PAGE_PRESENT OR PAGE_USER OR PAGE_WRITE) [] [0..<page_count] (mmu st2);
                st3 = st2\<lparr>mmu := m\<rparr>
            in if ok then (True, st3) else (False, upd_pmm (pmm_free_pages stack_phys page_count) st3))"

section \<open>The process table\<close>

text \<open>Destroying a process clears its entry of the table and no other.\<close>

lemma release_procs [simp]: "g_procs (syscall_fd_release_resources e st) = g_procs st"
  by (simp add: syscall_fd_release_resources_def upd_pipe_def vnode_put_def split: option.split prod.split)

lemma close_files_procs: "\<exists>p. g_procs (process_close_files i st) = (g_procs st)[i := p]"
proof -
  have "\<exists>p. g_procs (fold (\<lambda>fd s. upd_fd i fd (\<lambda>_. zero_fd) (syscall_fd_release_resources (p_fds (proc i s) ! fd) s)) xs st) = (g_procs st)[i := p]"
    for xs and st :: "('m, 'v) kernel"
  proof (induction xs arbitrary: st)
    case Nil
    show ?case by (auto intro: exI [of _ "g_procs st ! i"])
  next
    case (Cons x xs)
    obtain p where "g_procs (fold (\<lambda>fd s. upd_fd i fd (\<lambda>_. zero_fd) (syscall_fd_release_resources (p_fds (proc i s) ! fd) s)) (x # xs) st) =
        (g_procs (upd_fd i x (\<lambda>_. zero_fd) (syscall_fd_release_resources (p_fds (proc i st) ! x) st)))[i := p]"
      using Cons [of "upd_fd i x (\<lambda>_. zero_fd) (syscall_fd_release_resources (p_fds (proc i st) ! x) st)"] by auto
    then show ?case by (auto simp: upd_fd_def upd_proc_def)
  qed
  then show ?thesis by (simp add: process_close_files_def)
qed

lemma free_space_procs [simp]: "g_procs (free_address_space i st) = g_procs st"
  by (simp add: free_address_space_def upd_pmm_def Let_def split: option.split)

lemma destroy_procs:
  "g_procs (process_destroy i st) = (if p_state (proc i st) = PROC_UNUSED then g_procs st else (g_procs st)[i := zero_process])"
proof (cases "p_state (proc i st) = PROC_UNUSED")
  case False
  define st2 where "st2 = free_address_space i (if g_current st = Some i then st\<lparr>g_current := None\<rparr> else st)"
  have "g_procs st2 = g_procs st" by (simp add: st2_def)
  moreover obtain p where "g_procs (process_close_files i st2) = (g_procs st2)[i := p]" using close_files_procs by blast
  moreover have "g_procs (process_destroy i st) = (g_procs (process_close_files i st2))[i := zero_process]"
    using False unfolding process_destroy_def Let_def st2_def [symmetric] by (simp add: upd_proc_def upd_pmm_def)
  ultimately show ?thesis using False by simp
qed (simp add: process_destroy_def)

definition live_procs :: "('m, 'v) kernel \<Rightarrow> nat" where
  "live_procs st = length (filter (\<lambda>p. p_state p \<noteq> PROC_UNUSED) (g_procs st))"

lemma filter_update_less:
  "i < length xs \<Longrightarrow> P (xs ! i) \<Longrightarrow> \<not> P y \<Longrightarrow> length (filter P (xs[i := y])) < length (filter P xs)"
proof (induction xs arbitrary: i)
  case (Cons x xs)
  then show ?case by (cases i) auto
qed simp

lemma destroy_live:
  assumes "i < length (g_procs st)" "p_state (proc i st) \<noteq> PROC_UNUSED"
  shows "live_procs (process_destroy i st) < live_procs st"
  using assms filter_update_less [of i "g_procs st" "\<lambda>p. p_state p \<noteq> PROC_UNUSED" zero_process]
  by (simp add: live_procs_def destroy_procs proc_def zero_process_def)

lemma upd_proc_live: "(\<And>p. p_state (f p) = p_state p) \<Longrightarrow> live_procs (upd_proc i f st) = live_procs st"
proof -
  assume f: "\<And>p. p_state (f p) = p_state p"
  have "map p_state (g_procs (upd_proc i f st)) = map p_state (g_procs st)"
  proof (cases "i < length (g_procs st)")
    case True
    then have "p_state (f (g_procs st ! i)) = map p_state (g_procs st) ! i" by (simp add: f)
    then have "map p_state ((g_procs st)[i := f (g_procs st ! i)]) = map p_state (g_procs st)" by (simp only: map_update list_update_id)
    then show ?thesis by (simp add: upd_proc_def)
  qed (simp add: upd_proc_def list_update_beyond)
  moreover have "live_procs s = length (filter (\<lambda>x. x \<noteq> PROC_UNUSED) (map p_state (g_procs s)))" for s :: "('a, 'b) kernel"
    by (simp add: live_procs_def filter_map comp_def)
  ultimately show ?thesis by metis
qed

lemma find_proc_less: "find_proc P ps n = Some c \<Longrightarrow> n \<le> c \<and> c - n < length ps \<and> P (ps ! (c - n))"
proof (induction ps arbitrary: n)
  case (Cons p ps)
  show ?case
  proof (cases "P p")
    case False
    then have "find_proc P ps (n + 1) = Some c" using Cons.prems by simp
    from Cons.IH [OF this] show ?thesis by (auto simp: nth_Cons')
  qed (use Cons.prems in auto)
qed simp

lemma by_pid_less: "process_by_pid pid st = Some c \<Longrightarrow> c < length (g_procs st) \<and> p_state (proc c st) \<noteq> PROC_UNUSED \<and> p_pid (proc c st) = pid"
  using find_proc_less [of _ "g_procs st" 0 c] by (auto simp: process_by_pid_def proc_def)

lemma first_child_less:
  assumes "first_child_loop ppid z ps n first = Some c"
  shows "first = Some c \<or> n \<le> c \<and> c - n < length ps \<and> p_state (ps ! (c - n)) \<noteq> PROC_UNUSED \<and> p_ppid (ps ! (c - n)) = ppid"
  using assms
proof (induction ps arbitrary: n first)
  case (Cons p ps)
  have step: "first' = Some c \<or> n \<le> c \<and> c - n < length (p # ps) \<and> p_state ((p # ps) ! (c - n)) \<noteq> PROC_UNUSED \<and> p_ppid ((p # ps) ! (c - n)) = ppid"
    if "first_child_loop ppid z ps (n + 1) first' = Some c" for first'
    using Cons.IH [OF that] by (auto simp: nth_Cons')
  show ?case
    using Cons.prems step [of first] step [of "if first = None then Some n else first"] by (auto split: if_splits)
qed simp

lemma child_less: "process_first_child ppid z st = Some c \<Longrightarrow> c < length (g_procs st) \<and> p_state (proc c st) \<noteq> PROC_UNUSED \<and> p_ppid (proc c st) = ppid"
  using first_child_less [of ppid z "g_procs st" 0 None c] by (auto simp: process_first_child_def proc_def split: if_splits)

end
