(* ===== verification/Sched.thy ===== *)
theory Sched
  imports Process
begin

text \<open>
  The scheduler (\<open>src/src/core/scheduler.c\<close>) and the keyboard (\<open>src/src/core/keyboard.c\<close>), which share the link
  field of a process: the run queue and the queue of processes that wait for a key. A function that does not
  return says in its result what runs next. While the scheduler idles the keyboard may deliver scancodes; \<open>keys\<close> lists
  them for each time it halts.
\<close>

unbundle bit_operations_syntax

abbreviation (input) SCHED_DEFAULT_TIME_SLICE :: nat where "SCHED_DEFAULT_TIME_SLICE \<equiv> 5"
abbreviation (input) SCHED_IDLE_HOTPLUG_POLL_TICKS :: nat where "SCHED_IDLE_HOTPLUG_POLL_TICKS \<equiv> 10"
abbreviation (input) KEYBOARD_BUFFER_SIZE :: nat where "KEYBOARD_BUFFER_SIZE \<equiv> 256"

section \<open>The run queue\<close>

definition scheduler_take_next :: "('m, 'v) kernel \<Rightarrow> nat option \<times> ('m, 'v) kernel" where
  "scheduler_take_next st =
     (case g_run_queue_head st of
        None \<Rightarrow> (None, st)
      | Some n \<Rightarrow>
        let h = p_next (proc n st);
            st1 = st\<lparr>g_run_queue_head := h, g_run_queue_tail := (if h = None then None else g_run_queue_tail st)\<rparr>
        in (Some n, upd_proc n (\<lambda>p. p\<lparr>p_next := None\<rparr>) st1))"

definition scheduler_reset_timeslice :: "nat \<Rightarrow> ('m, 'v) kernel \<Rightarrow> ('m, 'v) kernel" where
  "scheduler_reset_timeslice i st = upd_proc i (\<lambda>p. p\<lparr>p_ticks_remaining := SCHED_DEFAULT_TIME_SLICE\<rparr>) st"

definition scheduler_add :: "nat \<Rightarrow> ('m, 'v) kernel \<Rightarrow> ('m, 'v) kernel" where
  "scheduler_add i st =
     (if p_state (proc i st) = PROC_UNUSED \<or> p_state (proc i st) = PROC_ZOMBIE then st
      else
        let st1 = upd_proc i (\<lambda>p. p\<lparr>p_state := PROC_READY, p_next := None\<rparr>) st;
            st2 = (case g_run_queue_tail st1 of
                     None \<Rightarrow> st1\<lparr>g_run_queue_head := Some i\<rparr>
                   | Some t \<Rightarrow> upd_proc t (\<lambda>p. p\<lparr>p_next := Some i\<rparr>) st1)
        in st2\<lparr>g_run_queue_tail := Some i\<rparr>)"

record syscall_frame =
  sf_syscall_num :: u64
  sf_rdi :: u64
  sf_rsi :: u64
  sf_rdx :: u64
  sf_r10 :: u64
  sf_r8 :: u64
  sf_r9 :: u64
  sf_r15 :: u64
  sf_r14 :: u64
  sf_r13 :: u64
  sf_r12 :: u64
  sf_rbx :: u64
  sf_rbp :: u64
  sf_user_rip :: u64
  sf_user_rflags :: u64
  sf_user_rsp :: u64

record interrupt_frame =
  if_r15 :: u64
  if_r14 :: u64
  if_r13 :: u64
  if_r12 :: u64
  if_r11 :: u64
  if_r10 :: u64
  if_r9 :: u64
  if_r8 :: u64
  if_rbp :: u64
  if_rdi :: u64
  if_rsi :: u64
  if_rdx :: u64
  if_rcx :: u64
  if_rbx :: u64
  if_rax :: u64
  if_rip :: u64
  if_cs :: u64
  if_rflags :: u64
  if_rsp :: u64
  if_ss :: u64

definition scheduler_save_syscall_context :: "nat \<Rightarrow> syscall_frame \<Rightarrow> int \<Rightarrow> ('m, 'v) kernel \<Rightarrow> ('m, 'v) kernel" where
  "scheduler_save_syscall_context i f return_value st =
     upd_proc i (\<lambda>p. p\<lparr>p_context := \<lparr>c_rip = sf_user_rip f, c_rsp = sf_user_rsp f, c_rflags = sf_user_rflags f,
       c_rax = word_of_int return_value, c_rbx = sf_rbx f, c_rbp = sf_rbp f, c_rdi = sf_rdi f, c_rsi = sf_rsi f, c_rdx = sf_rdx f,
       c_rcx = 0, c_r8 = sf_r8 f, c_r9 = sf_r9 f, c_r10 = sf_r10 f, c_r11 = 0, c_r12 = sf_r12 f, c_r13 = sf_r13 f,
       c_r14 = sf_r14 f, c_r15 = sf_r15 f\<rparr>, p_resume_kind := PROC_RESUME_USER\<rparr>) st"

definition scheduler_save_interrupt_context :: "nat \<Rightarrow> interrupt_frame \<Rightarrow> ('m, 'v) kernel \<Rightarrow> ('m, 'v) kernel" where
  "scheduler_save_interrupt_context i f st =
     upd_proc i (\<lambda>p. p\<lparr>p_context := \<lparr>c_rip = if_rip f, c_rsp = if_rsp f, c_rflags = if_rflags f, c_rax = if_rax f,
       c_rbx = if_rbx f, c_rbp = if_rbp f, c_rdi = if_rdi f, c_rsi = if_rsi f, c_rdx = if_rdx f, c_rcx = if_rcx f, c_r8 = if_r8 f,
       c_r9 = if_r9 f, c_r10 = if_r10 f, c_r11 = if_r11 f, c_r12 = if_r12 f, c_r13 = if_r13 f, c_r14 = if_r14 f,
       c_r15 = if_r15 f\<rparr>, p_resume_kind := PROC_RESUME_USER\<rparr>) st"

section \<open>The keyboard\<close>

definition scancode_to_ascii :: "nat list" where
  "scancode_to_ascii = [0, 27, 0x31, 0x32, 0x33, 0x34, 0x35, 0x36, 0x37, 0x38, 0x39, 0x30, 0x2D, 0x3D, 8,
     9, 0x71, 0x77, 0x65, 0x72, 0x74, 0x79, 0x75, 0x69, 0x6F, 0x70, 0x5B, 0x5D, 10,
     0, 0x61, 0x73, 0x64, 0x66, 0x67, 0x68, 0x6A, 0x6B, 0x6C, 0x3B, 0x27, 0x60,
     0, 0x5C, 0x7A, 0x78, 0x63, 0x76, 0x62, 0x6E, 0x6D, 0x2C, 0x2E, 0x2F, 0, 0x2A, 0, 0x20]"

definition scancode_to_ascii_shift :: "nat list" where
  "scancode_to_ascii_shift = [0, 27, 0x21, 0x40, 0x23, 0x24, 0x25, 0x5E, 0x26, 0x2A, 0x28, 0x29, 0x5F, 0x2B, 8,
     9, 0x51, 0x57, 0x45, 0x52, 0x54, 0x59, 0x55, 0x49, 0x4F, 0x50, 0x7B, 0x7D, 10,
     0, 0x41, 0x53, 0x44, 0x46, 0x47, 0x48, 0x4A, 0x4B, 0x4C, 0x3A, 0x22, 0x7E,
     0, 0x7C, 0x5A, 0x58, 0x43, 0x56, 0x42, 0x4E, 0x4D, 0x3C, 0x3E, 0x3F, 0, 0x2A, 0, 0x20]"

definition maybe_ctrlify :: "bool \<Rightarrow> nat \<Rightarrow> nat" where
  "maybe_ctrlify ctrl c =
     (if \<not> ctrl then c
      else if 0x61 \<le> c \<and> c \<le> 0x7A \<or> 0x41 \<le> c \<and> c \<le> 0x5A then c mod 32 else c)"

definition keybuf_push :: "int \<Rightarrow> ('m, 'v) kernel \<Rightarrow> ('m, 'v) kernel" where
  "keybuf_push ch st =
     (if g_keybuf_count st \<ge> KEYBOARD_BUFFER_SIZE then st
      else st\<lparr>g_keybuf := (g_keybuf st)[g_keybuf_tail st := ch], g_keybuf_tail := (g_keybuf_tail st + 1) mod KEYBOARD_BUFFER_SIZE,
             g_keybuf_count := g_keybuf_count st + 1\<rparr>)"

definition keybuf_pop :: "('m, 'v) kernel \<Rightarrow> int \<times> ('m, 'v) kernel" where
  "keybuf_pop st =
     (if g_keybuf_count st = 0 then (-1, st)
      else (g_keybuf st ! g_keybuf_head st,
            st\<lparr>g_keybuf_head := (g_keybuf_head st + 1) mod KEYBOARD_BUFFER_SIZE, g_keybuf_count := g_keybuf_count st - 1\<rparr>))"

definition keyboard_wait_pop :: "('m, 'v) kernel \<Rightarrow> nat option \<times> ('m, 'v) kernel" where
  "keyboard_wait_pop st =
     (case g_wait_head st of
        None \<Rightarrow> (None, st)
      | Some n \<Rightarrow>
        let h = p_next (proc n st);
            st1 = st\<lparr>g_wait_head := h, g_wait_tail := (if h = None then None else g_wait_tail st)\<rparr>
        in (Some n, upd_proc n (\<lambda>p. p\<lparr>p_next := None\<rparr>) st1))"

definition keyboard_enqueue_waiter :: "nat \<Rightarrow> ('m, 'v) kernel \<Rightarrow> ('m, 'v) kernel" where
  "keyboard_enqueue_waiter i st =
     (let st1 = upd_proc i (\<lambda>p. p\<lparr>p_next := None\<rparr>) st;
          st2 = (case g_wait_tail st1 of
                   None \<Rightarrow> st1\<lparr>g_wait_head := Some i\<rparr>
                 | Some t \<Rightarrow> upd_proc t (\<lambda>p. p\<lparr>p_next := Some i\<rparr>) st1)
      in st2\<lparr>g_wait_tail := Some i\<rparr>)"

definition extended_key :: "nat \<Rightarrow> int" where
  "extended_key s =
     (if s = 0x47 then -22 else if s = 0x49 then -20 else if s = 0x4F then -23 else if s = 0x51 then -21
      else if s = 0x53 then -24 else if s = 0x48 then -16 else if s = 0x50 then -17 else if s = 0x4B then -18
      else if s = 0x4D then -19 else -1)"

definition translate_scancode :: "nat \<Rightarrow> ('m, 'v) kernel \<Rightarrow> int \<times> ('m, 'v) kernel" where
  "translate_scancode s st =
     (if s = 0xE0 then (-1, st\<lparr>e0_prefix := True\<rparr>)
      else if e0_prefix st then
        let st1 = st\<lparr>e0_prefix := False\<rparr> in
        if s = 0x1D then (-1, st1\<lparr>ctrl_pressed := True\<rparr>)
        else if s = 0x9D then (-1, st1\<lparr>ctrl_pressed := False\<rparr>)
        else if s \<ge> 0x80 then (-1, st1)
        else (extended_key s, st1)
      else if s = 0x2A \<or> s = 0x36 then (-1, st\<lparr>shift_pressed := True\<rparr>)
      else if s = 0xAA \<or> s = 0xB6 then (-1, st\<lparr>shift_pressed := False\<rparr>)
      else if s = 0x1D then (-1, st\<lparr>ctrl_pressed := True\<rparr>)
      else if s = 0x9D then (-1, st\<lparr>ctrl_pressed := False\<rparr>)
      else if s \<ge> 0x80 then (-1, st)
      else if s < length scancode_to_ascii then
        let c = (if shift_pressed st then scancode_to_ascii_shift ! s else scancode_to_ascii ! s) in
        if c \<noteq> 0 then (int (maybe_ctrlify (ctrl_pressed st) c), st) else (-1, st)
      else (-1, st))"

text \<open>One round of the handler, and the handler on the bytes that the controller has.\<close>

definition keyboard_byte :: "nat \<Rightarrow> ('m, 'v) kernel \<Rightarrow> ('m, 'v) kernel" where
  "keyboard_byte s st =
     (let (ch, st1) = translate_scancode s st in
      if ch = -1 then st1
      else
        let st2 = keybuf_push ch st1; (w, st3) = keyboard_wait_pop st2
        in (case w of None \<Rightarrow> st3 | Some p \<Rightarrow> scheduler_add p st3))"

definition keyboard_interrupt_handler :: "nat list \<Rightarrow> ('m, 'v) kernel \<Rightarrow> ('m, 'v) kernel" where
  "keyboard_interrupt_handler codes st = fold keyboard_byte codes st"

definition keyboard_getchar_nonblocking :: "('m, 'v) kernel \<Rightarrow> int \<times> ('m, 'v) kernel" where
  "keyboard_getchar_nonblocking st = keybuf_pop st"

definition keyboard_pending_count :: "('m, 'v) kernel \<Rightarrow> nat" where
  "keyboard_pending_count st = g_keybuf_count st"

section \<open>Switching\<close>

text \<open>What the processor goes on with: a process in user mode or in the kernel, the kernel code that waits in
  \<open>scheduler_run\<close>, or nothing.\<close>

datatype resumed = Enter_User nat | Enter_Kernel nat process_kernel_context | Wake_Waiter process_kernel_context | Halted

definition set_kernel_stack :: "u64 \<Rightarrow> ('m, 'v) kernel \<Rightarrow> ('m, 'v) kernel" where
  "set_kernel_stack sp st = st\<lparr>kernel_rsp_current := sp, tss_rsp0 := sp\<rparr>"

definition process_enter :: "nat \<Rightarrow> ('m, 'v) kernel \<Rightarrow> resumed \<times> ('m, 'v) kernel" where
  "process_enter i st =
     (case p_page_table (proc i st) of
        None \<Rightarrow> (Halted, st)
      | Some pml4 \<Rightarrow>
        let st1 = process_set_current (Some i) (upd_proc i (\<lambda>p. p\<lparr>p_state := PROC_RUNNING\<rparr>) st);
            st2 = set_kernel_stack (p_kernel_stack_top (proc i st1)) st1
        in (Enter_User i, st2\<lparr>mmu := (mmu st2)\<lparr>cr3 := pml4\<rparr>\<rparr>))"

partial_function (option) scheduler_wait_for_next ::
  "('v \<Rightarrow> 'v) \<Rightarrow> (nat \<Rightarrow> nat list) \<Rightarrow> nat \<Rightarrow> ('m, 'v) kernel \<Rightarrow> (nat option \<times> nat \<times> ('m, 'v) kernel) option" where
  "scheduler_wait_for_next poll keys n st =
     (case scheduler_take_next st of
        (Some p, st1) \<Rightarrow> Some (Some p, n, st1)
      | (None, st1) \<Rightarrow>
        if g_kernel_wait_active st1 \<and> \<not> process_has_blocked st1 then Some (None, n, st1)
        else
          let t = (g_idle_hotplug_ticks st1 + 1) mod 2 ^ 32 in
          if t \<ge> SCHED_IDLE_HOTPLUG_POLL_TICKS
          then scheduler_wait_for_next poll keys (n + 1)
                 (keyboard_interrupt_handler (keys n) (st1\<lparr>g_idle_hotplug_ticks := 0, fsys := poll (fsys st1)\<rparr>))
          else scheduler_wait_for_next poll keys (n + 1) (keyboard_interrupt_handler (keys n) (st1\<lparr>g_idle_hotplug_ticks := t\<rparr>)))"

definition scheduler_switch ::
  "('v \<Rightarrow> 'v) \<Rightarrow> (nat \<Rightarrow> nat list) \<Rightarrow> ('m, 'v) kernel \<Rightarrow> (resumed \<times> ('m, 'v) kernel) option" where
  "scheduler_switch poll keys st =
     (case scheduler_wait_for_next poll keys 0 st of
        None \<Rightarrow> None
      | Some (Some p, _, st1) \<Rightarrow>
        let st2 = scheduler_reset_timeslice p st1 in
        if p_resume_kind (proc p st2) = PROC_RESUME_KERNEL then
          let st3 = process_set_current (Some p) (upd_proc p (\<lambda>q. q\<lparr>p_state := PROC_RUNNING\<rparr>) st2);
              st4 = set_kernel_stack (p_kernel_stack_top (proc p st3)) st3;
              ctx = p_kernel_context (proc p st4)
          in Some (Enter_Kernel p ctx, st4\<lparr>mmu := (mmu st4)\<lparr>cr3 := kc_cr3 ctx\<rparr>\<rparr>)
        else Some (process_enter p st2)
      | Some (None, _, st1) \<Rightarrow>
        (case g_kernel_wait_ctx st1 of
           Some ctx \<Rightarrow>
             if g_kernel_wait_active st1 then
               let st2 = set_kernel_stack 0 (process_set_current None (st1\<lparr>g_kernel_wait_active := False\<rparr>))
               in Some (Wake_Waiter ctx, st2\<lparr>mmu := (mmu st2)\<lparr>cr3 := kc_cr3 ctx\<rparr>\<rparr>)
             else Some (Halted, set_kernel_stack 0 (process_set_current None (st1\<lparr>g_kernel_wait_ctx := None\<rparr>)))
         | None \<Rightarrow> Some (Halted, set_kernel_stack 0 (process_set_current None (st1\<lparr>g_kernel_wait_ctx := None\<rparr>)))))"

text \<open>The part of \<open>scheduler_run\<close> up to the switch, with the context that the checkpoint saves, and the part
  behind the checkpoint when the waiter is woken.\<close>

definition scheduler_run ::
  "('v \<Rightarrow> 'v) \<Rightarrow> (nat \<Rightarrow> nat list) \<Rightarrow> process_kernel_context \<Rightarrow> nat \<Rightarrow> ('m, 'v) kernel \<Rightarrow> (resumed \<times> ('m, 'v) kernel) option" where
  "scheduler_run poll keys ctx i st =
     (let st1 = scheduler_add i (process_reap_zombies st)
      in scheduler_switch poll keys (st1\<lparr>g_kernel_wait_active := True, g_kernel_wait_ctx := Some ctx\<rparr>))"

definition scheduler_run_woken :: "('m, 'v) kernel \<Rightarrow> ('m, 'v) kernel" where
  "scheduler_run_woken st = process_reap_zombies (st\<lparr>g_kernel_wait_ctx := None, g_kernel_wait_active := False\<rparr>)"

text \<open>The timer interrupt; the frame is None for a null or low pointer. Without a result the interrupted code goes
  on, otherwise the processor goes on with what the scheduler chose.\<close>

definition scheduler_timer_tick ::
  "('v \<Rightarrow> 'v) \<Rightarrow> (nat \<Rightarrow> nat list) \<Rightarrow> interrupt_frame option \<Rightarrow> ('m, 'v) kernel \<Rightarrow> (resumed option \<times> ('m, 'v) kernel) option" where
  "scheduler_timer_tick poll keys frame st =
     (case (frame, process_current st) of
        (Some f, Some c) \<Rightarrow>
          if if_cs f AND 3 \<noteq> 3 then Some (None, st)
          else if p_state (proc c st) \<noteq> PROC_RUNNING \<or> p_resume_kind (proc c st) \<noteq> PROC_RESUME_USER then Some (None, st)
          else
            let st1 = (if p_ticks_remaining (proc c st) > 0
                       then upd_proc c (\<lambda>p. p\<lparr>p_ticks_remaining := p_ticks_remaining p - 1\<rparr>) st else st) in
            if p_ticks_remaining (proc c st1) \<noteq> 0 then Some (None, st1)
            else map_option (map_prod Some id)
                   (scheduler_switch poll keys (scheduler_add c (scheduler_save_interrupt_context c f st1)))
      | _ \<Rightarrow> Some (None, st))"

section \<open>The queues\<close>

text \<open>The processes from a head along the links.\<close>

fun qlist :: "(nat \<Rightarrow> nat option) \<Rightarrow> nat option \<Rightarrow> nat list \<Rightarrow> bool" where
  "qlist nx h [] \<longleftrightarrow> h = None"
| "qlist nx h (x # xs) \<longleftrightarrow> h = Some x \<and> qlist nx (nx x) xs"

definition queue :: "(nat \<Rightarrow> nat option) \<Rightarrow> nat option \<Rightarrow> nat option \<Rightarrow> nat list \<Rightarrow> bool" where
  "queue nx h t xs \<longleftrightarrow> qlist nx h xs \<and> t = (if xs = [] then None else Some (last xs))"

abbreviation (input) nx :: "('m, 'v) kernel \<Rightarrow> nat \<Rightarrow> nat option" where
  "nx st \<equiv> \<lambda>i. p_next (proc i st)"

text \<open>The run queue holds ready processes, the queue of the keyboard blocked ones; no process is in both or twice,
  and only the current process runs.\<close>

definition sched_inv :: "('m, 'v) kernel \<Rightarrow> nat list \<Rightarrow> nat list \<Rightarrow> bool" where
  "sched_inv st rq wq \<longleftrightarrow> queue (nx st) (g_run_queue_head st) (g_run_queue_tail st) rq \<and>
     queue (nx st) (g_wait_head st) (g_wait_tail st) wq \<and> distinct (rq @ wq) \<and>
     (\<forall>x \<in> set rq. x < length (g_procs st) \<and> p_state (proc x st) = PROC_READY) \<and>
     (\<forall>x \<in> set wq. x < length (g_procs st) \<and> p_state (proc x st) = PROC_BLOCKED) \<and>
     (\<forall>x < length (g_procs st). p_state (proc x st) = PROC_RUNNING \<longrightarrow> g_current st = Some x)"

lemma qlist_cong: "(\<And>x. x \<in> set xs \<Longrightarrow> f x = g x) \<Longrightarrow> qlist f h xs = qlist g h xs"
  by (induction xs arbitrary: h) auto

lemma qlist_snoc:
  assumes "qlist f h xs" "xs \<noteq> []" "distinct xs" "\<And>x. x \<in> set xs \<Longrightarrow> x \<noteq> last xs \<Longrightarrow> g x = f x"
    "g (last xs) = Some i" "g i = None"
  shows "qlist g h (xs @ [i])"
  using assms
proof (induction xs arbitrary: h)
  case (Cons x xs)
  show ?case
  proof (cases xs)
    case Nil
    then show ?thesis using Cons.prems by simp
  next
    case (Cons y ys)
    have x: "x \<noteq> last (x # xs)" using Cons Cons.prems(3) by (metis distinct.simps(2) last_ConsR last_in_set list.distinct(1))
    have "qlist g (f x) (xs @ [i])"
      using Cons Cons.prems by (intro Cons.IH) (auto split: if_splits)
    moreover have "g x = f x" using Cons.prems(4) [of x] x by simp
    ultimately show ?thesis using Cons.prems(1) by simp
  qed
qed simp

lemma proc_upd [simp]:
  "i < length (g_procs st) \<Longrightarrow> proc j (upd_proc i f st) = (if j = i then f (proc i st) else proc j st)"
  by (simp add: proc_def upd_proc_def nth_list_update)

lemma upd_proc_sel [simp]:
  "length (g_procs (upd_proc i f st)) = length (g_procs st)" "g_current (upd_proc i f st) = g_current st"
  "g_run_queue_head (upd_proc i f st) = g_run_queue_head st" "g_run_queue_tail (upd_proc i f st) = g_run_queue_tail st"
  "g_wait_head (upd_proc i f st) = g_wait_head st" "g_wait_tail (upd_proc i f st) = g_wait_tail st"
  by (simp_all add: upd_proc_def)

lemma proc_sel [simp]:
  "proc i (st\<lparr>g_run_queue_head := h\<rparr>) = proc i st" "proc i (st\<lparr>g_run_queue_tail := h\<rparr>) = proc i st"
  "proc i (st\<lparr>g_wait_head := h\<rparr>) = proc i st" "proc i (st\<lparr>g_wait_tail := h\<rparr>) = proc i st"
  "proc i (st\<lparr>g_current := h\<rparr>) = proc i st" "proc i (st\<lparr>mmu := m\<rparr>) = proc i st"
  by (simp_all add: proc_def)

lemma queue_snoc:
  assumes "queue f h t xs" "distinct xs" "i \<notin> set xs" "\<And>x. x \<in> set xs \<Longrightarrow> t \<noteq> Some x \<Longrightarrow> g x = f x"
    "\<And>x. t = Some x \<Longrightarrow> g x = Some i" "g i = None" "h' = (if t = None then Some i else h)"
  shows "queue g h' (Some i) (xs @ [i])"
proof (cases "xs = []")
  case True
  then show ?thesis using assms by (simp add: queue_def)
next
  case False
  then have t: "t = Some (last xs)" using assms(1) by (simp add: queue_def)
  have "qlist g h (xs @ [i])"
    by (rule qlist_snoc) (use assms False t in \<open>auto simp: queue_def\<close>)
  then show ?thesis using False t assms(7) by (simp add: queue_def)
qed

lemma queue_cong: "queue f h t xs \<Longrightarrow> (\<And>x. x \<in> set xs \<Longrightarrow> g x = f x) \<Longrightarrow> queue g h t xs"
  using qlist_cong [of xs g f h] by (simp add: queue_def)

lemma queue_tail_in: "queue f h t xs \<Longrightarrow> t = Some x \<Longrightarrow> x \<in> set xs"
  by (auto simp: queue_def split: if_splits)

lemma queue_head: "queue f h t (x # xs) \<Longrightarrow> h = Some x \<and> queue f (f x) (if f x = None then None else t) xs"
  by (cases xs) (auto simp: queue_def)

lemma scheduler_add_inv:
  assumes inv: "sched_inv st rq wq" and i: "i < length (g_procs st)" "i \<notin> set rq" "i \<notin> set wq"
    and s: "p_state (proc i st) \<noteq> PROC_UNUSED" "p_state (proc i st) \<noteq> PROC_ZOMBIE"
  shows "sched_inv (scheduler_add i st) (rq @ [i]) wq"
proof -
  let ?st = "scheduler_add i st"
  note I = inv [unfolded sched_inv_def]
  have tl: "x \<in> set rq" "x < length (g_procs st)" if "g_run_queue_tail st = Some x" for x
    using queue_tail_in [OF _ that] I by blast+
  have pr: "proc j ?st = (if j = i then (proc i st)\<lparr>p_state := PROC_READY, p_next := None\<rparr>
      else if g_run_queue_tail st = Some j then (proc j st)\<lparr>p_next := Some i\<rparr> else proc j st)" for j
    using s i tl by (auto simp: scheduler_add_def Let_def split: option.split)
  have fr: "length (g_procs ?st) = length (g_procs st)" "g_current ?st = g_current st" "g_wait_head ?st = g_wait_head st"
      "g_wait_tail ?st = g_wait_tail st" "g_run_queue_tail ?st = Some i"
      "g_run_queue_head ?st = (if g_run_queue_tail st = None then Some i else g_run_queue_head st)"
    using s by (auto simp: scheduler_add_def Let_def split: option.split)
  have "queue (nx ?st) (g_run_queue_head ?st) (g_run_queue_tail ?st) (rq @ [i])"
    unfolding fr by (rule queue_snoc [where f = "nx st" and t = "g_run_queue_tail st"]) (use I i tl in \<open>auto simp: pr\<close>)
  moreover have "queue (nx ?st) (g_wait_head ?st) (g_wait_tail ?st) wq"
    unfolding fr by (rule queue_cong [where f = "nx st"]) (use I i tl in \<open>auto simp: pr\<close>)
  ultimately show ?thesis using I i unfolding sched_inv_def fr pr by auto
qed

lemma take_next_inv:
  assumes inv: "sched_inv st (x # rq) wq" and tk: "scheduler_take_next st = (r, st')"
  shows "r = Some x \<and> sched_inv st' rq wq \<and> proc j st' = (if j = x then (proc x st)\<lparr>p_next := None\<rparr> else proc j st) \<and>
    g_current st' = g_current st \<and> length (g_procs st') = length (g_procs st)"
proof -
  note I = inv [unfolded sched_inv_def]
  have h: "g_run_queue_head st = Some x" "queue (nx st) (nx st x) (if nx st x = None then None else g_run_queue_tail st) rq"
    using queue_head [of "nx st" "g_run_queue_head st" "g_run_queue_tail st" x rq] I by simp_all
  have x: "x < length (g_procs st)" using I by simp
  let ?s = "st\<lparr>g_run_queue_head := nx st x, g_run_queue_tail := (if nx st x = None then None else g_run_queue_tail st)\<rparr>"
  have st': "r = Some x" "st' = upd_proc x (\<lambda>p. p\<lparr>p_next := None\<rparr>) ?s" using tk h(1) by (simp_all add: scheduler_take_next_def Let_def)
  have pr: "proc j st' = (if j = x then (proc x st)\<lparr>p_next := None\<rparr> else proc j st)" for j
    unfolding st'(2) using x by simp
  have fr: "length (g_procs st') = length (g_procs st)" "g_current st' = g_current st" "g_wait_head st' = g_wait_head st"
      "g_wait_tail st' = g_wait_tail st" "g_run_queue_head st' = nx st x"
      "g_run_queue_tail st' = (if nx st x = None then None else g_run_queue_tail st)"
    unfolding st'(2) by simp_all
  have "queue (nx st') (g_run_queue_head st') (g_run_queue_tail st') rq"
    unfolding fr by (rule queue_cong [OF h(2)]) (use I in \<open>auto simp: pr\<close>)
  moreover have "queue (nx st') (g_wait_head st') (g_wait_tail st') wq"
    unfolding fr by (rule queue_cong [where f = "nx st"]) (use I in \<open>auto simp: pr\<close>)
  ultimately have "sched_inv st' rq wq" using I unfolding sched_inv_def fr pr by auto
  then show ?thesis using st'(1) pr fr(1,2) by blast
qed

lemma take_next_empty: "sched_inv st [] wq \<Longrightarrow> scheduler_take_next st = (None, st)"
  by (simp add: sched_inv_def queue_def scheduler_take_next_def)

lemma wait_pop_inv:
  assumes inv: "sched_inv st rq (x # wq)" and tk: "keyboard_wait_pop st = (r, st')"
  shows "r = Some x \<and> sched_inv st' rq wq \<and> (\<forall>j. proc j st' = (if j = x then (proc x st)\<lparr>p_next := None\<rparr> else proc j st)) \<and>
    g_current st' = g_current st \<and> length (g_procs st') = length (g_procs st)"
proof -
  note I = inv [unfolded sched_inv_def]
  have h: "g_wait_head st = Some x" "queue (nx st) (nx st x) (if nx st x = None then None else g_wait_tail st) wq"
    using queue_head [of "nx st" "g_wait_head st" "g_wait_tail st" x wq] I by simp_all
  have x: "x < length (g_procs st)" using I by simp
  let ?s = "st\<lparr>g_wait_head := nx st x, g_wait_tail := (if nx st x = None then None else g_wait_tail st)\<rparr>"
  have st': "r = Some x" "st' = upd_proc x (\<lambda>p. p\<lparr>p_next := None\<rparr>) ?s" using tk h(1) by (simp_all add: keyboard_wait_pop_def Let_def)
  have pr: "proc j st' = (if j = x then (proc x st)\<lparr>p_next := None\<rparr> else proc j st)" for j
    unfolding st'(2) using x by simp
  have fr: "length (g_procs st') = length (g_procs st)" "g_current st' = g_current st" "g_run_queue_head st' = g_run_queue_head st"
      "g_run_queue_tail st' = g_run_queue_tail st" "g_wait_head st' = nx st x"
      "g_wait_tail st' = (if nx st x = None then None else g_wait_tail st)"
    unfolding st'(2) by simp_all
  have "queue (nx st') (g_wait_head st') (g_wait_tail st') wq"
    unfolding fr by (rule queue_cong [OF h(2)]) (use I in \<open>auto simp: pr\<close>)
  moreover have "queue (nx st') (g_run_queue_head st') (g_run_queue_tail st') rq"
    unfolding fr by (rule queue_cong [where f = "nx st"]) (use I in \<open>auto simp: pr\<close>)
  ultimately have "sched_inv st' rq wq" using I unfolding sched_inv_def fr pr by auto
  then show ?thesis using st'(1) pr fr(1,2) by blast
qed

lemma enqueue_waiter_inv:
  assumes inv: "sched_inv st rq wq" and i: "i < length (g_procs st)" "i \<notin> set rq" "i \<notin> set wq"
    and s: "p_state (proc i st) = PROC_BLOCKED"
  shows "sched_inv (keyboard_enqueue_waiter i st) rq (wq @ [i])"
proof -
  let ?st = "keyboard_enqueue_waiter i st"
  note I = inv [unfolded sched_inv_def]
  have tl: "x \<in> set wq" "x < length (g_procs st)" if "g_wait_tail st = Some x" for x
    using queue_tail_in [OF _ that] I by blast+
  have pr: "proc j ?st = (if j = i then (proc i st)\<lparr>p_next := None\<rparr>
      else if g_wait_tail st = Some j then (proc j st)\<lparr>p_next := Some i\<rparr> else proc j st)" for j
    using i tl by (auto simp: keyboard_enqueue_waiter_def Let_def split: option.split)
  have fr: "length (g_procs ?st) = length (g_procs st)" "g_current ?st = g_current st" "g_run_queue_head ?st = g_run_queue_head st"
      "g_run_queue_tail ?st = g_run_queue_tail st" "g_wait_tail ?st = Some i"
      "g_wait_head ?st = (if g_wait_tail st = None then Some i else g_wait_head st)"
    by (auto simp: keyboard_enqueue_waiter_def Let_def split: option.split)
  have "queue (nx ?st) (g_wait_head ?st) (g_wait_tail ?st) (wq @ [i])"
    unfolding fr by (rule queue_snoc [where f = "nx st" and t = "g_wait_tail st"]) (use I i tl in \<open>auto simp: pr\<close>)
  moreover have "queue (nx ?st) (g_run_queue_head ?st) (g_run_queue_tail ?st) rq"
    unfolding fr by (rule queue_cong [where f = "nx st"]) (use I i tl in \<open>auto simp: pr\<close>)
  ultimately show ?thesis using I i s unfolding sched_inv_def fr pr by auto
qed

text \<open>The fields that take no part in scheduling.\<close>

definition same_sched :: "('m, 'v) kernel \<Rightarrow> ('m, 'v) kernel \<Rightarrow> bool" where
  "same_sched st st' \<longleftrightarrow> g_procs st' = g_procs st \<and> g_current st' = g_current st \<and>
     g_run_queue_head st' = g_run_queue_head st \<and> g_run_queue_tail st' = g_run_queue_tail st \<and>
     g_wait_head st' = g_wait_head st \<and> g_wait_tail st' = g_wait_tail st"

lemma same_sched_inv: "same_sched st st' \<Longrightarrow> sched_inv st' rq wq = sched_inv st rq wq"
  by (simp add: same_sched_def sched_inv_def proc_def)

lemma same_sched_proc: "same_sched st st' \<Longrightarrow> proc i st' = proc i st"
  by (simp add: same_sched_def proc_def)

lemma translate_same: "same_sched st (snd (translate_scancode s st))"
  by (simp add: same_sched_def translate_scancode_def Let_def)

lemma keybuf_push_same: "same_sched st (keybuf_push ch st)"
  by (simp add: same_sched_def keybuf_push_def)

text \<open>A process that leaves the queue of the keyboard for the run queue is ready there.\<close>

definition kept :: "('m, 'v) kernel \<Rightarrow> ('m, 'v) kernel \<Rightarrow> bool" where
  "kept st st' \<longleftrightarrow> length (g_procs st') = length (g_procs st) \<and> g_current st' = g_current st \<and>
     (\<forall>i. (proc i st')\<lparr>p_next := None, p_state := PROC_READY\<rparr> = (proc i st)\<lparr>p_next := None, p_state := PROC_READY\<rparr> \<and>
       (p_state (proc i st') = p_state (proc i st) \<or> p_state (proc i st') = PROC_READY))"

lemma kept_refl [simp]: "kept st st"
  by (simp add: kept_def)

lemma kept_trans: "kept a b \<Longrightarrow> kept b c \<Longrightarrow> kept a c"
  unfolding kept_def by metis

lemma kept_sel:
  assumes "kept st st'"
  shows "p_resume_kind (proc i st') = p_resume_kind (proc i st)" "p_page_table (proc i st') = p_page_table (proc i st)"
    "p_ticks_remaining (proc i st') = p_ticks_remaining (proc i st)" "p_context (proc i st') = p_context (proc i st)"
    "p_kernel_context (proc i st') = p_kernel_context (proc i st)"
proof -
  have e: "(proc i st')\<lparr>p_next := None, p_state := PROC_READY\<rparr> = (proc i st)\<lparr>p_next := None, p_state := PROC_READY\<rparr>"
    using assms by (simp add: kept_def)
  from arg_cong [OF e, of p_resume_kind] show "p_resume_kind (proc i st') = p_resume_kind (proc i st)" by simp
  from arg_cong [OF e, of p_page_table] show "p_page_table (proc i st') = p_page_table (proc i st)" by simp
  from arg_cong [OF e, of p_ticks_remaining] show "p_ticks_remaining (proc i st') = p_ticks_remaining (proc i st)" by simp
  from arg_cong [OF e, of p_context] show "p_context (proc i st') = p_context (proc i st)" by simp
  from arg_cong [OF e, of p_kernel_context] show "p_kernel_context (proc i st') = p_kernel_context (proc i st)" by simp
qed

lemma scheduler_add_kept:
  assumes "sched_inv st rq wq" "i < length (g_procs st)"
  shows "kept st (scheduler_add i st)"
proof -
  have "t < length (g_procs st)" if "g_run_queue_tail st = Some t" for t
    using assms(1) queue_tail_in [OF _ that] unfolding sched_inv_def by blast
  then show ?thesis using assms(2) by (auto simp: kept_def scheduler_add_def Let_def split: option.split)
qed

lemma keyboard_byte_inv:
  assumes inv: "sched_inv st rq wq"
  shows "\<exists>k. sched_inv (keyboard_byte s st) (rq @ take k wq) (drop k wq) \<and> kept st (keyboard_byte s st)"
proof -
  obtain ch st1 where t: "translate_scancode s st = (ch, st1)" by (cases "translate_scancode s st")
  have s1: "same_sched st st1" using translate_same [of st s] t by simp
  show ?thesis
  proof (cases "ch = -1")
    case True
    then have "keyboard_byte s st = st1" using t by (simp add: keyboard_byte_def)
    then show ?thesis using same_sched_inv [OF s1] same_sched_proc [OF s1] s1 inv
      by (intro exI [of _ 0]) (simp add: kept_def same_sched_def)
  next
    case False
    let ?s2 = "keybuf_push ch st1"
    have s2: "same_sched st ?s2" using s1 keybuf_push_same [of st1 ch] by (simp add: same_sched_def)
    have k2: "kept st ?s2" using s2 same_sched_proc [OF s2] by (simp add: kept_def same_sched_def)
    have inv2: "sched_inv ?s2 rq wq" using inv same_sched_inv [OF s2] by simp
    obtain w s3 where w: "keyboard_wait_pop ?s2 = (w, s3)" by (cases "keyboard_wait_pop ?s2")
    show ?thesis
    proof (cases wq)
      case Nil
      then have "keyboard_wait_pop ?s2 = (None, ?s2)" using inv2 by (simp add: sched_inv_def queue_def keyboard_wait_pop_def)
      then show ?thesis using t False inv2 k2 by (intro exI [of _ 0]) (simp add: keyboard_byte_def)
    next
      case (Cons x ws)
      note p = wait_pop_inv [OF inv2 [unfolded Cons] w]
      have I2: "x \<notin> set rq" "x \<notin> set ws" "x < length (g_procs ?s2)" "p_state (proc x ?s2) = PROC_BLOCKED"
        using inv2 unfolding Cons sched_inv_def by auto
      have "sched_inv (scheduler_add x s3) (rq @ [x]) ws"
        by (rule scheduler_add_inv) (use p I2 in auto)
      moreover have "kept ?s2 s3" using p by (simp add: kept_def)
      moreover have "kept s3 (scheduler_add x s3)" by (rule scheduler_add_kept) (use p I2 in auto)
      moreover have "keyboard_byte s st = scheduler_add x s3" using t False w p by (simp add: keyboard_byte_def)
      ultimately show ?thesis using Cons k2 kept_trans by (intro exI [of _ 1]) (simp, blast)
    qed
  qed
qed

lemma keyboard_handler_inv:
  "sched_inv st rq wq \<Longrightarrow>
   \<exists>k. sched_inv (keyboard_interrupt_handler codes st) (rq @ take k wq) (drop k wq) \<and> kept st (keyboard_interrupt_handler codes st)"
proof (induction codes arbitrary: st rq wq)
  case Nil
  then show ?case by (intro exI [of _ 0]) (simp add: keyboard_interrupt_handler_def)
next
  case (Cons c cs)
  obtain k where k: "sched_inv (keyboard_byte c st) (rq @ take k wq) (drop k wq)" "kept st (keyboard_byte c st)"
    using keyboard_byte_inv [OF Cons.prems] by blast
  obtain l where "sched_inv (keyboard_interrupt_handler cs (keyboard_byte c st)) ((rq @ take k wq) @ take l (drop k wq)) (drop l (drop k wq))"
      "kept (keyboard_byte c st) (keyboard_interrupt_handler cs (keyboard_byte c st))"
    using Cons.IH [OF k(1)] by blast
  moreover have "take k wq @ take l (drop k wq) = take (k + l) wq" by (simp add: take_add)
  moreover have "keyboard_interrupt_handler (c # cs) st = keyboard_interrupt_handler cs (keyboard_byte c st)"
    by (simp add: keyboard_interrupt_handler_def)
  ultimately show ?case using k(2) kept_trans by (intro exI [of _ "k + l"]) (auto simp: add.commute)
qed

section \<open>Switching and the queues\<close>

definition idle :: "('m, 'v) kernel \<Rightarrow> bool" where
  "idle st \<longleftrightarrow> (\<forall>x < length (g_procs st). p_state (proc x st) \<noteq> PROC_RUNNING)"

text \<open>What waiting does: some of the processes that wait for a key become ready, and the first ready process leaves
  the queue.\<close>

definition waited :: "('m, 'v) kernel \<Rightarrow> nat list \<Rightarrow> nat list \<Rightarrow> nat option \<Rightarrow> ('m, 'v) kernel \<Rightarrow> bool" where
  "waited st rq wq r st' \<longleftrightarrow> kept st st' \<and>
     (\<exists>k rq'. sched_inv st' rq' (drop k wq) \<and> rq @ take k wq = (case r of None \<Rightarrow> [] | Some p \<Rightarrow> [p]) @ rq' \<and>
        (\<forall>p. r = Some p \<longrightarrow> p < length (g_procs st') \<and> p_state (proc p st') = PROC_READY \<and> p \<notin> set rq' \<and> p \<notin> set (drop k wq)))"

lemma waited_first:
  assumes inv: "sched_inv st rq wq" and tk: "scheduler_take_next st = (Some p, st')"
  shows "waited st rq wq (Some p) st'"
proof -
  obtain x rs where rq: "rq = x # rs" using tk take_next_empty [of st wq] inv by (cases rq) auto
  note t = take_next_inv [OF inv [unfolded rq] tk]
  have "p = x" "kept st st'" using t by (auto simp: kept_def)
  moreover have "x < length (g_procs st)" "p_state (proc x st) = PROC_READY" "x \<notin> set rs" "x \<notin> set wq"
    using inv unfolding rq sched_inv_def by auto
  ultimately show ?thesis using t rq unfolding waited_def
    by (intro conjI exI [of _ 0] exI [of _ rs]) auto
qed

lemma waited_later:
  assumes "waited st1 (rq @ take k wq) (drop k wq) r st'" "kept st st1"
  shows "waited st rq wq r st'"
proof -
  obtain l rq' where l: "kept st1 st'" "sched_inv st' rq' (drop l (drop k wq))"
      "(rq @ take k wq) @ take l (drop k wq) = (case r of None \<Rightarrow> [] | Some p \<Rightarrow> [p]) @ rq'"
      "\<forall>p. r = Some p \<longrightarrow> p < length (g_procs st') \<and> p_state (proc p st') = PROC_READY \<and> p \<notin> set rq' \<and> p \<notin> set (drop l (drop k wq))"
    using assms(1) unfolding waited_def by blast
  have d: "drop l (drop k wq) = drop (k + l) wq" "(rq @ take k wq) @ take l (drop k wq) = rq @ take (k + l) wq"
    by (simp_all add: take_add add.commute)
  show ?thesis using l kept_trans [OF assms(2) l(1)] unfolding waited_def d by blast
qed

lemma wait_for_next_inv:
  fixes st :: "('m, 'v) kernel"
  assumes w: "scheduler_wait_for_next poll keys n st = Some r" and inv: "sched_inv st rq wq"
  shows "waited st rq wq (fst r) (snd (snd r))"
proof -
  have "\<forall>rq wq. sched_inv st rq wq \<longrightarrow> waited st rq wq (fst r) (snd (snd r))"
  proof (rule scheduler_wait_for_next.raw_induct [OF _ w,
        where P = "\<lambda>poll keys n st r. \<forall>rq wq. sched_inv st rq wq \<longrightarrow> waited st rq wq (fst r) (snd (snd r))"], intro allI impI)
    fix wait :: "('v \<Rightarrow> 'v) \<Rightarrow> (nat \<Rightarrow> nat list) \<Rightarrow> nat \<Rightarrow> ('m, 'v) kernel \<Rightarrow> (nat option \<times> nat \<times> ('m, 'v) kernel) option"
      and poll keys n r and st :: "('m, 'v) kernel" and rq wq
    assume IH: "\<And>poll keys n st r. wait poll keys n st = Some r \<Longrightarrow> \<forall>rq wq. sched_inv st rq wq \<longrightarrow> waited st rq wq (fst r) (snd (snd r))"
      and step: "(case scheduler_take_next st of
        (Some p, st1) \<Rightarrow> Some (Some p, n, st1)
      | (None, st1) \<Rightarrow>
        if g_kernel_wait_active st1 \<and> \<not> process_has_blocked st1 then Some (None, n, st1)
        else
          let t = (g_idle_hotplug_ticks st1 + 1) mod 2 ^ 32 in
          if t \<ge> SCHED_IDLE_HOTPLUG_POLL_TICKS
          then wait poll keys (n + 1)
                 (keyboard_interrupt_handler (keys n) (st1\<lparr>g_idle_hotplug_ticks := 0, fsys := poll (fsys st1)\<rparr>))
          else wait poll keys (n + 1) (keyboard_interrupt_handler (keys n) (st1\<lparr>g_idle_hotplug_ticks := t\<rparr>))) = Some r"
      and inv: "sched_inv st rq wq"
    show "waited st rq wq (fst r) (snd (snd r))"
    proof (cases "scheduler_take_next st")
      case (Pair q st1)
      show ?thesis
      proof (cases q)
        case (Some p)
        then show ?thesis using step Pair waited_first [OF inv, of p st1] by auto
      next
        case None
        have "rq = []" using take_next_inv [of st _ _ wq q st1] inv Pair None by (cases rq) auto
        then have st1: "st1 = st" using take_next_empty [of st wq] inv Pair by simp
        have later: "waited st rq wq (fst r) (snd (snd r))"
          if "wait poll keys m (keyboard_interrupt_handler cs st2) = Some r" "same_sched st st2" for m cs st2
        proof -
          have i2: "sched_inv st2 rq wq" using inv same_sched_inv [OF that(2)] by simp
          have k2: "kept st st2" using that(2) same_sched_proc [OF that(2)] by (simp add: kept_def same_sched_def)
          obtain k where k: "sched_inv (keyboard_interrupt_handler cs st2) (rq @ take k wq) (drop k wq)"
              "kept st2 (keyboard_interrupt_handler cs st2)"
            using keyboard_handler_inv [OF i2] by blast
          have "waited (keyboard_interrupt_handler cs st2) (rq @ take k wq) (drop k wq) (fst r) (snd (snd r))"
            using IH [OF that(1)] k(1) by blast
          from waited_later [OF this kept_trans [OF k2 k(2)]] show ?thesis .
        qed
        show ?thesis
        proof (cases "g_kernel_wait_active st \<and> \<not> process_has_blocked st")
          case True
          then have "r = (None, n, st)" using step Pair None st1 by auto
          then show ?thesis using inv unfolding waited_def by (auto intro!: exI [of _ 0])
        next
          case False
          then show ?thesis using step Pair None st1
            by (auto simp: Let_def split: if_splits intro!: later simp: same_sched_def)
        qed
      qed
    qed
  qed
  then show ?thesis using inv by blast
qed

text \<open>The process that a switch goes to.\<close>

definition runs :: "resumed \<Rightarrow> nat set" where
  "runs r = (case r of Enter_User p \<Rightarrow> {p} | Enter_Kernel p _ \<Rightarrow> {p} | _ \<Rightarrow> {})"

lemma run_inv:
  assumes inv: "sched_inv st rq wq" and p: "p < length (g_procs st)" "p \<notin> set rq" "p \<notin> set wq" and i: "idle st"
    and pr: "\<And>j. proc j st' = (if j = p then (proc p st)\<lparr>p_ticks_remaining := 5, p_state := PROC_RUNNING\<rparr> else proc j st)"
    and fr: "length (g_procs st') = length (g_procs st)" "g_current st' = Some p" "g_run_queue_head st' = g_run_queue_head st"
      "g_run_queue_tail st' = g_run_queue_tail st" "g_wait_head st' = g_wait_head st" "g_wait_tail st' = g_wait_tail st"
  shows "sched_inv st' rq wq"
proof -
  note I = inv [unfolded sched_inv_def]
  have n: "nx st' j = nx st j" for j by (simp add: pr)
  show ?thesis using I p i unfolding sched_inv_def fr n by (auto simp: pr idle_def)
qed

lemma switch_to:
  assumes inv: "sched_inv st rq wq" and p: "p < length (g_procs st)" "p \<notin> set rq" "p \<notin> set wq" and i: "idle st"
    and pt: "p_resume_kind (proc p st) = PROC_RESUME_KERNEL \<or> p_page_table (proc p st) \<noteq> None"
    and w: "scheduler_wait_for_next poll keys 0 st0 = Some (Some p, m, st)"
  shows "\<exists>st'. scheduler_switch poll keys st0 = Some (if p_resume_kind (proc p st) = PROC_RESUME_KERNEL
        then Enter_Kernel p (p_kernel_context (proc p st)) else Enter_User p, st') \<and> sched_inv st' rq wq \<and> g_current st' = Some p \<and>
      length (g_procs st') = length (g_procs st) \<and>
      (\<forall>j. proc j st' = (if j = p then (proc p st)\<lparr>p_ticks_remaining := 5, p_state := PROC_RUNNING\<rparr> else proc j st))"
proof -
  let ?t = "scheduler_reset_timeslice p st"
  have t: "p_resume_kind (proc p ?t) = p_resume_kind (proc p st)" "p_page_table (proc p ?t) = p_page_table (proc p st)"
    using p(1) by (simp_all add: scheduler_reset_timeslice_def)
  let ?r = "process_set_current (Some p) (upd_proc p (\<lambda>q. q\<lparr>p_state := PROC_RUNNING\<rparr>) ?t)"
  have pr: "proc j (set_kernel_stack sp ?r) = (if j = p then (proc p st)\<lparr>p_ticks_remaining := 5, p_state := PROC_RUNNING\<rparr> else proc j st)" for j sp
  proof -
    have "proc j (set_kernel_stack sp ?r) = proc j (upd_proc p (\<lambda>q. q\<lparr>p_state := PROC_RUNNING\<rparr>) ?t)"
      by (simp add: proc_def set_kernel_stack_def process_set_current_def)
    then show ?thesis using p(1) by (simp add: scheduler_reset_timeslice_def)
  qed
  have "\<exists>m sp. scheduler_switch poll keys st0 = Some (if p_resume_kind (proc p st) = PROC_RESUME_KERNEL
        then Enter_Kernel p (p_kernel_context (proc p st)) else Enter_User p, (set_kernel_stack sp ?r)\<lparr>mmu := m\<rparr>)"
  proof (cases "p_resume_kind (proc p st) = PROC_RESUME_KERNEL")
    case True
    then show ?thesis using w t by (auto simp: scheduler_switch_def Let_def pr)
  next
    case False
    then obtain pml4 where "p_page_table (proc p st) = Some pml4" using pt by auto
    then show ?thesis using w t False by (auto simp: scheduler_switch_def process_enter_def Let_def)
  qed
  then obtain m sp where sw: "scheduler_switch poll keys st0 = Some (if p_resume_kind (proc p st) = PROC_RESUME_KERNEL
        then Enter_Kernel p (p_kernel_context (proc p st)) else Enter_User p, (set_kernel_stack sp ?r)\<lparr>mmu := m\<rparr>)" by blast
  let ?st' = "(set_kernel_stack sp ?r)\<lparr>mmu := m\<rparr>"
  have fr: "length (g_procs ?st') = length (g_procs st)" "g_current ?st' = Some p" "g_run_queue_head ?st' = g_run_queue_head st"
      "g_run_queue_tail ?st' = g_run_queue_tail st" "g_wait_head ?st' = g_wait_head st" "g_wait_tail ?st' = g_wait_tail st"
    by (simp_all add: set_kernel_stack_def process_set_current_def scheduler_reset_timeslice_def)
  have pr': "proc j ?st' = (if j = p then (proc p st)\<lparr>p_ticks_remaining := 5, p_state := PROC_RUNNING\<rparr> else proc j st)" for j
    using pr [of j sp] by simp
  show ?thesis using sw run_inv [OF inv p i pr' fr] fr(1,2) pr' by blast
qed

lemma idle_kept:
  assumes "kept st st'" "idle st"
  shows "idle st'"
  unfolding idle_def
proof (intro allI impI)
  fix x assume "x < length (g_procs st')"
  then have "p_state (proc x st) \<noteq> PROC_RUNNING" using assms by (simp add: kept_def idle_def)
  moreover have "p_state (proc x st') = p_state (proc x st) \<or> p_state (proc x st') = PROC_READY" using assms(1) by (simp add: kept_def)
  ultimately show "p_state (proc x st') \<noteq> PROC_RUNNING" by auto
qed

lemma switch_inv:
  assumes sw: "scheduler_switch poll keys st = Some (r, st')" and inv: "sched_inv st rq wq" and i: "idle st" and r: "r \<noteq> Halted"
  shows "\<exists>rq' wq'. sched_inv st' rq' wq' \<and> set rq \<union> set wq = set rq' \<union> set wq' \<union> runs r \<and>
    (\<forall>p \<in> runs r. g_current st' = Some p \<and> p_state (proc p st') = PROC_RUNNING \<and> p_ticks_remaining (proc p st') = 5) \<and>
    length (g_procs st') = length (g_procs st)"
proof -
  obtain q n st1 where w: "scheduler_wait_for_next poll keys 0 st = Some (q, n, st1)"
    using sw by (auto simp: scheduler_switch_def split: option.splits)
  obtain k rq' where k: "kept st st1" "sched_inv st1 rq' (drop k wq)" "rq @ take k wq = (case q of None \<Rightarrow> [] | Some p \<Rightarrow> [p]) @ rq'"
      "\<forall>p. q = Some p \<longrightarrow> p < length (g_procs st1) \<and> p_state (proc p st1) = PROC_READY \<and> p \<notin> set rq' \<and> p \<notin> set (drop k wq)"
    using wait_for_next_inv [OF w inv] unfolding waited_def by auto
  have all: "set rq \<union> set wq = set (rq @ take k wq) \<union> set (drop k wq)" using set_append [of "take k wq" "drop k wq"] by auto
  have i1: "idle st1" by (rule idle_kept [OF k(1) i])
  have len: "length (g_procs st1) = length (g_procs st)" using k(1) by (simp add: kept_def)
  show ?thesis
  proof (cases q)
    case None
    have "r \<noteq> Halted \<Longrightarrow> \<exists>ctx. r = Wake_Waiter ctx \<and> g_procs st' = g_procs st1 \<and> g_run_queue_head st' = g_run_queue_head st1 \<and>
        g_run_queue_tail st' = g_run_queue_tail st1 \<and> g_wait_head st' = g_wait_head st1 \<and> g_wait_tail st' = g_wait_tail st1"
      using sw w None by (auto simp: scheduler_switch_def set_kernel_stack_def process_set_current_def Let_def split: option.splits if_splits)
    then obtain ctx where c: "r = Wake_Waiter ctx" "g_procs st' = g_procs st1" "g_run_queue_head st' = g_run_queue_head st1"
        "g_run_queue_tail st' = g_run_queue_tail st1" "g_wait_head st' = g_wait_head st1" "g_wait_tail st' = g_wait_tail st1"
      using r by blast
    have "sched_inv st' rq' (drop k wq)" using k(2) i1 c unfolding sched_inv_def idle_def by (simp add: proc_def)
    then show ?thesis using c(1,2) k(3) None all len by (intro exI [of _ rq'] exI [of _ "drop k wq"]) (simp add: runs_def)
  next
    case (Some p)
    have p: "p < length (g_procs st1)" "p \<notin> set rq'" "p \<notin> set (drop k wq)" using k(4) Some by simp_all
    have pt: "p_resume_kind (proc p st1) = PROC_RESUME_KERNEL \<or> p_page_table (proc p st1) \<noteq> None"
      using sw w Some r p(1) by (auto simp: scheduler_switch_def process_enter_def scheduler_reset_timeslice_def Let_def split: if_splits option.splits)
    obtain st2 where s2: "scheduler_switch poll keys st = Some (if p_resume_kind (proc p st1) = PROC_RESUME_KERNEL
        then Enter_Kernel p (p_kernel_context (proc p st1)) else Enter_User p, st2)" "sched_inv st2 rq' (drop k wq)" "g_current st2 = Some p"
        "length (g_procs st2) = length (g_procs st1)"
        "\<forall>j. proc j st2 = (if j = p then (proc p st1)\<lparr>p_ticks_remaining := 5, p_state := PROC_RUNNING\<rparr> else proc j st1)"
      using switch_to [OF k(2) p i1 pt] w Some by blast
    have "st' = st2" "runs r = {p}" using sw s2(1) by (auto simp: runs_def split: if_splits)
    then show ?thesis using s2 k(3) Some all len by (intro exI [of _ rq'] exI [of _ "drop k wq"]) simp
  qed
qed

section \<open>The timer\<close>

lemma upd_idle_inv:
  assumes inv: "sched_inv st rq wq" and c: "c < length (g_procs st)"
    and f: "\<And>p. p_next (f p) = p_next p" "\<And>p. p_state (f p) = p_state p"
  shows "sched_inv (upd_proc c f st) rq wq"
proof -
  have "nx (upd_proc c f st) j = nx st j" "p_state (proc j (upd_proc c f st)) = p_state (proc j st)" for j
    using c f by simp_all
  then show ?thesis using inv unfolding sched_inv_def by simp
qed

lemma tick_preempts:
  assumes inv: "sched_inv st rq wq" and c: "g_current st = Some c" "c < length (g_procs st)" "p_state (proc c st) = PROC_RUNNING"
      "p_resume_kind (proc c st) = PROC_RESUME_USER" "p_ticks_remaining (proc c st) \<le> 1" and f: "if_cs f AND 3 = 3"
  obtains st1 where "scheduler_timer_tick poll keys (Some f) st = map_option (map_prod Some id) (scheduler_switch poll keys st1)"
    "sched_inv st1 (rq @ [c]) wq" "idle st1" "length (g_procs st1) = length (g_procs st)"
    "\<And>j. p_page_table (proc j st1) = p_page_table (proc j st)"
    "\<And>j. p_resume_kind (proc j st1) = p_resume_kind (proc j st)"
proof -
  let ?t = "if p_ticks_remaining (proc c st) > 0 then upd_proc c (\<lambda>p. p\<lparr>p_ticks_remaining := p_ticks_remaining p - 1\<rparr>) st else st"
  let ?s = "scheduler_save_interrupt_context c f ?t"
  have t: "sched_inv ?t rq wq" "length (g_procs ?t) = length (g_procs st)" "g_current ?t = Some c" "p_ticks_remaining (proc c ?t) = 0"
    "p_state (proc c ?t) = PROC_RUNNING"
    using inv c upd_idle_inv [OF inv c(2)] by auto
  have s: "sched_inv ?s rq wq" unfolding scheduler_save_interrupt_context_def by (rule upd_idle_inv [OF t(1)]) (use t(2) c in simp_all)
  have cs: "c < length (g_procs ?s)" "p_state (proc c ?s) = PROC_RUNNING"
    using t(2,5) c(2) unfolding scheduler_save_interrupt_context_def by simp_all
  have nq: "c \<notin> set rq" "c \<notin> set wq" using inv c(3) unfolding sched_inv_def by auto
  have add: "sched_inv (scheduler_add c ?s) (rq @ [c]) wq"
    by (rule scheduler_add_inv [OF s cs(1) nq]) (use cs(2) in simp_all)
  have k: "kept ?s (scheduler_add c ?s)" by (rule scheduler_add_kept [OF s cs(1)])
  have len: "length (g_procs (scheduler_add c ?s)) = length (g_procs st)"
    using k t(2) unfolding kept_def scheduler_save_interrupt_context_def by simp
  have "idle (scheduler_add c ?s)"
    unfolding idle_def
  proof (intro allI impI notI)
    fix x assume x: "x < length (g_procs (scheduler_add c ?s))" "p_state (proc x (scheduler_add c ?s)) = PROC_RUNNING"
    then have "g_current (scheduler_add c ?s) = Some x" using add unfolding sched_inv_def by blast
    moreover have "g_current (scheduler_add c ?s) = Some c" using k t(3) unfolding kept_def scheduler_save_interrupt_context_def by simp
    ultimately show False using x add unfolding sched_inv_def by auto
  qed
  moreover have "scheduler_timer_tick poll keys (Some f) st = map_option (map_prod Some id) (scheduler_switch poll keys (scheduler_add c ?s))"
    using c f t(4) by (simp add: scheduler_timer_tick_def process_current_def Let_def)
  moreover have "p_page_table (proc j (scheduler_add c ?s)) = p_page_table (proc j st)"
    "p_resume_kind (proc j (scheduler_add c ?s)) = p_resume_kind (proc j st)" for j
    using kept_sel(1,2) [OF k, of j] c t(2) unfolding scheduler_save_interrupt_context_def by (auto split: if_splits)
  ultimately show thesis using that add len by blast
qed

text \<open>Timer interrupts in a row.\<close>

fun ticks :: "('v \<Rightarrow> 'v) \<Rightarrow> (nat \<Rightarrow> nat list) \<Rightarrow> interrupt_frame \<Rightarrow> nat \<Rightarrow> ('m, 'v) kernel \<Rightarrow> ('m, 'v) kernel option" where
  "ticks poll keys f 0 st = Some st"
| "ticks poll keys f (Suc n) st =
     (case scheduler_timer_tick poll keys (Some f) st of None \<Rightarrow> None | Some (_, st1) \<Rightarrow> ticks poll keys f n st1)"

text \<open>The process \<open>hd xs\<close> runs in user mode with \<open>t\<close> ticks left, the others of \<open>xs\<close> are in the run queue, and all of them can
  be preempted.\<close>

definition round_state :: "nat \<Rightarrow> ('m, 'v) kernel \<Rightarrow> nat list \<Rightarrow> nat list \<Rightarrow> bool" where
  "round_state t st xs wq \<longleftrightarrow> xs \<noteq> [] \<and> sched_inv st (tl xs) wq \<and> g_current st = Some (hd xs) \<and> hd xs < length (g_procs st) \<and>
     p_state (proc (hd xs) st) = PROC_RUNNING \<and> p_ticks_remaining (proc (hd xs) st) = t \<and>
     (\<forall>x \<in> set xs. p_resume_kind (proc x st) = PROC_RESUME_USER \<and> p_page_table (proc x st) \<noteq> None)"

lemma ticks_add: "ticks poll keys f (m + n) st = (case ticks poll keys f m st of None \<Rightarrow> None | Some st1 \<Rightarrow> ticks poll keys f n st1)"
  by (induction m arbitrary: st) (auto split: option.split)

lemma tick_dec:
  assumes r: "round_state (Suc (Suc t)) st xs wq" and f: "if_cs f AND 3 = 3"
  shows "\<exists>st'. scheduler_timer_tick poll keys (Some f) st = Some (None, st') \<and> round_state (Suc t) st' xs wq"
proof -
  let ?st = "upd_proc (hd xs) (\<lambda>p. p\<lparr>p_ticks_remaining := p_ticks_remaining p - 1\<rparr>) st"
  note R = r [unfolded round_state_def]
  have "scheduler_timer_tick poll keys (Some f) st = Some (None, ?st)"
    using R f by (simp add: scheduler_timer_tick_def process_current_def)
  moreover have "sched_inv ?st (tl xs) wq" by (rule upd_idle_inv) (use R in simp_all)
  then have "round_state (Suc t) ?st xs wq" using R unfolding round_state_def by auto
  ultimately show ?thesis by blast
qed

lemma tick_rotate:
  assumes r: "round_state (Suc 0) st xs wq" and f: "if_cs f AND 3 = 3"
  shows "\<exists>st'. scheduler_timer_tick poll keys (Some f) st = Some (Some (Enter_User (hd (rotate1 xs))), st') \<and> round_state 5 st' (rotate1 xs) wq"
proof -
  note R = r [unfolded round_state_def]
  obtain st1 where st1: "scheduler_timer_tick poll keys (Some f) st = map_option (map_prod Some id) (scheduler_switch poll keys st1)"
    "sched_inv st1 (tl xs @ [hd xs]) wq" "idle st1" "length (g_procs st1) = length (g_procs st)"
    "\<And>j. p_page_table (proc j st1) = p_page_table (proc j st)" "\<And>j. p_resume_kind (proc j st1) = p_resume_kind (proc j st)"
    by (rule tick_preempts [of st "tl xs" wq "hd xs" f poll keys]) (use R f in auto)
  have ro: "tl xs @ [hd xs] = rotate1 xs" using R by (cases xs) simp_all
  obtain y ys where y: "rotate1 xs = y # ys" using R by (cases "rotate1 xs") auto
  have inv1: "sched_inv st1 (y # ys) wq" using st1(2) unfolding ro y .
  obtain r1 st2 where t: "scheduler_take_next st1 = (r1, st2)" by (cases "scheduler_take_next st1")
  have st2: "r1 = Some y" "sched_inv st2 ys wq" "length (g_procs st2) = length (g_procs st1)"
      "\<And>j. proc j st2 = (if j = y then (proc y st1)\<lparr>p_next := None\<rparr> else proc j st1)"
    using take_next_inv [OF inv1 t] by blast+
  have w: "scheduler_wait_for_next poll keys 0 st1 = Some (Some y, 0, st2)"
    using t st2(1) by (subst scheduler_wait_for_next.simps) simp
  have yi: "y < length (g_procs st2)" "y \<notin> set ys" "y \<notin> set wq" using inv1 st2(3) unfolding sched_inv_def by auto
  have yx: "set xs = insert y (set ys)" using y by (metis list.simps(15) set_rotate1)
  have i2: "idle st2" using st1(3) st2(3,4) by (auto simp: idle_def)
  have pt: "p_resume_kind (proc y st2) = PROC_RESUME_USER" "p_page_table (proc y st2) \<noteq> None"
    using R yx st1(5,6) st2(4) by auto
  obtain st' where s: "scheduler_switch poll keys st1 = Some (Enter_User y, st')" "sched_inv st' ys wq" "g_current st' = Some y"
      "length (g_procs st') = length (g_procs st2)"
      "\<forall>j. proc j st' = (if j = y then (proc y st2)\<lparr>p_ticks_remaining := 5, p_state := PROC_RUNNING\<rparr> else proc j st2)"
    using switch_to [OF st2(2) yi i2 disjI2 [OF pt(2)] w] pt(1) by auto
  have "round_state 5 st' (rotate1 xs) wq"
    unfolding round_state_def y using s yi pt R yx st1(5,6) st2(3,4) by auto
  then show ?thesis using st1(1) s(1) y by simp
qed

lemma slice_rotate:
  assumes "round_state (Suc t) st xs wq" "if_cs f AND 3 = 3"
  shows "\<exists>st'. ticks poll keys f (Suc t) st = Some st' \<and> round_state 5 st' (rotate1 xs) wq"
  using assms
proof (induction t arbitrary: st)
  case 0
  then show ?case using tick_rotate [of st xs wq f poll keys] by auto
next
  case (Suc t)
  obtain st1 where st1: "scheduler_timer_tick poll keys (Some f) st = Some (None, st1)" "round_state (Suc t) st1 xs wq"
    using tick_dec [OF Suc.prems] by blast
  have "ticks poll keys f (Suc (Suc t)) st = ticks poll keys f (Suc t) st1" using st1(1) by simp
  then show ?case using Suc.IH [OF st1(2) Suc.prems(2)] by simp
qed

lemma rounds:
  assumes "round_state 5 st xs wq" "if_cs f AND 3 = 3"
  shows "\<exists>st'. ticks poll keys f (5 * k) st = Some st' \<and> round_state 5 st' (rotate k xs) wq"
proof (induction k)
  case 0
  then show ?case using assms by simp
next
  case (Suc k)
  then obtain st1 where st1: "ticks poll keys f (5 * k) st = Some st1" "round_state (Suc 4) st1 (rotate k xs) wq" by auto
  obtain st' where "ticks poll keys f (Suc 4) st1 = Some st'" "round_state 5 st' (rotate1 (rotate k xs)) wq"
    using slice_rotate [OF st1(2) assms(2)] by blast
  moreover have "5 * Suc k = 5 * k + Suc 4" by simp
  ultimately show ?case using st1(1) by (simp only: ticks_add option.case rotate_Suc) auto
qed

text \<open>C19: the scheduler is fair. When the running process and those of the run queue are all in user mode and stay so, each
  of them gets its slice of five ticks in turn: after five times k ticks the process that runs is the one k
  places behind in the circle of the running process and the queue, and the queues are intact.\<close>

theorem scheduler_round_robin:
  assumes "round_state 5 st (c # rq) wq" and "if_cs f AND 3 = 3"
  shows "\<exists>st'. ticks poll keys f (5 * k) st = Some st' \<and>
    g_current st' = Some ((c # rq) ! (k mod Suc (length rq))) \<and> sched_inv st' (tl (rotate k (c # rq))) wq"
proof -
  obtain st' where "ticks poll keys f (5 * k) st = Some st'" "round_state 5 st' (rotate k (c # rq)) wq"
    using rounds [OF assms] by blast
  then show ?thesis using hd_rotate_conv_nth [of "c # rq" k] by (auto simp: round_state_def)
qed

text \<open>C20: scheduling loses no process. When a switch from a state without a running process goes on with some code, every
  process that was in the run queue or waiting for a key is still in one of the queues, without
  duplicates, or is the one that now runs with a full time slice.\<close>

theorem scheduler_switch_keeps_processes:
  assumes "scheduler_switch poll keys st = Some (r, st')" and "sched_inv st rq wq" and "idle st" and "r \<noteq> Halted"
  shows "\<exists>rq' wq'. sched_inv st' rq' wq' \<and> set rq \<union> set wq = set rq' \<union> set wq' \<union> runs r \<and>
    (\<forall>p \<in> runs r. g_current st' = Some p \<and> p_state (proc p st') = PROC_RUNNING \<and> p_ticks_remaining (proc p st') = 5)"
  using switch_inv [OF assms] by blast

lemma upd_proc_kind: "(\<And>q. p_resume_kind (f q) = p_resume_kind q) \<Longrightarrow> p_resume_kind (proc j (upd_proc i f st)) = p_resume_kind (proc j st)"
  by (cases "i < length (g_procs st)") (simp_all add: proc_def upd_proc_def nth_list_update list_update_beyond not_less)

lemma switch_kernel:
  assumes "scheduler_switch poll keys st = Some (Enter_Kernel p ctx, st')"
  shows "p_resume_kind (proc p st') = PROC_RESUME_KERNEL \<and> g_current st' = Some p"
proof -
  have c: "proc p (process_set_current x s) = proc p s" "proc p (set_kernel_stack y s) = proc p s" for x y and s :: "('a, 'b) kernel"
    by (simp_all add: proc_def process_set_current_def set_kernel_stack_def)
  show ?thesis using assms
    by (auto simp: scheduler_switch_def process_enter_def scheduler_reset_timeslice_def Let_def c upd_proc_kind
        split: option.splits if_splits) (auto simp: set_kernel_stack_def process_set_current_def)
qed

lemma ticks_kernel:
  assumes "p_resume_kind (proc p st) = PROC_RESUME_KERNEL \<and> g_current st = Some p"
  shows "ticks poll keys f n st = Some st"
proof -
  have "scheduler_timer_tick poll keys (Some f) st = Some (None, st)"
    using assms by (simp add: scheduler_timer_tick_def process_current_def)
  then show ?thesis by (induction n) simp_all
qed

text \<open>C21: a process that the scheduler resumes in the kernel, because it had blocked in a system call, is not
  preempted while it runs: no number of timer interrupts changes anything, whoever waits in the run queue.\<close>

theorem kernel_resume_disables_preemption:
  assumes "scheduler_switch poll keys st = Some (Enter_Kernel p ctx, st')"
  shows "ticks poll keys f n st' = Some st'"
  using ticks_kernel [OF switch_kernel [OF assms]] .

text \<open>A machine with processes 1 to 3: the first runs, the second is ready, the third waits for a key.\<close>

definition example_process :: "proc_state \<Rightarrow> nat option \<Rightarrow> process" where
  "example_process s n = zero_process\<lparr>p_state := s, p_page_table := Some 4096, p_ticks_remaining := 5, p_next := n\<rparr>"

definition example_kernel :: "(unit, unit) kernel" where
  "example_kernel = \<lparr>g_procs = [zero_process, example_process PROC_RUNNING None, example_process PROC_READY None, example_process PROC_BLOCKED None],
     g_current = Some 1, g_next_pid = 4, g_pipes = replicate 32 zero_pipe, g_next_fd_description_id = 1, g_run_queue_head = Some 2,
     g_run_queue_tail = Some 2, g_kernel_wait_ctx = None, g_kernel_wait_active = False, g_idle_hotplug_ticks = 0, g_wait_head = Some 3,
     g_wait_tail = Some 3, shift_pressed = False, ctrl_pressed = False, e0_prefix = False, g_keybuf = replicate 256 0, g_keybuf_head = 0,
     g_keybuf_tail = 0, g_keybuf_count = 0, kernel_rsp_current = 0, tss_rsp0 = 0, mmu = example_vmm, ram = (\<lambda>_. 0), vnodes = (\<lambda>_. None),
     vnode_next = 1, fsys = (), console_out = [], kmem = (\<lambda>_. True), kmem_calls = 0\<rparr>"

definition user_frame :: interrupt_frame where
  "user_frame = \<lparr>if_r15 = 0, if_r14 = 0, if_r13 = 0, if_r12 = 0, if_r11 = 0, if_r10 = 0, if_r9 = 0, if_r8 = 0, if_rbp = 0, if_rdi = 0,
     if_rsi = 0, if_rdx = 0, if_rcx = 0, if_rbx = 0, if_rax = 0, if_rip = 0x400000, if_cs = 0x23, if_rflags = 0x202, if_rsp = 0x7FF000, if_ss = 0x1B\<rparr>"

lemma example_process_sel [simp]:
  "p_state (example_process s n) = s" "p_next (example_process s n) = n" "p_page_table (example_process s n) = Some 4096"
  "p_ticks_remaining (example_process s n) = 5" "p_resume_kind (example_process s n) = PROC_RESUME_USER" "p_state zero_process = PROC_UNUSED"
  by (simp_all add: example_process_def zero_process_def)

lemma example_procs [simp]:
  "proc 0 example_kernel = zero_process" "proc (Suc 0) example_kernel = example_process PROC_RUNNING None"
  "proc 2 example_kernel = example_process PROC_READY None" "proc 3 example_kernel = example_process PROC_BLOCKED None"
  "length (g_procs example_kernel) = 4"
  by (simp_all add: proc_def example_kernel_def)

lemma example_queues [simp]:
  "g_current example_kernel = Some 1" "g_run_queue_head example_kernel = Some 2" "g_run_queue_tail example_kernel = Some 2"
  "g_wait_head example_kernel = Some 3" "g_wait_tail example_kernel = Some 3"
  by (simp_all add: example_kernel_def)

lemma example_round: "round_state 5 example_kernel [1, 2] [3]"
proof -
  have "x = 0 \<or> x = Suc 0 \<or> x = 2 \<or> x = 3" if "x < 4" for x :: nat using that by linarith
  then have "\<forall>x<4. p_state (proc x example_kernel) = PROC_RUNNING \<longrightarrow> x = 1" by fastforce
  then show ?thesis by (simp add: round_state_def sched_inv_def queue_def)
qed

theorem scheduler_round_robin_witness:
  "\<exists>st'. ticks id (\<lambda>_. []) user_frame 5 example_kernel = Some st' \<and> g_current st' = Some 2"
  using scheduler_round_robin [OF example_round, of user_frame id "\<lambda>_. []" 1] by (auto simp: user_frame_def)

text \<open>The same machine when process 1 has exited, with process 2 to be resumed in user mode or in the kernel.\<close>

definition exited_kernel :: "process_resume_kind \<Rightarrow> (unit, unit) kernel" where
  "exited_kernel k = upd_proc 2 (\<lambda>p. p\<lparr>p_resume_kind := k\<rparr>) (upd_proc 1 (\<lambda>p. p\<lparr>p_state := PROC_ZOMBIE\<rparr>) example_kernel)"

lemma exited_kernel_sel [simp]:
  "p_state (proc 0 (exited_kernel k)) = PROC_UNUSED" "p_state (proc (Suc 0) (exited_kernel k)) = PROC_ZOMBIE"
  "proc 2 (exited_kernel k) = (example_process PROC_READY None)\<lparr>p_resume_kind := k\<rparr>"
  "proc 3 (exited_kernel k) = example_process PROC_BLOCKED None" "length (g_procs (exited_kernel k)) = 4"
  "g_run_queue_head (exited_kernel k) = Some 2" "g_run_queue_tail (exited_kernel k) = Some 2"
  "g_wait_head (exited_kernel k) = Some 3" "g_wait_tail (exited_kernel k) = Some 3"
  by (simp_all add: exited_kernel_def)

lemma exited_idle: "idle (exited_kernel k)"
proof -
  have "x = 0 \<or> x = Suc 0 \<or> x = 2 \<or> x = 3" if "x < 4" for x :: nat using that by linarith
  then show ?thesis by (fastforce simp: idle_def)
qed

lemma exited_inv: "sched_inv (exited_kernel k) [2] [3]"
  using exited_idle [of k] by (simp add: sched_inv_def queue_def idle_def)

lemma exited_switch:
  "\<exists>st' ctx. scheduler_switch id (\<lambda>_. []) (exited_kernel k) = Some (if k = PROC_RESUME_KERNEL then Enter_Kernel 2 ctx else Enter_User 2, st')"
proof -
  have "scheduler_wait_for_next id (\<lambda>_. []) 0 (exited_kernel k) = Some (Some 2, 0, snd (scheduler_take_next (exited_kernel k)))"
    by (subst scheduler_wait_for_next.simps) (simp add: scheduler_take_next_def Let_def)
  then show ?thesis
    by (simp add: scheduler_switch_def process_enter_def scheduler_reset_timeslice_def scheduler_take_next_def Let_def)
qed

theorem scheduler_switch_keeps_processes_witness:
  "\<exists>st' rq' wq'. scheduler_switch id (\<lambda>_. []) (exited_kernel PROC_RESUME_USER) = Some (Enter_User 2, st') \<and> sched_inv st' rq' wq' \<and>
     {2, 3} = set rq' \<union> set wq' \<union> {2} \<and> g_current st' = Some 2"
proof -
  obtain st' where sw: "scheduler_switch id (\<lambda>_. []) (exited_kernel PROC_RESUME_USER) = Some (Enter_User 2, st')"
    using exited_switch [of PROC_RESUME_USER] by auto
  obtain rq' wq' where "sched_inv st' rq' wq'" "set [2] \<union> set [3] = set rq' \<union> set wq' \<union> runs (Enter_User 2)"
      "\<forall>p \<in> runs (Enter_User 2). g_current st' = Some p"
    using scheduler_switch_keeps_processes [OF sw exited_inv exited_idle] by auto
  then show ?thesis using sw by (intro exI [of _ st'] exI [of _ rq'] exI [of _ wq']) (simp add: runs_def insert_commute)
qed

theorem kernel_resume_disables_preemption_witness:
  "\<exists>st' ctx. scheduler_switch id (\<lambda>_. []) (exited_kernel PROC_RESUME_KERNEL) = Some (Enter_Kernel 2 ctx, st') \<and>
     ticks id (\<lambda>_. []) user_frame 1000 st' = Some st'"
proof -
  obtain st' ctx where sw: "scheduler_switch id (\<lambda>_. []) (exited_kernel PROC_RESUME_KERNEL) = Some (Enter_Kernel 2 ctx, st')"
    using exited_switch [of PROC_RESUME_KERNEL] by auto
  then show ?thesis using kernel_resume_disables_preemption [OF sw] by blast
qed

end
