(* ===== verification/Upath.thy ===== *)
theory Upath
  imports Paths
begin

text \<open>
  The paths that system calls take (\<open>src/src/core/syscall.c\<close>): they are made absolute with the working directory
  and brought into normal form. The result is the stack of names that the components of the path leave, where a
  dot leaves it alone and two dots drop its last name.
\<close>

abbreviation (input) SYSCALL_PATH_MAX :: nat where "SYSCALL_PATH_MAX \<equiv> 256"
abbreviation (input) dot :: "8 word" where "dot \<equiv> 0x2E"

section \<open>The operations\<close>

fun pop_scan :: "bytes \<Rightarrow> nat \<Rightarrow> nat" where
  "pop_scan p 0 = 0"
| "pop_scan p (Suc n) = (if p ! n \<noteq> slash then pop_scan p n else Suc n)"

definition pop_path_component :: "bytes \<Rightarrow> bytes" where
  "pop_path_component path =
     (if path = [] then path
      else let len = pop_scan path (length path) in if len \<le> 1 then [] else take (len - 1) path)"

definition append_path_component :: "bytes \<Rightarrow> nat \<Rightarrow> bytes \<Rightarrow> bytes option" where
  "append_path_component out out_size name =
     (if out_size < 2 \<or> name = [] then None
      else if name = [dot] then Some out
      else if name = [dot, dot] then Some (pop_path_component out)
      else if out = [] then if length name + 2 > out_size then None else Some (slash # name)
      else if length out + 1 + length name + 1 > out_size then None
      else Some (out @ slash # name))"

function normalize_loop :: "bytes \<Rightarrow> bytes \<Rightarrow> nat \<Rightarrow> bytes option" where
  "normalize_loop p out out_size =
     (let p1 = dropWhile (\<lambda>c. c = slash) p in
      if p1 = [] then Some out
      else (case append_path_component out out_size (takeWhile (\<lambda>c. c \<noteq> slash) p1) of
              None \<Rightarrow> None
            | Some out1 \<Rightarrow> normalize_loop (dropWhile (\<lambda>c. c \<noteq> slash) p1) out1 out_size))"
  by pat_completeness auto
termination
proof (relation "measure (\<lambda>(p, _). length p)")
  fix p out1 :: bytes and out :: bytes and n :: nat and p1 :: bytes
  assume p1: "p1 = dropWhile (\<lambda>c. c = slash) p" and ne: "p1 \<noteq> []"
  from ne obtain c cs where c: "p1 = c # cs" by (cases p1) auto
  then have "c \<noteq> slash" using dropWhile_ConsD [of "\<lambda>c. c = slash" p c cs] p1 by simp
  then have "length (dropWhile (\<lambda>c. c \<noteq> slash) p1) \<le> length cs" using c by (simp add: length_dropWhile_le)
  also have "\<dots> < length p1" using c by simp
  also have "\<dots> \<le> length p" using p1 by (simp add: length_dropWhile_le)
  finally show "((dropWhile (\<lambda>c. c \<noteq> slash) p1, out1, n), (p, out, n)) \<in> measure (\<lambda>(p, _). length p)" by simp
qed simp

declare normalize_loop.simps [simp del]

definition normalize_absolute_path :: "bytes \<Rightarrow> nat \<Rightarrow> bytes option" where
  "normalize_absolute_path p out_size =
     (if out_size < 2 \<or> p = [] \<or> hd p \<noteq> slash then None
      else case normalize_loop p [] out_size of
             None \<Rightarrow> None
           | Some out \<Rightarrow> Some (if out = [] then [slash] else out))"

text \<open>The working directory is that of the current process, None if there is no process; the buffer for the
  combined path has 512 bytes.\<close>

definition resolve_kernel_path :: "bytes option \<Rightarrow> bytes \<Rightarrow> nat \<Rightarrow> bytes option" where
  "resolve_kernel_path proc_cwd path out_size =
     (if out_size < 2 \<or> path = [] then None
      else if hd path = slash then normalize_absolute_path path out_size
      else
        let cwd = (case proc_cwd of Some c \<Rightarrow> if c \<noteq> [] \<and> hd c = slash then c else [slash] | None \<Rightarrow> [slash]) in
        if cwd = [slash] then
          if 1 + length path + 1 > SYSCALL_PATH_MAX * 2 then None else normalize_absolute_path (slash # path) out_size
        else
          if length cwd + 1 + length path + 1 > SYSCALL_PATH_MAX * 2 then None
          else normalize_absolute_path (cwd @ slash # path) out_size)"

section \<open>Stacks of names\<close>

definition join :: "bytes list \<Rightarrow> bytes" where
  "join st = concat (map (\<lambda>c. slash # c) st)"

definition dots :: "bytes list \<Rightarrow> bytes \<Rightarrow> bytes list" where
  "dots st c = (if c = [dot] then st else if c = [dot, dot] then butlast st else st @ [c])"

definition real_name :: "bytes \<Rightarrow> bool" where
  "real_name c \<longleftrightarrow> c \<noteq> [] \<and> slash \<notin> set c \<and> c \<noteq> [dot] \<and> c \<noteq> [dot, dot]"

text \<open>The stack after every component, as long as all of them fit.\<close>

fun resolve_dots :: "nat \<Rightarrow> bytes list \<Rightarrow> bytes list \<Rightarrow> bytes list option" where
  "resolve_dots out_size st [] = Some st"
| "resolve_dots out_size st (c # cs) =
     (if length (join (dots st c)) + 1 > out_size then None else resolve_dots out_size (dots st c) cs)"

lemma join_simps [simp]: "join [] = []" "join (st @ [c]) = join st @ slash # c" "join (c # st) = slash # c @ join st"
  by (simp_all add: join_def)

lemma join_Nil_iff [simp]: "join st = [] \<longleftrightarrow> st = []"
  by (cases st) simp_all

lemma components_slashfree:
  assumes "slash \<notin> set c" "c \<noteq> []"
  shows "components (c @ slash # p) = c # components p" "components c = [c]"
proof -
  have c: "takeWhile (\<lambda>x. x \<noteq> slash) (c @ slash # p) = c" "dropWhile (\<lambda>x. x \<noteq> slash) (c @ slash # p) = slash # p"
    "takeWhile (\<lambda>x. x \<noteq> slash) c = c" "dropWhile (\<lambda>x. x \<noteq> slash) c = []"
    using assms(1) by (auto simp: takeWhile_append dropWhile_append)
  show "components (c @ slash # p) = c # components p" using split_on_takeWhile [of slash "c @ slash # p"] c assms(2)
    by (simp add: components_def)
  show "components c = [c]" using split_on_takeWhile [of slash c] c assms(2) by (simp add: components_def)
qed

lemma components_join: "\<forall>c \<in> set st. real_name c \<Longrightarrow> components (join st) = st"
proof (induction st)
  case (Cons c st)
  then show ?case
    by (cases st) (auto simp: real_name_def components_slashfree)
qed simp

lemma component_names: "c \<in> set (components p) \<Longrightarrow> c \<noteq> [] \<and> slash \<notin> set c"
proof -
  have "c \<in> set (split_on s p) \<Longrightarrow> s \<notin> set c" for s
    by (induction p arbitrary: c) (auto split: if_splits list.splits)
  then show "c \<in> set (components p) \<Longrightarrow> c \<noteq> [] \<and> slash \<notin> set c" by (auto simp: components_def)
qed

lemma pop_scan_join:
  assumes "slash \<notin> set c"
  shows "n \<le> length c \<Longrightarrow> pop_scan (q @ slash # c) (length q + 1 + n) = length q + 1"
proof (induction n)
  case 0
  then show ?case by (simp add: nth_append)
next
  case (Suc n)
  then have "(q @ slash # c) ! (length q + 1 + n) = c ! n" by (simp add: nth_append)
  moreover have "c ! n \<noteq> slash" using Suc.prems assms by (metis Suc_le_lessD nth_mem)
  ultimately show ?case using Suc by simp
qed

lemma pop_join: "\<forall>c \<in> set st. slash \<notin> set c \<Longrightarrow> pop_path_component (join st) = join (butlast st)"
proof (cases st rule: rev_cases)
  case (snoc st' c)
  assume "\<forall>c \<in> set st. slash \<notin> set c"
  then have "pop_scan (join st) (length (join st)) = length (join st') + 1"
    using pop_scan_join [of c "length c" "join st'"] snoc by simp
  then show ?thesis using snoc by (cases "st' = []") (auto simp: pop_path_component_def Let_def)
qed (simp add: pop_path_component_def)

lemma length_join_butlast: "length (join (butlast st)) \<le> length (join st)"
  by (cases st rule: rev_cases) simp_all

lemma append_join:
  assumes "\<forall>c \<in> set st. slash \<notin> set c" "c \<noteq> []" "2 \<le> n" "length (join st) < n"
  shows "append_path_component (join st) n c = (if length (join (dots st c)) + 1 > n then None else Some (join (dots st c)))"
  using assms pop_join [OF assms(1)] length_join_butlast [of st]
  by (auto simp: append_path_component_def dots_def)

lemma dots_slashfree: "\<forall>c \<in> set st. slash \<notin> set c \<Longrightarrow> slash \<notin> set c \<Longrightarrow> \<forall>c \<in> set (dots st c). slash \<notin> set c"
  by (auto simp: dots_def dest: in_set_butlastD)

lemma normalize_loop_join:
  assumes "\<forall>c \<in> set st. slash \<notin> set c" "2 \<le> n" "length (join st) < n"
  shows "normalize_loop p (join st) n = map_option join (resolve_dots n st (components p))"
  using assms
proof (induction "length p" arbitrary: p st rule: less_induct)
  case less
  let ?p1 = "dropWhile (\<lambda>c. c = slash) p"
  show ?case
  proof (cases ?p1)
    case Nil
    have "components p = []" using components_next [of p] unfolding Nil by simp
    then show ?thesis by (subst normalize_loop.simps) (simp add: Let_def Nil)
  next
    case (Cons d ds)
    let ?c = "takeWhile (\<lambda>c. c \<noteq> slash) ?p1" and ?r = "dropWhile (\<lambda>c. c \<noteq> slash) ?p1"
    have d: "d \<noteq> slash" using dropWhile_ConsD [OF Cons] .
    have ne: "?p1 \<noteq> []" unfolding Cons by simp
    have cp: "components p = ?c # components ?r" using components_next [of p] unfolding Cons by simp
    have c: "?c \<noteq> []" "slash \<notin> set ?c" using component_names [of ?c p] cp by auto
    have "length ?r \<le> length ds" unfolding Cons using d by (simp add: length_dropWhile_le)
    also have "\<dots> < length ?p1" unfolding Cons by simp
    also have "\<dots> \<le> length p" by (rule length_dropWhile_le)
    finally have l: "length ?r < length p" .
    have step: "normalize_loop p (join st) n = (case append_path_component (join st) n ?c of None \<Rightarrow> None
        | Some out1 \<Rightarrow> normalize_loop ?r out1 n)"
      by (subst normalize_loop.simps) (simp only: Let_def if_not_P [OF ne])
    show ?thesis
    proof (cases "length (join (dots st ?c)) + 1 > n")
      case True
      then show ?thesis unfolding step cp append_join [OF less.prems(1) c(1) less.prems(2,3)] by simp
    next
      case False
      then have "length (join (dots st ?c)) < n" by simp
      from less.hyps [OF l dots_slashfree [OF less.prems(1) c(2)] less.prems(2) this] False
      show ?thesis unfolding step cp append_join [OF less.prems(1) c(1) less.prems(2,3)] by simp
    qed
  qed
qed

section \<open>What the paths promise\<close>

lemma normalize_ref:
  "normalize_absolute_path p n =
     (if n < 2 \<or> p = [] \<or> hd p \<noteq> slash then None
      else map_option (\<lambda>st. if st = [] then [slash] else join st) (resolve_dots n [] (components p)))"
  using normalize_loop_join [of "[]" n p]
  by (auto simp: normalize_absolute_path_def split: option.splits)

lemma resolve_dots_foldl: "resolve_dots n st cs = Some st' \<Longrightarrow> st' = foldl dots st cs"
  by (induction cs arbitrary: st) (auto split: if_splits)

lemma resolve_dots_short: "length (join st) < n \<Longrightarrow> resolve_dots n st cs = Some st' \<Longrightarrow> length (join st') < n"
proof (induction cs arbitrary: st)
  case (Cons c cs)
  then have "length (join (dots st c)) < n" by (simp split: if_splits)
  then show ?case using Cons by (simp split: if_splits)
qed simp

lemma foldl_dots_real:
  "\<forall>c \<in> set st. real_name c \<Longrightarrow> \<forall>c \<in> set cs. c \<noteq> [] \<and> slash \<notin> set c \<Longrightarrow> \<forall>c \<in> set (foldl dots st cs). real_name c"
proof (induction cs arbitrary: st)
  case (Cons c cs)
  have "\<forall>x \<in> set (dots st c). real_name x"
    using Cons.prems by (auto simp: dots_def real_name_def dest: in_set_butlastD)
  then show ?case using Cons by simp
qed simp

lemma join_append [simp]: "join (st @ st') = join st @ join st'"
  by (simp add: join_def)

lemma resolve_dots_real:
  "\<forall>c \<in> set cs. real_name c \<Longrightarrow> length (join (st @ cs)) < n \<Longrightarrow> resolve_dots n st cs = Some (st @ cs)"
proof (induction cs arbitrary: st)
  case (Cons c cs)
  have "dots st c = st @ [c]" using Cons.prems(1) by (simp add: dots_def real_name_def)
  then show ?case using Cons.IH [of "st @ [c]"] Cons.prems by simp
qed simp

lemma normalize_result:
  assumes "normalize_absolute_path p n = Some q"
  shows "components q = foldl dots [] (components p)" "\<forall>c \<in> set (components q). real_name c"
    "q = (if components q = [] then [slash] else join (components q))" "length q < n"
    "normalize_absolute_path q n = Some q"
proof -
  obtain st where n: "\<not> n < 2" and r: "resolve_dots n [] (components p) = Some st"
    and q: "q = (if st = [] then [slash] else join st)"
    using assms by (auto simp: normalize_ref split: if_splits)
  have st: "st = foldl dots [] (components p)" by (rule resolve_dots_foldl [OF r])
  have real: "\<forall>c \<in> set st. real_name c" unfolding st by (rule foldl_dots_real) (use component_names in auto)
  have short: "length (join st) < n" by (rule resolve_dots_short [OF _ r]) (use n in simp)
  have cq: "components q = st" using q components_join [OF real] by auto
  then show "components q = foldl dots [] (components p)" "\<forall>c \<in> set (components q). real_name c" using st real by simp_all
  show "q = (if components q = [] then [slash] else join (components q))" unfolding cq by (rule q)
  show "length q < n" using q short n by simp
  have "q \<noteq> [] \<and> hd q = slash" using q by (cases st) auto
  then show "normalize_absolute_path q n = Some q"
    using n resolve_dots_real [OF real, of "[]" n] short q unfolding normalize_ref cq by simp
qed

text \<open>C25: a path of a system call is brought into normal form as its components say: a dot changes nothing, two dots
  drop the name before them (and nothing at the root), and every other component is appended, unless a path on
  the way does not fit into the buffer. The result fits, is absolute, has no empty component, no dots and no
  trailing slash, and normalising it again changes nothing.\<close>

theorem normalize_absolute_path_correct:
  "normalize_absolute_path p n =
     (if n < 2 \<or> p = [] \<or> hd p \<noteq> slash then None
      else map_option (\<lambda>st. if st = [] then [slash] else join st) (resolve_dots n [] (components p))) \<and>
   (\<forall>q. normalize_absolute_path p n = Some q \<longrightarrow>
      components q = foldl dots [] (components p) \<and> (\<forall>c \<in> set (components q). real_name c) \<and>
      q = (if components q = [] then [slash] else join (components q)) \<and> length q < n \<and>
      normalize_absolute_path q n = Some q)"
  using normalize_ref [of p n] normalize_result [of p n] by blast

theorem normalize_absolute_path_correct_witness:
  "normalize_absolute_path [slash, 0x61, slash, dot, dot, slash, slash, 0x62] 256 = Some [slash, 0x62]"
proof -
  have c: "components [0x61, slash, dot, dot, slash, slash, 0x62] = [[0x61], [dot, dot], [0x62]]"
    by (simp add: components_def)
  show ?thesis
    using conjunct1 [OF normalize_absolute_path_correct [of "[slash, 0x61, slash, dot, dot, slash, slash, 0x62]" 256]]
    by (simp add: c dots_def)
qed

text \<open>A relative path is resolved from the working directory.\<close>

lemma split_on_append: "split_on c (a @ c # b) = split_on c a @ split_on c b"
  by (induction a) (auto simp: split_on_nonempty split: list.split)

lemma components_append: "components (a @ slash # b) = components a @ components b"
  by (simp add: components_def split_on_append)

lemma resolve_kernel_relative:
  assumes "path \<noteq> []" "hd path \<noteq> slash" "resolve_kernel_path (Some cwd) path n = Some q" "cwd \<noteq> []" "hd cwd = slash"
  shows "components q = foldl dots (foldl dots [] (components cwd)) (components path)"
proof -
  have "normalize_absolute_path (cwd @ slash # path) n = Some q \<or> cwd = [slash] \<and> normalize_absolute_path (slash # path) n = Some q"
    using assms by (auto simp: resolve_kernel_path_def Let_def split: if_splits)
  then have "components q = foldl dots [] (components (cwd @ slash # path))"
    using normalize_result(1) by auto
  then show ?thesis by (simp add: components_append)
qed

end
