(* ===== verification/Umem.thy ===== *)
theory Umem
  imports Sched Upath "HOL-Library.Monad_Syntax"
begin

text \<open>
  The memory of user programs as the system calls of \<open>src/src/core/syscall.c\<close> see it. The kernel reads and writes user memory
  at its virtual address, through the page table in \<open>cr3\<close>; an access to a page that is not mapped, or a write to a page that is
  not writable, is a page fault, the value None. \<open>validate_user_buffer\<close> is what keeps the system calls from faults.
\<close>

unbundle bit_operations_syntax

abbreviation (input) USER_VADDR_MIN :: u64 where "USER_VADDR_MIN \<equiv> 0x1000"
abbreviation (input) USER_VADDR_MAX :: u64 where "USER_VADDR_MAX \<equiv> 0x800000000000"
abbreviation (input) KXE_MAX_ARGC :: nat where "KXE_MAX_ARGC \<equiv> 32"
abbreviation (input) KXE_ARG_MAX :: nat where "KXE_ARG_MAX \<equiv> 128"

section \<open>Access through the page table\<close>

definition translate :: "u64 \<Rightarrow> bool \<Rightarrow> ('m, 'v) kernel \<Rightarrow> u64 option" where
  "translate va w st =
     (case vmm_get_mapping (Some (cr3 (mmu st))) va (mmu st) of
        None \<Rightarrow> None
      | Some (phys, flags) \<Rightarrow> if w \<and> flags AND PAGE_WRITE = 0 then None else Some (phys + (va AND 0xFFF)))"

definition user_load :: "u64 \<Rightarrow> ('m, 'v) kernel \<Rightarrow> 8 word option" where
  "user_load va st = map_option (ram st) (translate va False st)"

definition user_store :: "u64 \<Rightarrow> 8 word \<Rightarrow> ('m, 'v) kernel \<Rightarrow> ('m, 'v) kernel option" where
  "user_store va b st = map_option (\<lambda>a. st\<lparr>ram := (ram st)(a := b)\<rparr>) (translate va True st)"

fun user_read :: "u64 \<Rightarrow> nat \<Rightarrow> ('m, 'v) kernel \<Rightarrow> bytes option" where
  "user_read a 0 st = Some []"
| "user_read a (Suc n) st = do { b \<leftarrow> user_load a st; bs \<leftarrow> user_read (a + 1) n st; Some (b # bs) }"

fun user_write :: "u64 \<Rightarrow> bytes \<Rightarrow> ('m, 'v) kernel \<Rightarrow> ('m, 'v) kernel option" where
  "user_write a [] st = Some st"
| "user_write a (b # bs) st = do { st1 \<leftarrow> user_store a b st; user_write (a + 1) bs st1 }"

section \<open>Checking user pointers\<close>

function validate_pages :: "u64 \<Rightarrow> u64 \<Rightarrow> u64 \<Rightarrow> bool \<Rightarrow> vmm_state \<Rightarrow> bool" where
  "validate_pages pt page last_page needs_write st =
     (case vmm_get_mapping (Some pt) page st of
        None \<Rightarrow> False
      | Some (_, flags) \<Rightarrow>
        if flags AND PAGE_USER = 0 then False
        else if needs_write \<and> flags AND PAGE_WRITE = 0 then False
        else if page = last_page then True
        else if page > 0xFFFFFFFFFFFFFFFF - 4096 then False
        else validate_pages pt (page + 4096) last_page needs_write st)"
  by pat_completeness auto
termination
proof (relation "measure (\<lambda>(pt, page, _). 2 ^ 64 - unat page)")
  fix page :: u64 assume "\<not> page > 0xFFFFFFFFFFFFFFFF - 4096"
  then have "unat page \<le> 0xFFFFFFFFFFFFFFFF - 4096" by (simp add: word_less_nat_alt)
  then have "unat (page + 4096) = unat page + 4096" by (simp add: unat_word_ariths)
  moreover have "unat page < 2 ^ 64" using \<open>unat page \<le> _\<close> by simp
  ultimately show "((pt, page + 4096, l, w, st), (pt, page, l, w, st)) \<in> measure (\<lambda>(pt, page, _). 2 ^ 64 - unat page)" for pt l w st
    by simp
qed simp

declare validate_pages.simps [simp del]

definition validate_user_buffer :: "u64 \<Rightarrow> u64 \<Rightarrow> bool \<Rightarrow> ('m, 'v) kernel \<Rightarrow> bool" where
  "validate_user_buffer addr len needs_write st =
     (if len = 0 then True
      else case process_current st of
        None \<Rightarrow> False
      | Some c \<Rightarrow>
        (case p_page_table (proc c st) of
           None \<Rightarrow> False
         | Some pt \<Rightarrow>
           if addr < USER_VADDR_MIN \<or> addr \<ge> USER_VADDR_MAX then False
           else if addr + len < addr \<or> addr + len > USER_VADDR_MAX then False
           else validate_pages pt (PAGE_ALIGN_DOWN addr) (PAGE_ALIGN_DOWN (addr + len - 1)) needs_write (mmu st)))"

text \<open>A string without its terminator, None inside when the string is refused.\<close>

fun copy_string_loop :: "nat \<Rightarrow> u64 \<Rightarrow> bytes \<Rightarrow> ('m, 'v) kernel \<Rightarrow> bytes option option" where
  "copy_string_loop 0 a out st = Some None"
| "copy_string_loop (Suc n) a out st =
     (if \<not> validate_user_buffer a 1 False st then Some None
      else do { b \<leftarrow> user_load a st; if b = 0 then Some (Some out) else copy_string_loop n (a + 1) (out @ [b]) st })"

definition copy_user_string :: "u64 \<Rightarrow> nat \<Rightarrow> ('m, 'v) kernel \<Rightarrow> bytes option option" where
  "copy_user_string user_str kernel_buf_size st =
     (if user_str = 0 \<or> kernel_buf_size = 0 then Some None else copy_string_loop kernel_buf_size user_str [] st)"

definition copy_user_path_resolved :: "u64 \<Rightarrow> ('m, 'v) kernel \<Rightarrow> bytes option option" where
  "copy_user_path_resolved user_path st = do {
     raw \<leftarrow> copy_user_string user_path SYSCALL_PATH_MAX st;
     Some (case raw of
             None \<Rightarrow> None
           | Some r \<Rightarrow> resolve_kernel_path (map_option (\<lambda>c. p_cwd (proc c st)) (process_current st)) r SYSCALL_PATH_MAX) }"

fun copy_argv_loop :: "u64 \<Rightarrow> nat \<Rightarrow> ('m, 'v) kernel \<Rightarrow> bytes list option option" where
  "copy_argv_loop a 0 st = Some (Some [])"
| "copy_argv_loop a (Suc n) st =
     (if \<not> validate_user_buffer a 8 False st then Some None
      else do {
        p \<leftarrow> user_read a 8 st;
        arg \<leftarrow> copy_user_string (of_nat (le_nat p)) KXE_ARG_MAX st;
        (case arg of
           None \<Rightarrow> Some None
         | Some s \<Rightarrow> do { rest \<leftarrow> copy_argv_loop (a + 8) n st; Some (map_option (Cons s) rest) }) })"

definition copy_user_argv :: "u64 \<Rightarrow> u64 \<Rightarrow> ('m, 'v) kernel \<Rightarrow> bytes list option option" where
  "copy_user_argv user_argv argc st =
     (if argc > of_nat KXE_MAX_ARGC \<or> (argc \<noteq> 0 \<and> user_argv = 0) then Some None else copy_argv_loop user_argv (unat argc) st)"

section \<open>What the checks guarantee\<close>

text \<open>The byte at an address is mapped for user programs, and writable if it has to be.\<close>

definition user_ok :: "u64 \<Rightarrow> u64 \<Rightarrow> bool \<Rightarrow> vmm_state \<Rightarrow> bool" where
  "user_ok pt va w st \<longleftrightarrow>
     (\<exists>p fl. vmm_get_mapping (Some pt) va st = Some (p, fl) \<and> fl AND PAGE_USER \<noteq> 0 \<and> (w \<longrightarrow> fl AND PAGE_WRITE \<noteq> 0))"

lemma align_nat: "PAGE_ALIGN_DOWN v = of_nat (unat v div 4096 * 4096)"
proof -
  have "v AND NOT (mask 12) = push_bit 12 (drop_bit 12 v)" by (rule bit_word_eqI) (auto simp: bit_simps)
  moreover have "(0xFFF :: u64) = mask 12" by (simp add: mask_eq_exp_minus_1)
  ultimately have "PAGE_ALIGN_DOWN v = push_bit 12 (drop_bit 12 v)" by (simp add: PAGE_ALIGN_DOWN_def)
  also have "\<dots> = of_nat (unat (drop_bit 12 v) * 4096)" by (simp add: push_bit_eq_mult)
  also have "unat (drop_bit 12 v) = unat v div 4096" unfolding unat_drop_bit_eq by (simp add: drop_bit_eq_div)
  finally show ?thesis .
qed

lemma unat_of_nat64: "n < 2 ^ 64 \<Longrightarrow> unat (of_nat n :: u64) = n"
  by (simp add: unat_of_nat take_bit_nat_eq_self)

lemma unat_align: "unat (PAGE_ALIGN_DOWN v) = unat v div 4096 * 4096"
proof -
  have "unat v div 4096 * 4096 < 2 ^ 64" using unsigned_less [of v, where ?'a = nat] by (simp add: div_times_less_eq_dividend le_less_trans)
  then show ?thesis unfolding align_nat by (rule unat_of_nat64)
qed

lemma page_offset: "v - PAGE_ALIGN_DOWN v = of_nat (unat v mod 4096)" "unat (v - PAGE_ALIGN_DOWN v) = unat v mod 4096"
proof -
  have "v = of_nat (unat v div 4096 * 4096 + unat v mod 4096)" by simp
  then show o: "v - PAGE_ALIGN_DOWN v = of_nat (unat v mod 4096)" unfolding align_nat by (metis add_diff_cancel_left' of_nat_add)
  have "unat v mod 4096 < 2 ^ 64" by (rule less_trans [OF mod_less_divisor]) simp_all
  then show "unat (v - PAGE_ALIGN_DOWN v) = unat v mod 4096" unfolding o by (rule unat_of_nat64)
qed

lemma align_align [simp]: "PAGE_ALIGN_DOWN (PAGE_ALIGN_DOWN v) = PAGE_ALIGN_DOWN v"
  by (simp add: PAGE_ALIGN_DOWN_def)

lemma user_ok_align: "user_ok pt (PAGE_ALIGN_DOWN v) w st = user_ok pt v w st"
  by (simp add: user_ok_def vmm_get_mapping_def)

lemma validate_pages_iff:
  assumes "a \<le> b" "b < 2 ^ 52"
  shows "validate_pages pt (of_nat (a * 4096)) (of_nat (b * 4096)) w st \<longleftrightarrow>
    (\<forall>j. a \<le> j \<and> j \<le> b \<longrightarrow> user_ok pt (of_nat (j * 4096)) w st)"
  using assms
proof (induction "b - a" arbitrary: a)
  case 0
  then have "j = b" if "a \<le> j \<and> j \<le> b" for j using that by simp
  then show ?case using 0
    by (subst validate_pages.simps) (auto simp: user_ok_def split: option.splits)
next
  case (Suc n)
  have ab: "a < b" using Suc.hyps(2) by simp
  have ua: "unat (of_nat (a * 4096) :: u64) = a * 4096" "unat (of_nat (b * 4096) :: u64) = b * 4096"
    using Suc.prems ab by (simp_all add: unat_of_nat64 del: of_nat_mult)
  have ne: "(of_nat (a * 4096) :: u64) \<noteq> of_nat (b * 4096)" using ua ab by (metis less_irrefl mult_less_cancel2 zero_less_numeral)
  have le: "\<not> (of_nat (a * 4096) :: u64) > 0xFFFFFFFFFFFFFFFF - 4096"
    using ab Suc.prems ua(1) by (simp add: word_less_nat_alt del: of_nat_mult)
  have nx: "(of_nat (a * 4096) :: u64) + 4096 = of_nat (Suc a * 4096)" by (simp add: algebra_simps)
  have "validate_pages pt p l w st \<longleftrightarrow> user_ok pt p w st \<and> validate_pages pt (p + 4096) l w st"
    if "p \<noteq> l" "\<not> p > 0xFFFFFFFFFFFFFFFF - 4096" for p l
    by (subst validate_pages.simps) (use that in \<open>auto simp: user_ok_def split: option.splits\<close>)
  from this [OF ne le] have "validate_pages pt (of_nat (a * 4096)) (of_nat (b * 4096)) w st \<longleftrightarrow>
      user_ok pt (of_nat (a * 4096)) w st \<and> validate_pages pt (of_nat (Suc a * 4096)) (of_nat (b * 4096)) w st" unfolding nx .
  also have "\<dots> \<longleftrightarrow> user_ok pt (of_nat (a * 4096)) w st \<and> (\<forall>j. Suc a \<le> j \<and> j \<le> b \<longrightarrow> user_ok pt (of_nat (j * 4096)) w st)"
    using Suc.hyps(1) [of "Suc a"] Suc.hyps(2) Suc.prems ab by (simp del: of_nat_mult of_nat_Suc)
  also have "\<dots> \<longleftrightarrow> (\<forall>j. a \<le> j \<and> j \<le> b \<longrightarrow> user_ok pt (of_nat (j * 4096)) w st)"
    using ab by (metis Suc_leD le_antisym less_or_eq_imp_le not_less_eq_eq)
  finally show ?case .
qed

text \<open>The range of bytes that a buffer covers.\<close>

lemma validate_range:
  assumes "0 < unat len" "unat addr + unat len \<le> 2 ^ 47"
  shows "validate_pages pt (PAGE_ALIGN_DOWN addr) (PAGE_ALIGN_DOWN (addr + len - 1)) w st \<longleftrightarrow>
    (\<forall>i < unat len. user_ok pt (addr + of_nat i) w st)"
proof -
  let ?a = "unat addr div 4096" and ?b = "(unat addr + unat len - 1) div 4096"
  have e: "addr + len - 1 = of_nat (unat addr + unat len - 1)"
    using assms(1) by (simp add: of_nat_diff)
  have ue: "unat (addr + len - 1) = unat addr + unat len - 1" unfolding e using assms(2) by (intro unat_of_nat64) simp
  have b: "?a \<le> ?b" "?b < 2 ^ 52" using assms by (auto intro!: div_le_mono)
  have at: "user_ok pt (addr + of_nat i) w st = user_ok pt (of_nat ((unat addr + i) div 4096 * 4096)) w st" if "i < unat len" for i
  proof -
    have "unat (addr + of_nat i) = unat addr + i"
      using that assms(2) unat_of_nat64 [of "unat addr + i"] by simp
    then show ?thesis using user_ok_align [of pt "addr + of_nat i" w st] by (simp add: align_nat)
  qed
  have "(\<forall>j. ?a \<le> j \<and> j \<le> ?b \<longrightarrow> user_ok pt (of_nat (j * 4096)) w st) \<longleftrightarrow> (\<forall>i < unat len. user_ok pt (addr + of_nat i) w st)"
  proof
    assume "\<forall>j. ?a \<le> j \<and> j \<le> ?b \<longrightarrow> user_ok pt (of_nat (j * 4096)) w st"
    then show "\<forall>i < unat len. user_ok pt (addr + of_nat i) w st" using at by (simp add: div_le_mono)
  next
    assume r: "\<forall>i < unat len. user_ok pt (addr + of_nat i) w st"
    show "\<forall>j. ?a \<le> j \<and> j \<le> ?b \<longrightarrow> user_ok pt (of_nat (j * 4096)) w st"
    proof (intro allI impI)
      fix j assume j: "?a \<le> j \<and> j \<le> ?b"
      let ?i = "max (j * 4096) (unat addr) - unat addr"
      have jl: "j * 4096 \<le> unat addr + unat len - 1" using j by (metis div_times_less_eq_dividend le_trans mult_le_mono1)
      have i: "?i < unat len" using jl assms(1) by linarith
      have "unat addr div 4096 = j" if "unat addr > j * 4096" using that j
        by (metis div_le_mono le_antisym less_or_eq_imp_le nonzero_mult_div_cancel_right zero_neq_numeral)
      then have "(unat addr + ?i) div 4096 = j" by (cases "unat addr > j * 4096") (simp_all add: max_def)
      then show "user_ok pt (of_nat (j * 4096)) w st" using r i at [OF i] by metis
    qed
  qed
  then show ?thesis using validate_pages_iff [OF b, of pt w st] by (simp add: align_nat ue)
qed

lemma validate_iff:
  "validate_user_buffer addr len w st \<longleftrightarrow> len = 0 \<or>
     (\<exists>c pt. g_current st = Some c \<and> p_page_table (proc c st) = Some pt \<and> 4096 \<le> unat addr \<and> unat addr + unat len \<le> 2 ^ 47 \<and>
        (\<forall>i < unat len. user_ok pt (addr + of_nat i) w (mmu st)))"
proof -
  have l: "0 < unat len" if "len \<noteq> 0" using that by (simp add: unat_gt_0)
  have r: "addr < 0x1000 \<or> addr \<ge> 0x800000000000 \<or> addr + len < addr \<or> addr + len > 0x800000000000 \<longleftrightarrow>
      \<not> (4096 \<le> unat addr \<and> unat addr + unat len \<le> 2 ^ 47)" if "len \<noteq> 0"
  proof -
    have "unat (addr + len) = (unat addr + unat len) mod 2 ^ 64" by (simp add: unat_word_ariths)
    moreover have "unat addr < 2 ^ 64" "unat len < 2 ^ 64" using unsigned_less [of addr] unsigned_less [of len] by simp_all
    ultimately have "addr + len < addr \<longleftrightarrow> unat addr + unat len \<ge> 2 ^ 64"
      "\<not> addr + len < addr \<Longrightarrow> unat (addr + len) = unat addr + unat len"
      using l [OF that] by (auto simp: word_less_nat_alt mod_if split: if_splits)
    then show ?thesis using l [OF that] by (auto simp: word_less_nat_alt word_le_nat_alt)
  qed
  show ?thesis
    using l r validate_range [of len addr] unfolding validate_user_buffer_def process_current_def
    by (auto split: option.split)
qed

text \<open>C23: \<open>validate_user_buffer\<close> decides exactly whether a buffer may be used. It accepts an empty buffer; any other buffer it accepts
  if and only if there is a current process with a page table, the range starts above the first page and ends within user space without
  wrapping around, and every byte of it is mapped for user programs, and writable where the call is going to write.\<close>

theorem validate_user_buffer_correct:
  "validate_user_buffer addr len w st \<longleftrightarrow> len = 0 \<or>
     (\<exists>c pt. g_current st = Some c \<and> p_page_table (proc c st) = Some pt \<and> 4096 \<le> unat addr \<and> unat addr + unat len \<le> 2 ^ 47 \<and>
        (\<forall>i < unat len. user_ok pt (addr + of_nat i) w (mmu st)))"
  by (rule validate_iff)

text \<open>The example machine with a page for the running process.\<close>

definition mapped_kernel :: "(unit, unit) kernel" where
  "mapped_kernel = example_kernel\<lparr>mmu := snd (vmm_map_page (Some 4096) 0x400000 0x7000 7 example_vmm)\<rparr>"

lemma mapped_kernel_ok:
  assumes "i < 8"
  shows "user_ok 4096 (0x400000 + of_nat i) True (mmu mapped_kernel)"
proof -
  have l: "fst (vmm_map_page (Some 4096) 0x400000 0x7000 7 example_vmm)"
    by (rule map_page_live [OF example_spaces_ok _ _ example_direct_map]) (simp_all add: example_free_pages)
  have "page_no (0x400000 + of_nat i) = page_no 0x400000"
  proof -
    have "PAGE_ALIGN_DOWN (0x400000 + of_nat i) = 0x400000"
    proof -
      have "unat (0x400000 + of_nat i :: u64) = 0x400000 + i" using assms unat_of_nat64 [of "0x400000 + i"] by simp
      moreover have "(0x400000 + i) div 4096 = 1024" using assms by simp
      ultimately show ?thesis by (simp add: align_nat)
    qed
    then show ?thesis by (metis page_no_align)
  qed
  moreover obtain m where m: "vmm_map_page (Some 4096) 0x400000 0x7000 7 example_vmm = (True, m)"
    using l by (metis prod.collapse)
  ultimately have "vmm_get_mapping (Some 4096) (0x400000 + of_nat i) m = Some (0x7000, 7)"
    using map_page_spec [OF example_spaces_ok _ _ _ m] by (simp add: PTE_GET_FLAGS_def)
  then show ?thesis by (simp add: user_ok_def mapped_kernel_def m)
qed

theorem validate_user_buffer_correct_witness:
  "validate_user_buffer 0x400000 8 True mapped_kernel \<and> \<not> validate_user_buffer 0 8 True mapped_kernel"
proof -
  have "g_current mapped_kernel = Some 1" "proc 1 mapped_kernel = proc 1 example_kernel" by (simp_all add: mapped_kernel_def proc_def)
  then show ?thesis unfolding validate_user_buffer_correct using mapped_kernel_ok by simp
qed

end
