(* ===== verification/Fd.thy ===== *)
theory Fd
  imports Umem
begin

text \<open>
  File descriptors (\<open>src/src/core/syscall.c\<close>): the table of each process, the pipes and vnodes its entries refer to, and the system
  calls that work on the table alone. A descriptor is named by the index of its process and its number. What keeps pipes and
  vnodes alive is the number of descriptors, in all processes, that refer to them.
\<close>

unbundle bit_operations_syntax

abbreviation (input) FD_FIRST_USER :: nat where "FD_FIRST_USER \<equiv> 3"
abbreviation (input) KIWI_O_RDONLY :: nat where "KIWI_O_RDONLY \<equiv> 0"
abbreviation (input) KIWI_O_WRONLY :: nat where "KIWI_O_WRONLY \<equiv> 1"
abbreviation (input) KIWI_O_RDWR :: nat where "KIWI_O_RDWR \<equiv> 2"
abbreviation (input) KIWI_O_ACCMODE :: nat where "KIWI_O_ACCMODE \<equiv> 3"
abbreviation (input) KIWI_O_APPEND :: nat where "KIWI_O_APPEND \<equiv> 0x400"

section \<open>Entries\<close>

definition process_fd_next_description_id :: "('m, 'v) kernel \<Rightarrow> nat \<times> ('m, 'v) kernel" where
  "process_fd_next_description_id st =
     (let n = g_next_fd_description_id st; n1 = (n + 1) mod 2 ^ 32 in
      if n = 0 then (n1, st\<lparr>g_next_fd_description_id := (n1 + 1) mod 2 ^ 32\<rparr>) else (n, st\<lparr>g_next_fd_description_id := n1\<rparr>))"

abbreviation (input) fd_at :: "nat \<Rightarrow> nat \<Rightarrow> ('m, 'v) kernel \<Rightarrow> process_fd" where
  "fd_at i k st \<equiv> p_fds (proc i st) ! k"

definition process_fd_lookup_used :: "nat \<Rightarrow> int \<Rightarrow> ('m, 'v) kernel \<Rightarrow> nat option" where
  "process_fd_lookup_used i fd st =
     (if fd < 0 \<or> fd \<ge> int PROC_MAX_FDS then None
      else if \<not> fe_used (fd_at i (nat fd) st) then None
      else Some (nat fd))"

definition process_fd_lookup :: "nat \<Rightarrow> int \<Rightarrow> ('m, 'v) kernel \<Rightarrow> nat option" where
  "process_fd_lookup i fd st =
     (case process_fd_lookup_used i fd st of
        None \<Rightarrow> None
      | Some k \<Rightarrow> let e = fd_at i k st in if fe_is_console e \<or> fe_is_pipe e \<or> fe_vnode e = None then None else Some k)"

definition process_fd_default_console :: "int \<Rightarrow> process_fd option" where
  "process_fd_default_console fd =
     (if fd < 0 \<or> fd > 2 then None
      else Some (zero_fd\<lparr>fe_used := True, fe_is_console := True, fe_console_fd := nat fd,
             fe_flags := (if fd = 0 then KIWI_O_RDONLY else KIWI_O_WRONLY)\<rparr>))"

definition process_fd_alloc :: "nat \<Rightarrow> nat \<Rightarrow> nat \<Rightarrow> nat \<Rightarrow> ('m, 'v) kernel \<Rightarrow> int \<times> ('m, 'v) kernel" where
  "process_fd_alloc i vn flags offset st =
     (case find (\<lambda>k. \<not> fe_used (fd_at i k st)) [FD_FIRST_USER..<PROC_MAX_FDS] of
        None \<Rightarrow> (-1, st)
      | Some k \<Rightarrow>
        let (d, st1) = process_fd_next_description_id st
        in (int k, upd_fd i k (\<lambda>_. zero_fd\<lparr>fe_used := True, fe_flags := flags, fe_description_id := d, fe_vnode := Some vn,
              fe_offset := offset\<rparr>) st1))"

definition process_fd_find_free :: "nat \<Rightarrow> int \<Rightarrow> ('m, 'v) kernel \<Rightarrow> int" where
  "process_fd_find_free i min_fd st =
     (if min_fd < 0 \<or> min_fd \<ge> int PROC_MAX_FDS then -1
      else case find (\<lambda>k. \<not> fe_used (fd_at i k st)) [nat min_fd..<PROC_MAX_FDS] of None \<Rightarrow> -1 | Some k \<Rightarrow> int k)"

definition process_fd_install_pipe :: "nat \<Rightarrow> nat \<Rightarrow> nat \<Rightarrow> bool \<Rightarrow> bool \<Rightarrow> ('m, 'v) kernel \<Rightarrow> ('m, 'v) kernel" where
  "process_fd_install_pipe i k pipe can_read can_write st =
     (let (d, st1) = process_fd_next_description_id st;
          st2 = upd_fd i k (\<lambda>_. zero_fd\<lparr>fe_used := True, fe_is_pipe := True, fe_pipe_read := can_read, fe_pipe_write := can_write,
                  fe_flags := (if can_read then KIWI_O_RDONLY else KIWI_O_WRONLY), fe_description_id := d, fe_pipe := Some pipe\<rparr>) st1
      in upd_pipe pipe (pipe_ref_endpoint can_read can_write) st2)"

definition process_fd_clear :: "nat \<Rightarrow> nat \<Rightarrow> ('m, 'v) kernel \<Rightarrow> ('m, 'v) kernel" where
  "process_fd_clear i k st =
     (if \<not> fe_used (fd_at i k st) then st
      else upd_fd i k (\<lambda>_. zero_fd) (syscall_fd_release_resources (fd_at i k st) st))"

text \<open>The entries of a process that share an open file.\<close>

definition sync_entries :: "nat \<Rightarrow> process_fd \<Rightarrow> (process_fd \<Rightarrow> process_fd) \<Rightarrow> ('m, 'v) kernel \<Rightarrow> ('m, 'v) kernel" where
  "sync_entries i src f st =
     (if fe_description_id src = 0 then st
      else upd_proc i (\<lambda>p. p\<lparr>p_fds := map (\<lambda>e. if \<not> fe_used e \<or> fe_is_console e \<or> fe_is_pipe e \<or>
             fe_description_id e \<noteq> fe_description_id src then e else f e) (p_fds p)\<rparr>) st)"

definition process_fd_sync_offset :: "nat \<Rightarrow> process_fd \<Rightarrow> nat \<Rightarrow> ('m, 'v) kernel \<Rightarrow> ('m, 'v) kernel" where
  "process_fd_sync_offset i src offset st = sync_entries i src (\<lambda>e. e\<lparr>fe_offset := offset\<rparr>) st"

definition process_fd_sync_flags :: "nat \<Rightarrow> process_fd \<Rightarrow> nat \<Rightarrow> ('m, 'v) kernel \<Rightarrow> ('m, 'v) kernel" where
  "process_fd_sync_flags i src flags st = sync_entries i src (\<lambda>e. e\<lparr>fe_flags := flags\<rparr>) st"

text \<open>The source is an entry other than the target, or a scratch entry, so it is passed by value.\<close>

definition process_fd_install_copy :: "nat \<Rightarrow> int \<Rightarrow> process_fd \<Rightarrow> ('m, 'v) kernel \<Rightarrow> bool \<times> ('m, 'v) kernel" where
  "process_fd_install_copy i target_fd src st =
     (if \<not> fe_used src \<or> target_fd < 0 \<or> target_fd \<ge> int PROC_MAX_FDS then (False, st)
      else
        let k = nat target_fd;
            st1 = upd_fd i k (\<lambda>_. src\<lparr>fe_fd_flags := 0\<rparr>) (process_fd_clear i k st)
        in (True,
            if fe_is_pipe src \<and> fe_pipe src \<noteq> None
            then upd_pipe (the (fe_pipe src)) (pipe_ref_endpoint (fe_pipe_read src) (fe_pipe_write src)) st1
            else if \<not> fe_is_console src \<and> fe_vnode src \<noteq> None then vnode_get (the (fe_vnode src)) st1
            else st1))"

definition process_fd_source :: "nat \<Rightarrow> int \<Rightarrow> ('m, 'v) kernel \<Rightarrow> process_fd option" where
  "process_fd_source i fd st =
     (case process_fd_lookup_used i fd st of
        Some k \<Rightarrow> Some (fd_at i k st)
      | None \<Rightarrow> process_fd_default_console fd)"

definition fd_can_read :: "process_fd \<Rightarrow> bool" where
  "fd_can_read e \<longleftrightarrow> fe_used e \<and> (let accmode = fe_flags e AND KIWI_O_ACCMODE in accmode = KIWI_O_RDONLY \<or> accmode = KIWI_O_RDWR)"

definition fd_can_write :: "process_fd \<Rightarrow> bool" where
  "fd_can_write e \<longleftrightarrow> fe_used e \<and> (let accmode = fe_flags e AND KIWI_O_ACCMODE in accmode = KIWI_O_WRONLY \<or> accmode = KIWI_O_RDWR)"

definition add_signed_offset :: "nat \<Rightarrow> int \<Rightarrow> nat option" where
  "add_signed_offset base delta =
     (if delta \<ge> 0 then
        let amount = nat delta in if base > 2 ^ 64 - 1 - amount then None else Some (base + amount)
      else
        let amount = nat (- (delta + 1)) + 1 in if amount > base then None else Some (base - amount))"

section \<open>System calls on descriptors\<close>

definition sys_close :: "int \<Rightarrow> ('m, 'v) kernel \<Rightarrow> int \<times> ('m, 'v) kernel" where
  "sys_close fd st =
     (case process_current st of
        None \<Rightarrow> (-1, st)
      | Some i \<Rightarrow>
        (case process_fd_lookup_used i fd st of
           None \<Rightarrow> (-1, st)
         | Some k \<Rightarrow> (0, process_fd_clear i k st)))"

text \<open>Copying an entry to the first free number from a minimum on.\<close>

definition dup_from :: "nat \<Rightarrow> nat \<Rightarrow> process_fd \<Rightarrow> ('m, 'v) kernel \<Rightarrow> int \<times> ('m, 'v) kernel" where
  "dup_from i min_fd src st =
     (case find (\<lambda>k. \<not> fe_used (fd_at i k st)) [min_fd..<PROC_MAX_FDS] of
        None \<Rightarrow> (-1, st)
      | Some k \<Rightarrow> let (ok, st1) = process_fd_install_copy i (int k) src st in (if ok then int k else -1, st1))"

definition sys_dup :: "int \<Rightarrow> ('m, 'v) kernel \<Rightarrow> int \<times> ('m, 'v) kernel" where
  "sys_dup oldfd st =
     (case process_current st of
        None \<Rightarrow> (-1, st)
      | Some i \<Rightarrow>
        (case process_fd_source i oldfd st of None \<Rightarrow> (-1, st) | Some src \<Rightarrow> dup_from i FD_FIRST_USER src st))"

definition sys_dup2 :: "int \<Rightarrow> int \<Rightarrow> ('m, 'v) kernel \<Rightarrow> int \<times> ('m, 'v) kernel" where
  "sys_dup2 oldfd newfd st =
     (case process_current st of
        None \<Rightarrow> (-1, st)
      | Some i \<Rightarrow>
        if newfd < 0 \<or> newfd \<ge> int PROC_MAX_FDS then (-1, st)
        else
          (case process_fd_source i oldfd st of
             None \<Rightarrow> (-1, st)
           | Some src \<Rightarrow>
             if oldfd = newfd then (newfd, st)
             else let (ok, st1) = process_fd_install_copy i newfd src st in (if ok then newfd else -1, st1)))"

definition sys_fcntl :: "int \<Rightarrow> int \<Rightarrow> u64 \<Rightarrow> ('m, 'v) kernel \<Rightarrow> int \<times> ('m, 'v) kernel" where
  "sys_fcntl fd cmd arg st =
     (case process_current st of
        None \<Rightarrow> (-1, st)
      | Some i \<Rightarrow>
        (case process_fd_source i fd st of
           None \<Rightarrow> (-1, st)
         | Some src \<Rightarrow>
           if cmd = 0 then (if arg \<ge> of_nat PROC_MAX_FDS then (-1, st) else dup_from i (unat arg) src st)
           else if cmd = 1 then (int (fe_fd_flags src AND 1), st)
           else if cmd = 2 then
             (if arg AND NOT 1 \<noteq> 0 then (-1, st)
              else case process_fd_lookup_used i fd st of
                     None \<Rightarrow> (if process_fd_default_console fd \<noteq> None then 0 else -1, st)
                   | Some k \<Rightarrow> (0, upd_fd i k (\<lambda>e. e\<lparr>fe_fd_flags := unat (arg AND 1)\<rparr>) st))
           else if cmd = 3 then (int (fe_flags src), st)
           else if cmd = 4 then
             (case process_fd_lookup_used i fd st of
                None \<Rightarrow> (0, st)
              | Some k \<Rightarrow>
                let e = fd_at i k st
                in (0, process_fd_sync_flags i e (unset_bit 10 (fe_flags e) OR (unat arg AND KIWI_O_APPEND)) st))
           else (-1, st)))"

definition sys_pipe :: "u64 \<Rightarrow> ('m, 'v) kernel \<Rightarrow> (int \<times> ('m, 'v) kernel) option" where
  "sys_pipe fds st =
     (case process_current st of
        None \<Rightarrow> Some (-1, st)
      | Some i \<Rightarrow>
        if fds = 0 \<or> \<not> validate_user_buffer fds 8 True st then Some (-1, st)
        else
          let read_fd = process_fd_find_free i (int FD_FIRST_USER) st in
          if read_fd < 0 then Some (-1, st)
          else
            let write_fd = process_fd_find_free i (read_fd + 1) st in
            if write_fd < 0 then Some (-1, st)
            else
              (case pipe_alloc (g_pipes st) of
                 None \<Rightarrow> Some (-1, st)
               | Some (p, pipes) \<Rightarrow>
                 let st1 = process_fd_install_pipe i (nat read_fd) p True False (st\<lparr>g_pipes := pipes\<rparr>);
                     st2 = process_fd_install_pipe i (nat write_fd) p False True st1
                 in do {
                   st3 \<leftarrow> user_write fds (bytes_le 4 (nat read_fd) @ bytes_le 4 (nat write_fd)) st2;
                   Some (0, st3) }))"

definition sys_seek :: "int \<Rightarrow> int \<Rightarrow> int \<Rightarrow> ('m, 'v) kernel \<Rightarrow> int \<times> ('m, 'v) kernel" where
  "sys_seek fd offset whence st =
     (case process_current st of
        None \<Rightarrow> (-1, st)
      | Some i \<Rightarrow>
        (case process_fd_lookup i fd st of
           None \<Rightarrow> (-1, st)
         | Some k \<Rightarrow>
           let e = fd_at i k st;
               base = (if whence = 0 then Some 0
                       else if whence = 1 then Some (fe_offset e)
                       else if whence = 2 then Some (case vnodes st (the (fe_vnode e)) of None \<Rightarrow> 0 | Some (_, vn) \<Rightarrow> vn_size vn)
                       else None) in
           (case base of
              None \<Rightarrow> (-1, st)
            | Some b \<Rightarrow>
              (case add_signed_offset b offset of
                 None \<Rightarrow> (-1, st)
               | Some n \<Rightarrow> if n > 2 ^ 63 - 1 then (-1, st) else (int n, process_fd_sync_offset i e n st)))))"

end
