(* ===== verification/Fsys.thy ===== *)
theory Fsys
  imports Fd
begin

text \<open>
  What the system calls and the loader use of the file systems: the functions of \<open>src/src/vfs/vfs.h\<close>, the operations that
  a vnode offers through its table \<open>vnode_ops_t\<close>, and the registry of devices. They are collected in a record over the mounts and
  the state of the file systems; \<open>kiwi_fs\<close> is the record for the virtual file system with KiFS, where the operations of the
  other driver are a parameter.
\<close>

text \<open>The context of \<open>readdir_index_cb\<close>: the directory entry that is asked for by number.\<close>

record kiwi_dirent =
  de_ino :: nat
  de_name :: bytes

record readdir_index_ctx =
  rc_want_index :: nat
  rc_cur_index :: nat
  rc_found :: bool
  rc_ent :: kiwi_dirent

record ('m, 'v) file_system =
  vf_resolve :: "bytes \<Rightarrow> 'v \<Rightarrow> ('m \<times> vnode) option \<times> 'v"
  vf_create :: "bytes \<Rightarrow> nat \<Rightarrow> 'v \<Rightarrow> ('m \<times> vnode) option \<times> 'v"
  vf_mkdir :: "bytes \<Rightarrow> nat \<Rightarrow> 'v \<Rightarrow> bool \<times> 'v"
  vf_unlink :: "bytes \<Rightarrow> 'v \<Rightarrow> bool \<times> 'v"
  vf_readdir :: "bytes \<Rightarrow> readdir_index_ctx readdir_cb \<Rightarrow> readdir_index_ctx \<Rightarrow> 'v \<Rightarrow> bool \<times> readdir_index_ctx \<times> 'v"
  vf_mount_dev :: "bytes \<Rightarrow> blockdev \<Rightarrow> 'v \<Rightarrow> bool \<times> 'v"
  vf_device_by_name :: "bytes \<Rightarrow> 'v \<Rightarrow> blockdev option \<times> 'v"
  vf_partition_device :: "nat \<Rightarrow> 'v \<Rightarrow> blockdev option \<times> 'v"
  vf_rescan :: "'v \<Rightarrow> nat \<times> 'v"
  vf_poll_hotplug :: "'v \<Rightarrow> 'v"
  vf_read :: "'m \<Rightarrow> (vnode \<Rightarrow> nat \<Rightarrow> nat \<Rightarrow> 'v \<Rightarrow> int \<times> bytes \<times> 'v) option"
  vf_write :: "'m \<Rightarrow> (vnode \<Rightarrow> nat \<Rightarrow> bytes \<Rightarrow> 'v \<Rightarrow> int \<times> vnode \<times> 'v) option"
  vf_truncate :: "'m \<Rightarrow> (vnode \<Rightarrow> nat \<Rightarrow> 'v \<Rightarrow> bool \<times> vnode \<times> 'v) option"
  vf_stat :: "'m \<Rightarrow> (vnode \<Rightarrow> 'v \<Rightarrow> vfs_stat option \<times> 'v) option"
  vf_readonly :: "'m \<Rightarrow> bool"

section \<open>The virtual file system with KiFS\<close>

text \<open>The operations of the other driver on open files, and what the drivers of devices do on a rescan.\<close>

record 'o driver_io =
  io_read :: "('o \<Rightarrow> vnode \<Rightarrow> nat \<Rightarrow> nat \<Rightarrow> kstate \<Rightarrow> int \<times> bytes \<times> kstate) option"
  io_write :: "('o \<Rightarrow> vnode \<Rightarrow> nat \<Rightarrow> bytes \<Rightarrow> kstate \<Rightarrow> int \<times> vnode \<times> kstate) option"
  io_truncate :: "('o \<Rightarrow> vnode \<Rightarrow> nat \<Rightarrow> kstate \<Rightarrow> bool \<times> vnode \<times> kstate) option"
  io_stat :: "('o \<Rightarrow> vnode \<Rightarrow> kstate \<Rightarrow> vfs_stat option \<times> kstate) option"

record bus =
  bus_pci :: "hw \<Rightarrow> hw"
  bus_usb_full :: "hw \<Rightarrow> hw"
  bus_usb :: "hw \<Rightarrow> hw"

definition on_ks :: "(kstate \<Rightarrow> 'r \<times> kstate) \<Rightarrow> ('p, 'u) vfs \<Rightarrow> 'r \<times> ('p, 'u) vfs" where
  "on_ks f v = (let (r, s) = f (ks v) in (r, v\<lparr>ks := s\<rparr>))"

definition on_ks2 :: "(kstate \<Rightarrow> 'a \<times> 'b \<times> kstate) \<Rightarrow> ('p, 'u) vfs \<Rightarrow> 'a \<times> 'b \<times> ('p, 'u) vfs" where
  "on_ks2 f v = (let (a, b, s) = f (ks v) in (a, b, v\<lparr>ks := s\<rparr>))"

definition kiwi_fs ::
  "bus \<Rightarrow> (kifs_fs + 'o, readdir_index_ctx) fs_driver \<Rightarrow> 'o driver_io \<Rightarrow>
    ((kifs_fs + 'o, readdir_index_ctx) vfs_mount, (kifs_fs + 'o, readdir_index_ctx) vfs) file_system" where
  "kiwi_fs b fat io = \<lparr>
     vf_resolve = vfs_resolve, vf_create = vfs_create, vf_mkdir = vfs_mkdir, vf_unlink = vfs_unlink, vf_readdir = vfs_readdir,
     vf_mount_dev = vfs_mount_dev (g_drivers fat),
     vf_device_by_name = (\<lambda>name. on_ks (on_blk (block_device_by_name (map (\<lambda>c. char_of (unat c)) name)))),
     vf_partition_device = (\<lambda>i. on_ks (on_blk (block_partition_device i))),
     vf_rescan = on_ks (on_blk (block_rescan (bus_pci b) (bus_usb_full b))),
     vf_poll_hotplug = (\<lambda>v. snd (on_ks (on_blk (block_poll_hotplug (bus_usb b))) v)),
     vf_read = (\<lambda>m. case m_private m of
        Inl fs \<Rightarrow> Some (\<lambda>vn off n. on_ks2 (kifs_vnode_read fs vn off n))
      | Inr p \<Rightarrow> map_option (\<lambda>f vn off n. on_ks2 (f p vn off n)) (io_read io)),
     vf_write = (\<lambda>m. case m_private m of
        Inl fs \<Rightarrow> Some (\<lambda>vn off bs. on_ks2 (kifs_vnode_write fs vn off bs))
      | Inr p \<Rightarrow> map_option (\<lambda>f vn off bs. on_ks2 (f p vn off bs)) (io_write io)),
     vf_truncate = (\<lambda>m. case m_private m of
        Inl fs \<Rightarrow> Some (\<lambda>vn sz. on_ks2 (kifs_vnode_truncate fs vn sz))
      | Inr p \<Rightarrow> map_option (\<lambda>f vn sz. on_ks2 (f p vn sz)) (io_truncate io)),
     vf_stat = (\<lambda>m. case m_private m of
        Inl fs \<Rightarrow> Some (\<lambda>vn. on_ks (kifs_vnode_stat fs vn))
      | Inr p \<Rightarrow> map_option (\<lambda>f vn. on_ks (f p vn)) (io_stat io)),
     vf_readonly = m_readonly\<rparr>"

section \<open>Calls of the kernel\<close>

text \<open>Running an operation on the state of the file systems.\<close>

definition on_fsys :: "('v \<Rightarrow> 'r \<times> 'v) \<Rightarrow> ('m, 'v) kernel \<Rightarrow> 'r \<times> ('m, 'v) kernel" where
  "on_fsys f st = (let (r, v) = f (fsys st) in (r, st\<lparr>fsys := v\<rparr>))"

definition on_fsys2 :: "('v \<Rightarrow> 'a \<times> 'b \<times> 'v) \<Rightarrow> ('m, 'v) kernel \<Rightarrow> 'a \<times> 'b \<times> ('m, 'v) kernel" where
  "on_fsys2 f st = (let (a, b, v) = f (fsys st) in (a, b, st\<lparr>fsys := v\<rparr>))"

text \<open>A vnode that a driver hands out is a new object.\<close>

definition new_vnode :: "'m \<Rightarrow> vnode \<Rightarrow> ('m, 'v) kernel \<Rightarrow> nat \<times> ('m, 'v) kernel" where
  "new_vnode m vn st = (vnode_next st, st\<lparr>vnodes := (vnodes st)(vnode_next st \<mapsto> (m, vn)), vnode_next := vnode_next st + 1\<rparr>)"

end
