(* ===== verification/Kxe.thy ===== *)
theory Kxe
  imports Fsys Crc32
begin

text \<open>
  The loader of executables (\<open>src/src/core/kxe.c\<close>): validation of the header page of a KXE image, loading of its sections into a new
  address space, and the initial stack with arguments and environment. The header and the section table are decoded from the bytes
  of the first page.
\<close>

unbundle bit_operations_syntax

abbreviation (input) KXE_HEADER_SIZE :: nat where "KXE_HEADER_SIZE \<equiv> 64"
abbreviation (input) KXE_SECTION_SIZE :: nat where "KXE_SECTION_SIZE \<equiv> 48"
abbreviation (input) KXE_MAX_SECTIONS :: nat where "KXE_MAX_SECTIONS \<equiv> 16"
abbreviation (input) KXE_HEADER_PAGE_SIZE :: nat where "KXE_HEADER_PAGE_SIZE \<equiv> 4096"
abbreviation (input) KXE_USER_STACK_TOP :: u64 where "KXE_USER_STACK_TOP \<equiv> 0x800000"
abbreviation (input) KXE_USER_STACK_PAGES :: nat where "KXE_USER_STACK_PAGES \<equiv> 16"
abbreviation (input) KXE_ENV_MAX :: nat where "KXE_ENV_MAX \<equiv> 128"

section \<open>The image\<close>

record kxe_header =
  kh_magic :: bytes
  kh_version_major :: u16
  kh_version_minor :: u16
  kh_flags :: u32
  kh_header_size :: u16
  kh_section_entry_size :: u16
  kh_section_count :: u16
  kh_abi_version :: u16
  kh_header_crc32 :: u32
  kh_entry_vaddr :: u64
  kh_section_table_offset :: u64
  kh_image_min_vaddr :: u64
  kh_image_max_vaddr :: u64
  kh_file_size :: u64

record kxe_section =
  ks_name :: bytes
  ks_type :: u16
  ks_flags :: u16
  ks_reserved :: u32
  ks_vaddr :: u64
  ks_vsize :: u64
  ks_file_offset :: u64
  ks_file_size :: u64

record kxe_image =
  ki_header :: kxe_header
  ki_sections :: "kxe_section list"

definition decode_kxe_header :: "bytes \<Rightarrow> kxe_header" where
  "decode_kxe_header b = \<lparr>kh_magic = slice 0 4 b, kh_version_major = get_u16 b 4, kh_version_minor = get_u16 b 6, kh_flags = get_u32 b 8,
     kh_header_size = get_u16 b 12, kh_section_entry_size = get_u16 b 14, kh_section_count = get_u16 b 16, kh_abi_version = get_u16 b 18,
     kh_header_crc32 = get_u32 b 20, kh_entry_vaddr = get_u64 b 24, kh_section_table_offset = get_u64 b 32,
     kh_image_min_vaddr = get_u64 b 40, kh_image_max_vaddr = get_u64 b 48, kh_file_size = get_u64 b 56\<rparr>"

definition decode_kxe_section :: "bytes \<Rightarrow> nat \<Rightarrow> kxe_section" where
  "decode_kxe_section b off = \<lparr>ks_name = slice off 8 b, ks_type = get_u16 b (off + 8), ks_flags = get_u16 b (off + 10),
     ks_reserved = get_u32 b (off + 12), ks_vaddr = get_u64 b (off + 16), ks_vsize = get_u64 b (off + 24),
     ks_file_offset = get_u64 b (off + 32), ks_file_size = get_u64 b (off + 40)\<rparr>"

definition u64_add_overflow :: "u64 \<Rightarrow> u64 \<Rightarrow> bool \<times> u64" where
  "u64_add_overflow a b = (a + b < a, a + b)"

definition u64_mul_overflow :: "u64 \<Rightarrow> u64 \<Rightarrow> u64 \<Rightarrow> bool \<times> u64" where
  "u64_mul_overflow a b old =
     (if a = 0 \<or> b = 0 then (False, 0) else if a > 0xFFFFFFFFFFFFFFFF div b then (True, old) else (False, a * b))"

definition addr_in_user_range :: "u64 \<Rightarrow> bool" where
  "addr_in_user_range a \<longleftrightarrow> a \<ge> USER_VADDR_MIN \<and> a < USER_VADDR_MAX"

definition range_contains :: "u64 \<Rightarrow> u64 \<Rightarrow> u64 \<Rightarrow> bool" where
  "range_contains start end_excl a \<longleftrightarrow> start \<le> a \<and> a < end_excl"

definition range_overlaps :: "u64 \<Rightarrow> u64 \<Rightarrow> u64 \<Rightarrow> u64 \<Rightarrow> bool" where
  "range_overlaps a_start a_end b_start b_end \<longleftrightarrow> a_start < b_end \<and> b_start < a_end"

definition PAGE_ALIGN_UP :: "u64 \<Rightarrow> u64" where
  "PAGE_ALIGN_UP a = (a + 0xFFF) AND NOT 0xFFF"

definition section_validate :: "kxe_header \<Rightarrow> kxe_section \<Rightarrow> u64 \<Rightarrow> bool" where
  "section_validate hdr sec actual_file_size =
     (if ks_type sec \<noteq> 1 \<and> ks_type sec \<noteq> 2 then False
      else if ks_flags sec AND NOT 7 \<noteq> 0 then False
      else if ks_reserved sec \<noteq> 0 then False
      else if ks_vsize sec = 0 then False
      else if ks_flags sec AND 6 = 6 then False
      else if ks_vaddr sec AND 0xFFF \<noteq> 0 then False
      else if \<not> addr_in_user_range (ks_vaddr sec) then False
      else
        let (ovf, sec_end) = u64_add_overflow (ks_vaddr sec) (ks_vsize sec) in
        if ovf then False
        else if sec_end > USER_VADDR_MAX then False
        else if ks_vaddr sec < kh_image_min_vaddr hdr \<or> sec_end > kh_image_max_vaddr hdr then False
        else if ks_type sec = 1 then
          if ks_file_size sec > ks_vsize sec then False
          else if ks_file_size sec > 0 \<and> ks_file_offset sec < of_nat KXE_HEADER_PAGE_SIZE then False
          else
            let (fovf, file_end) = u64_add_overflow (ks_file_offset sec) (ks_file_size sec) in
            if fovf then False else if file_end > actual_file_size then False else True
        else ks_file_size sec = 0)"

text \<open>A section against those before it: no overflow and no page in common.\<close>

definition section_apart :: "kxe_section \<Rightarrow> kxe_section \<Rightarrow> bool" where
  "section_apart sec other =
     (let (ovf, other_end) = u64_add_overflow (ks_vaddr other) (ks_vsize other) in
      \<not> ovf \<and> \<not> range_overlaps (PAGE_ALIGN_DOWN (ks_vaddr sec)) (PAGE_ALIGN_UP (ks_vaddr sec + ks_vsize sec))
                  (PAGE_ALIGN_DOWN (ks_vaddr other)) (PAGE_ALIGN_UP other_end))"

fun validate_sections :: "kxe_header \<Rightarrow> bytes \<Rightarrow> nat list \<Rightarrow> kxe_section list \<Rightarrow> bool \<Rightarrow> (kxe_section list \<times> bool) option" where
  "validate_sections hdr page [] secs found = Some (secs, found)"
| "validate_sections hdr page (i # is) secs found =
     (let entry_off = kh_section_table_offset hdr + of_nat i * ucast (kh_section_entry_size hdr);
          sec = decode_kxe_section page (unat entry_off) in
      if \<not> section_validate hdr sec (kh_file_size hdr) then None
      else
        let (ovf, sec_end) = u64_add_overflow (ks_vaddr sec) (ks_vsize sec) in
        if ovf then None
        else if \<not> list_all (section_apart sec) secs then None
        else validate_sections hdr page is (secs @ [sec])
               (found \<or> (ks_flags sec AND 4 \<noteq> 0 \<and> range_contains (ks_vaddr sec) sec_end (kh_entry_vaddr hdr))))"

definition kxe_validate :: "bytes \<Rightarrow> u64 \<Rightarrow> kxe_image option" where
  "kxe_validate page actual_file_size =
     (if actual_file_size < of_nat KXE_HEADER_PAGE_SIZE then None
      else
        let hdr = decode_kxe_header page in
        if kh_magic hdr \<noteq> [0x4B, 0x58, 0x45, 0] then None
        else if kh_version_major hdr \<noteq> 0 \<or> kh_version_minor hdr \<noteq> 1 then None
        else if kh_flags hdr \<noteq> 0 then None
        else if kh_header_size hdr \<noteq> of_nat KXE_HEADER_SIZE \<or> kh_section_entry_size hdr \<noteq> of_nat KXE_SECTION_SIZE then None
        else if kh_section_count hdr = 0 \<or> kh_section_count hdr > of_nat KXE_MAX_SECTIONS then None
        else if kh_section_table_offset hdr < ucast (kh_header_size hdr) then None
        else
          let (movf, table_bytes) = u64_mul_overflow (ucast (kh_section_count hdr)) (ucast (kh_section_entry_size hdr)) 0 in
          if movf then None
          else
            let (aovf, table_end) = u64_add_overflow (kh_section_table_offset hdr) table_bytes in
            if aovf then None
            else if table_end > of_nat KXE_HEADER_PAGE_SIZE then None
            else if \<not> addr_in_user_range (kh_image_min_vaddr hdr) \<or> kh_image_max_vaddr hdr > USER_VADDR_MAX \<or>
                    kh_image_min_vaddr hdr \<ge> kh_image_max_vaddr hdr then None
            else if actual_file_size < kh_file_size hdr then None
            else if crc32_ieee (splice 20 [0, 0, 0, 0] (take KXE_HEADER_SIZE page)) \<noteq> kh_header_crc32 hdr then None
            else
              (case validate_sections hdr page [0..<unat (kh_section_count hdr)] [] False of
                 None \<Rightarrow> None
               | Some (secs, found) \<Rightarrow> if found then Some \<lparr>ki_header = hdr, ki_sections = secs\<rparr> else None))"

section \<open>Loading\<close>

text \<open>The part of the path behind the last slash or backslash.\<close>

definition path_basename :: "bytes option \<Rightarrow> bytes" where
  "path_basename path =
     (case path of
        None \<Rightarrow> [0x70, 0x72, 0x6F, 0x63]
      | Some p \<Rightarrow> let l = rev (takeWhile (\<lambda>c. c \<noteq> 0x2F \<and> c \<noteq> 0x5C) (rev p)) in if l \<noteq> [] then l else [0x70, 0x72, 0x6F, 0x63])"

text \<open>Reading until everything is there; what has been read so far is \<open>out\<close>.\<close>

function read_exact_loop :: "(nat \<Rightarrow> nat \<Rightarrow> 'v \<Rightarrow> int \<times> bytes \<times> 'v) \<Rightarrow> nat \<Rightarrow> nat \<Rightarrow> nat \<Rightarrow> bytes \<Rightarrow> 'v \<Rightarrow> bytes option \<times> 'v" where
  "read_exact_loop rd offset len done out v =
     (if done < len then
        let (n, bs, v1) = rd (offset + done) (len - done) v in
        if n \<le> 0 then (None, v1) else read_exact_loop rd offset len (done + nat n) (out @ bs) v1
      else (Some out, v))"
  by pat_completeness auto
termination by (relation "measure (\<lambda>(rd, offset, len, done, out, v). len - done)") auto

declare read_exact_loop.simps [simp del]

definition vnode_read_exact :: "('m, 'v) file_system \<Rightarrow> 'm \<times> vnode \<Rightarrow> nat \<Rightarrow> nat \<Rightarrow> 'v \<Rightarrow> bytes option \<times> 'v" where
  "vnode_read_exact fs file offset len v =
     (case vf_read fs (fst file) of
        None \<Rightarrow> (None, v)
      | Some rd \<Rightarrow> read_exact_loop (rd (snd file)) offset len 0 [] v)"

text \<open>\<open>memcpy\<close> to the direct map.\<close>

definition poke :: "u64 \<Rightarrow> bytes \<Rightarrow> ('m, 'v) kernel \<Rightarrow> ('m, 'v) kernel" where
  "poke a bs st = st\<lparr>ram := (\<lambda>x. if unat (x - a) < length bs then bs ! unat (x - a) else ram st x)\<rparr>"

definition kxe_load_section :: "('m, 'v) file_system \<Rightarrow> nat \<Rightarrow> 'm \<times> vnode \<Rightarrow> kxe_section \<Rightarrow> ('m, 'v) kernel \<Rightarrow> bool \<times> ('m, 'v) kernel" where
  "kxe_load_section fs i file sec st =
     (let mapped_bytes = PAGE_ALIGN_UP (ks_vsize sec) in
      case p_page_table (proc i st) of
        None \<Rightarrow> (False, st)
      | Some pt \<Rightarrow>
        if mapped_bytes = 0 then (False, st)
        else
          let page_count = unat mapped_bytes div PAGE_SIZE;
              (phys_base, p) = pmm_alloc_pages page_count (vm_pmm (mmu st)); st1 = upd_pmm (\<lambda>_. p) st in
          if phys_base = 0 then (False, st1)
          else
            let st2 = clear_ram phys_base (unat mapped_bytes) st1;
                (ok, st3) =
                  (if ks_type sec = 1 \<and> ks_file_size sec > 0 then
                     let (r, s) = on_fsys (vnode_read_exact fs file (unat (ks_file_offset sec)) (unat (ks_file_size sec))) st2 in
                     (case r of None \<Rightarrow> (False, s) | Some bs \<Rightarrow> (True, poke (of_nat phys_base) bs s))
                   else (True, st2)) in
            if \<not> ok then (False, upd_pmm (pmm_free_pages phys_base page_count) st3)
            else
              let map_flags = (if ks_flags sec AND 2 \<noteq> 0 then PAGE_PRESENT OR PAGE_USER OR PAGE_WRITE else PAGE_PRESENT OR PAGE_USER);
                  (mapped, m) = map_run pt (\<lambda>j. ks_vaddr sec + of_nat (j * PAGE_SIZE)) (\<lambda>j. of_nat (phys_base + j * PAGE_SIZE))
                                  map_flags [] [0..<page_count] (mmu st3);
                  st4 = st3\<lparr>mmu := m\<rparr>
              in if mapped then (True, st4) else (False, upd_pmm (pmm_free_pages phys_base page_count) st4))"

section \<open>The initial stack\<close>

function write_user_loop :: "u64 \<Rightarrow> u64 \<Rightarrow> bytes \<Rightarrow> ('m, 'v) kernel \<Rightarrow> bool \<times> ('m, 'v) kernel" where
  "write_user_loop pt va bs st =
     (if bs = [] then (True, st)
      else
        let page = PAGE_ALIGN_DOWN va; off = va - page; phys = vmm_get_physical (Some pt) page (mmu st) in
        if phys = 0 then (False, st)
        else
          let chunk = min (PAGE_SIZE - unat off) (length bs)
          in write_user_loop pt (va + of_nat chunk) (drop chunk bs) (poke (phys + off) (take chunk bs) st))"
  by pat_completeness auto
termination
  by (relation "measure (\<lambda>(pt, va, bs, st). length bs)") (simp_all add: page_offset(2))

declare write_user_loop.simps [simp del]

definition write_user_bytes :: "nat \<Rightarrow> u64 \<Rightarrow> bytes \<Rightarrow> ('m, 'v) kernel \<Rightarrow> bool \<times> ('m, 'v) kernel" where
  "write_user_bytes i user_va src st =
     (case p_page_table (proc i st) of None \<Rightarrow> (False, st) | Some pt \<Rightarrow> write_user_loop pt user_va src st)"

definition push_user_u64 :: "nat \<Rightarrow> u64 \<Rightarrow> u64 \<Rightarrow> ('m, 'v) kernel \<Rightarrow> u64 option \<times> ('m, 'v) kernel" where
  "push_user_u64 i sp val st =
     (if sp < USER_VADDR_MIN + 8 then (None, st)
      else let (ok, st1) = write_user_bytes i (sp - 8) (bytes_le 8 (unat val)) st in (if ok then Some (sp - 8) else None, st1))"

fun push_words :: "nat \<Rightarrow> u64 list \<Rightarrow> u64 \<Rightarrow> ('m, 'v) kernel \<Rightarrow> u64 option \<times> ('m, 'v) kernel" where
  "push_words i [] sp st = (Some sp, st)"
| "push_words i (w # ws) sp st =
     (case push_user_u64 i sp w st of (None, st1) \<Rightarrow> (None, st1) | (Some sp1, st1) \<Rightarrow> push_words i ws sp1 st1)"

text \<open>Strings from the last to the first, with the pointers to them.\<close>

fun push_strings :: "nat \<Rightarrow> nat \<Rightarrow> u64 \<Rightarrow> bytes list \<Rightarrow> u64 \<Rightarrow> u64 list \<Rightarrow> ('m, 'v) kernel \<Rightarrow> (u64 list \<times> u64) option \<times> ('m, 'v) kernel" where
  "push_strings i max_len base [] sp ptrs st = (Some (ptrs, sp), st)"
| "push_strings i max_len base (s # ss) sp ptrs st =
     (let len = length s + 1 in
      if len > max_len \<or> sp < base + of_nat len then (None, st)
      else
        let (ok, st1) = write_user_bytes i (sp - of_nat len) (s @ [0]) st
        in if ok then push_strings i max_len base ss (sp - of_nat len) ((sp - of_nat len) # ptrs) st1 else (None, st1))"

definition default_env :: "bytes list" where
  "default_env =
     [[0x54, 0x45, 0x52, 0x4D, 0x3D, 0x78, 0x74, 0x65, 0x72, 0x6D],
      [0x48, 0x4F, 0x4D, 0x45, 0x3D, 0x2F, 0x68, 0x6F, 0x6D, 0x65],
      [0x50, 0x41, 0x54, 0x48, 0x3D, 0x2F, 0x62, 0x69, 0x6E, 0x3A, 0x2F],
      [0x53, 0x48, 0x45, 0x4C, 0x4C, 0x3D, 0x2F, 0x62, 0x69, 0x6E, 0x2F, 0x73, 0x68],
      [0x55, 0x53, 0x45, 0x52, 0x3D, 0x72, 0x6F, 0x6F, 0x74]]"

definition stack_base :: u64 where
  "stack_base = KXE_USER_STACK_TOP - of_nat (KXE_USER_STACK_PAGES * PAGE_SIZE)"

definition kxe_setup_initial_stack :: "nat \<Rightarrow> bytes list \<Rightarrow> ('m, 'v) kernel \<Rightarrow> u64 option \<times> ('m, 'v) kernel" where
  "kxe_setup_initial_stack i argv st =
     (if length argv > KXE_MAX_ARGC then (None, st)
      else
        (case push_strings i KXE_ENV_MAX stack_base (rev default_env) KXE_USER_STACK_TOP [] st of
           (None, st1) \<Rightarrow> (None, st1)
         | (Some (env_ptrs, sp1), st1) \<Rightarrow>
           (case push_strings i KXE_ARG_MAX stack_base (rev argv) sp1 [] st1 of
              (None, st2) \<Rightarrow> (None, st2)
            | (Some (arg_ptrs, sp2), st2) \<Rightarrow>
              (case push_words i ([0] @ rev env_ptrs @ [0] @ rev arg_ptrs @ [of_nat (length argv)]) (sp2 AND NOT 7) st2 of
                 (None, st3) \<Rightarrow> (None, st3)
               | (Some sp, st3) \<Rightarrow> (if sp < stack_base then None else Some sp, st3)))))"

section \<open>The loader\<close>

fun load_sections :: "('m, 'v) file_system \<Rightarrow> nat \<Rightarrow> 'm \<times> vnode \<Rightarrow> kxe_section list \<Rightarrow> ('m, 'v) kernel \<Rightarrow> bool \<times> ('m, 'v) kernel" where
  "load_sections fs i file [] st = (True, st)"
| "load_sections fs i file (sec # secs) st =
     (let (ok, st1) = kxe_load_section fs i file sec st in if ok then load_sections fs i file secs st1 else (False, st1))"

text \<open>The process with its image and its stack; None when it cannot be built, and then it is destroyed.\<close>

definition build_process :: "('m, 'v) file_system \<Rightarrow> nat \<Rightarrow> 'm \<times> vnode \<Rightarrow> kxe_image \<Rightarrow> bytes list \<Rightarrow> ('m, 'v) kernel \<Rightarrow> nat option \<times> ('m, 'v) kernel" where
  "build_process fs i file img argv st =
     (let (loaded, st1) = load_sections fs i file (ki_sections img) st in
      if \<not> loaded then (None, process_destroy i st1)
      else
        let (ok, st2) = process_map_user_stack i KXE_USER_STACK_TOP KXE_USER_STACK_PAGES st1 in
        if \<not> ok then (None, process_destroy i st2)
        else
          (case kxe_setup_initial_stack i argv st2 of
             (None, st3) \<Rightarrow> (None, process_destroy i st3)
           | (Some sp, st3) \<Rightarrow>
             let brk = PAGE_ALIGN_UP (kh_image_max_vaddr (ki_header img))
             in (Some i, upd_proc i (\<lambda>p. p\<lparr>p_context := (p_context p)\<lparr>c_rsp := sp, c_rip := kh_entry_vaddr (ki_header img), c_rflags := 0x202\<rparr>,
                   p_brk_base := brk, p_brk_current := brk, p_state := PROC_READY\<rparr>) st3)))"

definition kxe_load_argv :: "('m, 'v) file_system \<Rightarrow> bytes option \<Rightarrow> bytes list \<Rightarrow> ('m, 'v) kernel \<Rightarrow> nat option \<times> ('m, 'v) kernel" where
  "kxe_load_argv fs path argv st =
     (case path of
        None \<Rightarrow> (None, st)
      | Some p \<Rightarrow>
        if p = [] \<or> hd p \<noteq> slash then (None, st)
        else
          let (r, st1) = on_fsys (vf_resolve fs p) st in
          (case r of
             None \<Rightarrow> (None, st1)
           | Some file \<Rightarrow>
             if vn_type (snd file) \<noteq> VNODE_FILE \<or> vf_read fs (fst file) = None then (None, st1)
             else
               let (ok1, st2) = kcalloc_ok st1; (ok2, st3) = kcalloc_ok st2 in
               if \<not> ok1 \<or> \<not> ok2 then (None, st3)
               else
                 let (h, st4) = on_fsys (vnode_read_exact fs file 0 KXE_HEADER_PAGE_SIZE) st3 in
                 (case h of
                    None \<Rightarrow> (None, st4)
                  | Some page \<Rightarrow>
                    (case kxe_validate page (of_nat (vn_size (snd file))) of
                       None \<Rightarrow> (None, st4)
                     | Some img \<Rightarrow>
                       if kh_image_max_vaddr (ki_header img) > stack_base then (None, st4)
                       else
                         (case process_create (Some (path_basename path)) st4 of
                            (None, st5) \<Rightarrow> (None, st5)
                          | (Some i, st5) \<Rightarrow> build_process fs i file img argv st5)))))"

definition kxe_load :: "('m, 'v) file_system \<Rightarrow> bytes option \<Rightarrow> ('m, 'v) kernel \<Rightarrow> nat option \<times> ('m, 'v) kernel" where
  "kxe_load fs path st = kxe_load_argv fs path [path_basename path] st"

end
