(* ===== verification/Kxe_Props.thy ===== *)
theory Kxe_Props
  imports Kxe
begin

text \<open>
  What the validation of executables (\<open>kxe_validate\<close> of \<open>core/kxe.c\<close>) guarantees: an image that passes has page-aligned sections in
  user space and inside the file that share no page, none both writable and executable, and its entry point lies in an executable section.
\<close>

unbundle bit_operations_syntax

section \<open>Validated images\<close>

text \<open>The pages that a section occupies.\<close>

definition section_pages :: "kxe_section \<Rightarrow> nat set" where
  "section_pages s = {unat (ks_vaddr s) div 4096..(unat (ks_vaddr s) + unat (ks_vsize s) - 1) div 4096}"

definition section_sound :: "kxe_header \<Rightarrow> kxe_section \<Rightarrow> bool" where
  "section_sound h s \<longleftrightarrow> ks_flags s AND 6 \<noteq> 6 \<and> unat (ks_vaddr s) mod 4096 = 0 \<and> 4096 \<le> unat (ks_vaddr s) \<and> 0 < unat (ks_vsize s) \<and>
     unat (ks_vaddr s) + unat (ks_vsize s) \<le> 2 ^ 47 \<and>
     unat (kh_image_min_vaddr h) \<le> unat (ks_vaddr s) \<and> unat (ks_vaddr s) + unat (ks_vsize s) \<le> unat (kh_image_max_vaddr h) \<and>
     ks_file_size s \<le> ks_vsize s \<and>
     (ks_file_size s \<noteq> 0 \<longrightarrow> 4096 \<le> unat (ks_file_offset s) \<and> unat (ks_file_offset s) + unat (ks_file_size s) \<le> unat (kh_file_size h))"

lemma add_no_overflow: "\<not> (a + b < (a :: u64)) \<longleftrightarrow> unat a + unat b < 2 ^ 64"
proof -
  have "unat (a + b) = (unat a + unat b) mod 2 ^ 64" by (simp add: unat_word_ariths)
  moreover have "unat a < 2 ^ 64" "unat b < 2 ^ 64" using unsigned_less [of a, where ?'a = nat] unsigned_less [of b, where ?'a = nat] by simp_all
  ultimately show ?thesis by (auto simp: word_less_nat_alt mod_if split: if_splits)
qed

lemma unat_add_small: "unat a + unat b < 2 ^ 64 \<Longrightarrow> unat (a + b :: u64) = unat a + unat b"
  by (simp add: unat_word_ariths)

lemma section_validate_sound:
  assumes "section_validate h s (kh_file_size h)"
  shows "section_sound h s"
proof -
  have f: "ks_flags s AND 6 \<noteq> 6" "ks_vsize s \<noteq> 0" "ks_vaddr s AND 0xFFF = 0" "addr_in_user_range (ks_vaddr s)"
      "\<not> ks_vaddr s + ks_vsize s < ks_vaddr s" "\<not> ks_vaddr s + ks_vsize s > 0x800000000000"
      "\<not> ks_vaddr s < kh_image_min_vaddr h" "\<not> ks_vaddr s + ks_vsize s > kh_image_max_vaddr h"
    using assms by (auto simp: section_validate_def u64_add_overflow_def Let_def split: if_splits)
  have t: "if ks_type s = 1 then \<not> ks_file_size s > ks_vsize s \<and> (ks_file_size s > 0 \<longrightarrow> \<not> ks_file_offset s < 4096) \<and>
      \<not> ks_file_offset s + ks_file_size s < ks_file_offset s \<and> \<not> ks_file_offset s + ks_file_size s > kh_file_size h
      else ks_file_size s = 0"
    using assms by (auto simp: section_validate_def u64_add_overflow_def Let_def split: if_splits)
  have m: "(0xFFF :: u64) = mask 12" by (simp add: mask_eq_exp_minus_1)
  have "unat (ks_vaddr s AND mask 12) = take_bit 12 (unat (ks_vaddr s))" by (simp only: take_bit_eq_mask [symmetric] unsigned_take_bit_eq)
  then have "unat (ks_vaddr s) mod 4096 = unat (ks_vaddr s AND mask 12)" by (simp add: take_bit_eq_mod)
  then have al: "unat (ks_vaddr s) mod 4096 = 0" using f(3) by (simp add: m)
  have e: "unat (ks_vaddr s + ks_vsize s) = unat (ks_vaddr s) + unat (ks_vsize s)"
    using f(5) by (simp add: add_no_overflow unat_add_small)
  have fe: "unat (ks_file_offset s + ks_file_size s) = unat (ks_file_offset s) + unat (ks_file_size s)" if "ks_type s = 1"
    using t that by (simp add: add_no_overflow unat_add_small)
  show ?thesis unfolding section_sound_def
    using f al e fe t by (auto simp: addr_in_user_range_def word_less_nat_alt word_le_nat_alt unat_gt_0 split: if_splits)
qed

lemma align_up_nat:
  assumes "unat a < 2 ^ 63"
  shows "unat (PAGE_ALIGN_UP a) = (unat a + 4095) div 4096 * 4096"
proof -
  have "unat (a + 0xFFF) = unat a + 4095" using assms unat_add_small [of a "0xFFF"] by simp
  then show ?thesis using unat_align [of "a + 0xFFF"] by (simp add: PAGE_ALIGN_UP_def PAGE_ALIGN_DOWN_def)
qed

lemma section_apart_pages:
  assumes "section_apart s o'" "section_sound h s" "section_sound h o'"
  shows "section_pages s \<inter> section_pages o' = {}"
proof -
  let ?a = "unat (ks_vaddr s)" and ?n = "unat (ks_vsize s)" and ?b = "unat (ks_vaddr o')" and ?m = "unat (ks_vsize o')"
  have s: "?a mod 4096 = 0" "0 < ?n" "?a + ?n \<le> 2 ^ 47" and o: "?b mod 4096 = 0" "0 < ?m" "?b + ?m \<le> 2 ^ 47"
    using assms(2,3) by (simp_all add: section_sound_def)
  have u: "unat (PAGE_ALIGN_UP (ks_vaddr s + ks_vsize s)) = (?a + ?n + 4095) div 4096 * 4096"
      "unat (PAGE_ALIGN_UP (ks_vaddr o' + ks_vsize o')) = (?b + ?m + 4095) div 4096 * 4096"
    using s(3) o(3) by (simp_all add: align_up_nat unat_add_small)
  have d: "unat (PAGE_ALIGN_DOWN (ks_vaddr s)) = ?a" "unat (PAGE_ALIGN_DOWN (ks_vaddr o')) = ?b"
    using s(1) o(1) by (simp_all add: unat_align mod_eq_0_iff_dvd)
  have no: "\<not> (?a < (?b + ?m + 4095) div 4096 * 4096 \<and> ?b < (?a + ?n + 4095) div 4096 * 4096)"
    using assms(1) u d by (simp add: section_apart_def u64_add_overflow_def range_overlaps_def word_less_nat_alt)
  have up: "(4096 * x + n + 4095) div 4096 = x + (n - 1) div 4096 + 1" "(4096 * x + n - 1) div 4096 = x + (n - 1) div 4096" if "0 < n" for x n :: nat
  proof -
    have "4096 * x + n + 4095 = (n - 1) + 4096 * (x + 1)" "4096 * x + n - 1 = (n - 1) + 4096 * x" using that by simp_all
    then show "(4096 * x + n + 4095) div 4096 = x + (n - 1) div 4096 + 1" "(4096 * x + n - 1) div 4096 = x + (n - 1) div 4096"
      by simp_all
  qed
  obtain x y where xy: "?a = 4096 * x" "?b = 4096 * y" using s(1) o(1) unfolding mod_eq_0_iff_dvd dvd_def by blast
  have "\<not> (x < y + (?m - 1) div 4096 + 1 \<and> y < x + (?n - 1) div 4096 + 1)"
    using no unfolding xy up(1) [OF s(2)] up(1) [OF o(2)] by (metis mult.commute mult_less_mono2 zero_less_numeral)
  then show ?thesis unfolding section_pages_def xy up(2) [OF s(2)] up(2) [OF o(2)] by auto
qed

lemma validate_sections_sound:
  assumes "validate_sections h page is secs found = Some (secs', found')"
    and "\<forall>s \<in> set secs. section_sound h s" and "\<And>i j. i < j \<Longrightarrow> j < length secs \<Longrightarrow> section_pages (secs ! i) \<inter> section_pages (secs ! j) = {}"
    and "found \<Longrightarrow> \<exists>s \<in> set secs. ks_flags s AND 4 \<noteq> 0 \<and> unat (ks_vaddr s) \<le> unat (kh_entry_vaddr h) \<and>
      unat (kh_entry_vaddr h) < unat (ks_vaddr s) + unat (ks_vsize s)"
  shows "(\<forall>s \<in> set secs'. section_sound h s) \<and> length secs' = length secs + length is \<and>
    (\<forall>i j. i < j \<and> j < length secs' \<longrightarrow> section_pages (secs' ! i) \<inter> section_pages (secs' ! j) = {}) \<and>
    (found' \<longrightarrow> (\<exists>s \<in> set secs'. ks_flags s AND 4 \<noteq> 0 \<and> unat (ks_vaddr s) \<le> unat (kh_entry_vaddr h) \<and>
      unat (kh_entry_vaddr h) < unat (ks_vaddr s) + unat (ks_vsize s)))"
  using assms
proof (induction "is" arbitrary: secs found)
  case Nil
  then show ?case by auto
next
  case (Cons i "is")
  let ?sec = "decode_kxe_section page (unat (kh_section_table_offset h + of_nat i * ucast (kh_section_entry_size h)))"
  let ?f = "found \<or> (ks_flags ?sec AND 4 \<noteq> 0 \<and> range_contains (ks_vaddr ?sec) (ks_vaddr ?sec + ks_vsize ?sec) (kh_entry_vaddr h))"
  have v: "section_validate h ?sec (kh_file_size h)" "list_all (section_apart ?sec) secs"
      and r: "validate_sections h page is (secs @ [?sec]) ?f = Some (secs', found')"
    using Cons.prems(1) by (auto simp: Let_def u64_add_overflow_def split: if_splits)
  have snd: "section_sound h ?sec" by (rule section_validate_sound [OF v(1)])
  have e: "unat (ks_vaddr ?sec + ks_vsize ?sec) = unat (ks_vaddr ?sec) + unat (ks_vsize ?sec)"
    using snd by (simp add: section_sound_def unat_add_small)
  have a: "\<forall>s \<in> set (secs @ [?sec]). section_sound h s" using Cons.prems(2) snd by simp
  have b: "section_pages ((secs @ [?sec]) ! i) \<inter> section_pages ((secs @ [?sec]) ! j) = {}"
    if "i < j" "j < length (secs @ [?sec])" for i j
  proof (cases "j < length secs")
    case True
    then show ?thesis using Cons.prems(3) [OF that(1) True] that(1) by (simp add: nth_append)
  next
    case False
    then have "secs ! i \<in> set secs" "(secs @ [?sec]) ! j = ?sec" "(secs @ [?sec]) ! i = secs ! i" using that by (auto simp: nth_append)
    then show ?thesis using section_apart_pages [OF _ snd] v(2) Cons.prems(2) by (fastforce simp: list_all_iff)
  qed
  have c: "\<exists>s \<in> set (secs @ [?sec]). ks_flags s AND 4 \<noteq> 0 \<and> unat (ks_vaddr s) \<le> unat (kh_entry_vaddr h) \<and>
      unat (kh_entry_vaddr h) < unat (ks_vaddr s) + unat (ks_vsize s)" if ?f
    using that Cons.prems(4) e by (auto simp: range_contains_def word_less_nat_alt word_le_nat_alt)
  have l: "length (secs @ [?sec]) + length is = length secs + length (i # is)" by simp
  show ?case using Cons.IH [OF r a b c] unfolding l .
qed

lemma kxe_validate_cases:
  assumes "kxe_validate page n = Some img"
  obtains secs where "img = \<lparr>ki_header = decode_kxe_header page, ki_sections = secs\<rparr>"
    "validate_sections (decode_kxe_header page) page [0..<unat (kh_section_count (decode_kxe_header page))] [] False = Some (secs, True)"
    "kh_section_count (decode_kxe_header page) \<noteq> 0" "\<not> kh_section_count (decode_kxe_header page) > 16"
    "\<not> n < kh_file_size (decode_kxe_header page)"
  using assms by (auto simp: kxe_validate_def Let_def split: if_splits prod.splits option.splits)

text \<open>C22: an image that \<open>kxe_validate\<close> accepts can be loaded safely. It has between 1 and 16 sections; each is page aligned, lies in user
  space and within the bounds of the image, is not both writable and executable, and takes its contents from inside the
  file behind the header page; no two sections share a page, and the entry point is inside an executable section.\<close>

theorem kxe_validate_sound:
  assumes "kxe_validate page n = Some img"
  shows "(\<forall>s \<in> set (ki_sections img). section_sound (ki_header img) s) \<and>
    (\<forall>i j. i < j \<and> j < length (ki_sections img) \<longrightarrow> section_pages (ki_sections img ! i) \<inter> section_pages (ki_sections img ! j) = {}) \<and>
    (\<exists>s \<in> set (ki_sections img). ks_flags s AND 4 \<noteq> 0 \<and> unat (ks_vaddr s) \<le> unat (kh_entry_vaddr (ki_header img)) \<and>
       unat (kh_entry_vaddr (ki_header img)) < unat (ks_vaddr s) + unat (ks_vsize s)) \<and>
    0 < length (ki_sections img) \<and> length (ki_sections img) \<le> 16 \<and> kh_file_size (ki_header img) \<le> n"
proof -
  let ?h = "decode_kxe_header page"
  obtain secs where s: "img = \<lparr>ki_header = ?h, ki_sections = secs\<rparr>"
      "validate_sections ?h page [0..<unat (kh_section_count ?h)] [] False = Some (secs, True)"
      "kh_section_count ?h \<noteq> 0" "\<not> kh_section_count ?h > 16" "\<not> n < kh_file_size ?h"
    using kxe_validate_cases [OF assms] .
  have "0 < unat (kh_section_count ?h)" "unat (kh_section_count ?h) \<le> 16" using s(3,4) by (simp_all add: unat_gt_0 word_less_nat_alt)
  then show ?thesis using validate_sections_sound [OF s(2)] s(1,5) by simp
qed

text \<open>An image with one section of uninitialised data that may be executed.\<close>

definition example_head :: "8 word \<Rightarrow> 8 word \<Rightarrow> 8 word \<Rightarrow> 8 word \<Rightarrow> bytes" where
  "example_head c0 c1 c2 c3 =
     [0x4B, 0x58, 0x45, 0, 0, 0, 1, 0, 0, 0, 0, 0, 64, 0, 48, 0, 1, 0, 0, 0, c0, c1, c2, c3,
      0, 0, 0x40, 0, 0, 0, 0, 0, 64, 0, 0, 0, 0, 0, 0, 0, 0, 0, 0x40, 0, 0, 0, 0, 0, 0, 0x10, 0x40, 0, 0, 0, 0, 0, 0, 0x10, 0, 0, 0, 0, 0, 0]"

definition example_section :: bytes where
  "example_section = [0x2E, 0x78, 0, 0, 0, 0, 0, 0, 2, 0, 5, 0, 0, 0, 0, 0, 0, 0, 0x40, 0, 0, 0, 0, 0, 0, 0x10, 0, 0, 0, 0, 0, 0,
     0, 0, 0, 0, 0, 0, 0, 0, 0, 0, 0, 0, 0, 0, 0, 0]"

definition example_crc :: nat where
  "example_crc = unat (crc32_ieee (example_head 0 0 0 0))"

definition example_page :: bytes where
  "example_page = example_head (of_nat example_crc) (of_nat (example_crc div 256)) (of_nat (example_crc div 256 div 256))
     (of_nat (example_crc div 256 div 256 div 256)) @ example_section @ replicate 3984 0"

lemma slice_append: "off + n \<le> length xs \<Longrightarrow> slice off n (xs @ ys) = slice off n xs"
  by (simp add: slice_def)

lemma slice_append2: "length xs \<le> off \<Longrightarrow> slice off n (xs @ ys) = slice (off - length xs) n ys"
  by (simp add: slice_def)

lemma example_lengths: "length (example_head c0 c1 c2 c3) = 64" "length example_section = 48"
  by (simp_all add: example_head_def example_section_def)

lemma example_header:
  "decode_kxe_header example_page = \<lparr>kh_magic = [0x4B, 0x58, 0x45, 0], kh_version_major = 0, kh_version_minor = 1, kh_flags = 0, kh_header_size = 64,
     kh_section_entry_size = 48, kh_section_count = 1, kh_abi_version = 0, kh_header_crc32 = crc32_ieee (example_head 0 0 0 0),
     kh_entry_vaddr = 0x400000, kh_section_table_offset = 64, kh_image_min_vaddr = 0x400000, kh_image_max_vaddr = 0x401000, kh_file_size = 4096\<rparr>"
proof -
  have "slice 20 4 (example_head c0 c1 c2 c3) = [c0, c1, c2, c3]" for c0 c1 c2 c3 by (simp add: example_head_def slice_def)
  moreover have "[of_nat example_crc, of_nat (example_crc div 256), of_nat (example_crc div 256 div 256), of_nat (example_crc div 256 div 256 div 256)] =
      bytes_le 4 example_crc"
    unfolding numeral_eq_Suc [of "num.Bit0 (num.Bit0 num.One)"] by (simp add: numeral_eq_Suc [of "num.Bit1 num.One"] numeral_2_eq_2)
  moreover have "le_nat (bytes_le 4 example_crc) = example_crc"
    unfolding le_nat_bytes_le using unsigned_less [of "crc32_ieee (example_head 0 0 0 0)", where ?'a = nat] by (simp add: example_crc_def)
  ultimately have crc: "get_u32 example_page 20 = crc32_ieee (example_head 0 0 0 0)"
    by (simp add: get_u32_def example_page_def slice_append example_lengths del: le_nat.simps bytes_le.simps) (simp add: example_crc_def)
  have sl: "slice off n example_page = slice off n (example_head (of_nat example_crc) (of_nat (example_crc div 256)) (of_nat (example_crc div 256 div 256))
     (of_nat (example_crc div 256 div 256 div 256)))" if "off + n \<le> 64" for off n
    using that by (simp add: example_page_def slice_append example_lengths)
  show ?thesis unfolding decode_kxe_header_def crc
    by (simp add: get_u16_def get_u32_def get_u64_def sl) (simp add: example_head_def slice_def)
qed

lemma example_section_fields:
  "decode_kxe_section example_page 64 = \<lparr>ks_name = [0x2E, 0x78, 0, 0, 0, 0, 0, 0], ks_type = 2, ks_flags = 5, ks_reserved = 0, ks_vaddr = 0x400000,
     ks_vsize = 4096, ks_file_offset = 0, ks_file_size = 0\<rparr>"
proof -
  have sl: "slice off n example_page = slice (off - 64) n example_section" if "64 \<le> off" "off + n \<le> 112" for off n
    using that by (simp add: example_page_def slice_append slice_append2 example_lengths)
  show ?thesis unfolding decode_kxe_section_def
    by (simp add: get_u16_def get_u32_def get_u64_def sl) (simp add: example_section_def slice_def)
qed

lemma example_valid: "\<exists>img. kxe_validate example_page 4096 = Some img"
proof -
  have "splice 20 [0, 0, 0, 0] (take 64 example_page) = example_head 0 0 0 0"
    by (simp add: example_page_def example_lengths splice_def) (simp add: example_head_def)
  then show ?thesis
    by (simp add: kxe_validate_def example_header example_section_fields Let_def u64_mul_overflow_def u64_add_overflow_def addr_in_user_range_def
        section_validate_def range_contains_def)
qed

theorem kxe_validate_sound_witness:
  "\<exists>img. kxe_validate example_page 4096 = Some img \<and> length (ki_sections img) \<le> 16 \<and> (\<forall>s \<in> set (ki_sections img). section_sound (ki_header img) s)"
  using example_valid kxe_validate_sound by blast

end
