(* ===== verification/Syscall.thy ===== *)
theory Syscall
  imports Kxe
begin

text \<open>
  The system calls (\<open>src/src/core/syscall.c\<close>) and their dispatcher. A call either returns a value, or puts the process to sleep
  with what it has to do when it is resumed, or gives the processor away for good; in the latter two cases the scheduler
  switches. The result is None when the kernel touches user memory that is not mapped or a vnode that has been freed.
  Clocks, the size of the console, the registers at a checkpoint and the outcome of ACPI are the record \<open>machine\<close>.
\<close>

unbundle bit_operations_syntax

abbreviation (input) WAIT_ANY_PID :: nat where "WAIT_ANY_PID \<equiv> 0xFFFFFFFF"
abbreviation (input) USER_HEAP_MAX :: u64 where "USER_HEAP_MAX \<equiv> stack_base"
abbreviation (input) KIWI_O_CREAT :: nat where "KIWI_O_CREAT \<equiv> 0x100"
abbreviation (input) KIWI_O_TRUNC :: nat where "KIWI_O_TRUNC \<equiv> 0x200"
abbreviation (input) KIWI_DIRENT_NAME_MAX :: nat where "KIWI_DIRENT_NAME_MAX \<equiv> 256"

record machine =
  mc_regs :: process_kernel_context
  mc_rows :: nat
  mc_cols :: nat
  mc_realtime_ns :: nat
  mc_monotonic_ns :: nat
  mc_poweroff :: bool

datatype continuation = Reading u64 nat nat | Waiting int u64

datatype outcome = Returns int | Sleeps continuation | Leaves | Stops

type_synonym ('m, 'v) result = "(outcome \<times> ('m, 'v) kernel) option"

abbreviation ret :: "int \<Rightarrow> ('m, 'v) kernel \<Rightarrow> ('m, 'v) result" where
  "ret x st \<equiv> Some (Returns x, st)"

definition i32 :: "nat \<Rightarrow> int" where "i32 n = (if n < 2 ^ 31 then int n else int n - 2 ^ 32)"

definition u32_of :: "int \<Rightarrow> nat" where "u32_of x = nat (x mod 2 ^ 32)"

section \<open>Helpers\<close>

text \<open>The call continues with the path if user memory holds one.\<close>

definition with_path :: "u64 \<Rightarrow> ('m, 'v) kernel \<Rightarrow> (bytes \<Rightarrow> ('m, 'v) result) \<Rightarrow> ('m, 'v) result" where
  "with_path p st f = do { r \<leftarrow> copy_user_path_resolved p st; (case r of None \<Rightarrow> ret (-1) st | Some path \<Rightarrow> f path) }"

fun parse_u32_loop :: "bytes \<Rightarrow> nat \<Rightarrow> nat option" where
  "parse_u32_loop [] n = Some n"
| "parse_u32_loop (c # cs) n =
     (if 0x30 \<le> c \<and> c \<le> 0x39 then
        let n1 = n * 10 + (unat c - 0x30) in if n1 > 0xFFFFFFFF then None else parse_u32_loop cs n1
      else None)"

definition parse_u32_strict_kernel :: "bytes \<Rightarrow> nat option" where
  "parse_u32_strict_kernel s = (if s = [] then None else parse_u32_loop s 0)"

definition resolve_mount_device_spec :: "('m, 'v) file_system \<Rightarrow> bytes \<Rightarrow> 'v \<Rightarrow> blockdev option \<times> 'v" where
  "resolve_mount_device_spec fs spec v =
     (if spec = [] then (None, v)
      else case parse_u32_strict_kernel spec of
             Some n \<Rightarrow> vf_partition_device fs n v
           | None \<Rightarrow> vf_device_by_name fs (if take 5 spec = [0x2F, 0x64, 0x65, 0x76, 0x2F] then drop 5 spec else spec) v)"

definition process_child_lookup :: "nat \<Rightarrow> nat \<Rightarrow> ('m, 'v) kernel \<Rightarrow> nat option" where
  "process_child_lookup i pid st =
     (if pid = 0 then None
      else case process_by_pid pid st of
             None \<Rightarrow> None
           | Some c \<Rightarrow> if p_ppid (proc c st) \<noteq> p_pid (proc i st) then None else Some c)"

definition readdir_index_cb :: "readdir_index_ctx readdir_cb" where
  "readdir_index_cb name ino ctx =
     (if name = [dot] \<or> name = [dot, dot] then (True, ctx)
      else if rc_cur_index ctx = rc_want_index ctx then
        (False, ctx\<lparr>rc_ent := \<lparr>de_ino = ino, de_name = take (KIWI_DIRENT_NAME_MAX - 1) name\<rparr>, rc_found := True\<rparr>)
      else (True, ctx\<lparr>rc_cur_index := rc_cur_index ctx + 1\<rparr>))"

definition stdin_queue_escape_string :: "nat \<Rightarrow> bytes \<Rightarrow> ('m, 'v) kernel \<Rightarrow> ('m, 'v) kernel" where
  "stdin_queue_escape_string i seq st = upd_proc i (\<lambda>p. p\<lparr>p_stdin_pending := take 4 seq, p_stdin_pending_pos := 0\<rparr>) st"

definition stdin_queue_escape :: "nat \<Rightarrow> 8 word \<Rightarrow> ('m, 'v) kernel \<Rightarrow> ('m, 'v) kernel" where
  "stdin_queue_escape i code st = stdin_queue_escape_string i [0x1B, 0x5B, code] st"

definition scheduler_checkpoint_process_kernel :: "machine \<Rightarrow> nat \<Rightarrow> ('m, 'v) kernel \<Rightarrow> ('m, 'v) kernel" where
  "scheduler_checkpoint_process_kernel mc i st =
     upd_proc i (\<lambda>p. p\<lparr>p_resume_kind := PROC_RESUME_KERNEL, p_kernel_context := (mc_regs mc)\<lparr>kc_cr3 := cr3 (mmu st)\<rparr>\<rparr>) st"

section \<open>Reading and writing\<close>

definition console_write :: "u64 \<Rightarrow> u64 \<Rightarrow> ('m, 'v) kernel \<Rightarrow> ('m, 'v) result" where
  "console_write buf len st = do {
     bs \<leftarrow> user_read buf (unat len) st;
     ret (sint len) (st\<lparr>console_out := console_out st @ bs\<rparr>) }"

definition file_write :: "('m, 'v) file_system \<Rightarrow> nat \<Rightarrow> nat \<Rightarrow> u64 \<Rightarrow> u64 \<Rightarrow> ('m, 'v) kernel \<Rightarrow> ('m, 'v) result" where
  "file_write fs i k buf len st =
     (case fe_vnode (fd_at i k st) of
        None \<Rightarrow> ret (-1) st
      | Some a \<Rightarrow> do {
        (m, vn) \<leftarrow> vnodes st a;
        (case vf_write fs m of
           None \<Rightarrow> ret (-1) st
         | Some wr \<Rightarrow>
           if \<not> fd_can_write (fd_at i k st) then ret (-1) st
           else
             let st1 = (if fe_flags (fd_at i k st) AND KIWI_O_APPEND \<noteq> 0
                        then process_fd_sync_offset i (fd_at i k st) (vn_size vn) st else st) in
             do {
               bs \<leftarrow> user_read buf (unat len) st1;
               let ((n, vn'), st2) = on_fsys (\<lambda>v. let (n, vn', v1) = wr vn (fe_offset (fd_at i k st1)) bs v in ((n, vn'), v1)) st1;
                   st3 = st2\<lparr>vnodes := (vnodes st2)(a \<mapsto> (m, vn'))\<rparr>
               in ret n (if n > 0
                    then process_fd_sync_offset i (fd_at i k st3) ((fe_offset (fd_at i k st3) + nat n) mod 2 ^ 64) st3 else st3) }) })"

definition sys_write :: "('m, 'v) file_system \<Rightarrow> int \<Rightarrow> u64 \<Rightarrow> u64 \<Rightarrow> ('m, 'v) kernel \<Rightarrow> ('m, 'v) result" where
  "sys_write fs fd buf len st =
     (if buf = 0 \<and> len \<noteq> 0 then ret (-1) st
      else if \<not> validate_user_buffer buf len False st then ret (-1) st
      else
        (case process_current st of
           None \<Rightarrow> if fd = 1 \<or> fd = 2 then console_write buf len st else ret (-1) st
         | Some i \<Rightarrow>
           (case process_fd_lookup_used i fd st of
              None \<Rightarrow> if fd = 1 \<or> fd = 2 then console_write buf len st else ret (-1) st
            | Some k \<Rightarrow>
              let e = fd_at i k st in
              if fe_is_console e then
                if fe_console_fd e \<noteq> 1 \<and> fe_console_fd e \<noteq> 2 then ret (-1) st else console_write buf len st
              else if fe_is_pipe e then
                (case fe_pipe e of
                   None \<Rightarrow> ret (-1) st
                 | Some p \<Rightarrow>
                   if \<not> fe_pipe_write e \<or> \<not> fd_can_write e then ret (-1) st
                   else do {
                     bs \<leftarrow> user_read buf (unat len) st;
                     let (n, q) = pipe_write_bytes (if buf = 0 then None else Some bs) (g_pipes st ! p)
                     in ret n (st\<lparr>g_pipes := (g_pipes st)[p := q]\<rparr>) })
              else file_write fs i k buf len st)))"

text \<open>One round of the console loop: a key is taken, pending bytes are delivered, and then the key is handled. \<open>n\<close> bytes
  have been delivered.\<close>

definition deliver_pending :: "nat \<Rightarrow> u64 \<Rightarrow> nat \<Rightarrow> nat \<Rightarrow> ('m, 'v) kernel \<Rightarrow> (nat \<times> ('m, 'v) kernel) option" where
  "deliver_pending i buf n len st =
     (let p = proc i st;
          bs = take (len - n) (drop (p_stdin_pending_pos p) (p_stdin_pending p));
          pos = p_stdin_pending_pos p + length bs in
      do {
        st1 \<leftarrow> user_write (buf + of_nat n) bs st;
        Some (n + length bs,
              upd_proc i (\<lambda>p. if pos \<ge> length (p_stdin_pending p) then p\<lparr>p_stdin_pending := [], p_stdin_pending_pos := 0\<rparr>
                              else p\<lparr>p_stdin_pending_pos := pos\<rparr>) st1) })"

text \<open>What a special key queues: the keys that scroll do so only in raw mode.\<close>

definition special_key :: "nat \<Rightarrow> int \<Rightarrow> ('m, 'v) kernel \<Rightarrow> ('m, 'v) kernel option" where
  "special_key i ch st =
     (let raw = p_tty_raw_mode (proc i st) in
      if ch = -20 then Some (if raw then stdin_queue_escape_string i [0x1B, 0x5B, 0x35, 0x7E] st else st)
      else if ch = -21 then Some (if raw then stdin_queue_escape_string i [0x1B, 0x5B, 0x36, 0x7E] st else st)
      else if ch = -22 then Some (stdin_queue_escape_string i [0x1B, 0x5B, 0x48] st)
      else if ch = -23 then Some (stdin_queue_escape_string i [0x1B, 0x5B, 0x46] st)
      else if ch = -24 then Some (stdin_queue_escape_string i [0x1B, 0x5B, 0x33, 0x7E] st)
      else if ch = -16 then Some (stdin_queue_escape i 0x41 st)
      else if ch = -17 then Some (stdin_queue_escape i 0x42 st)
      else if ch = -19 then Some (stdin_queue_escape i 0x43 st)
      else if ch = -18 then Some (stdin_queue_escape i 0x44 st)
      else None)"

definition sleep_for_key :: "machine \<Rightarrow> nat \<Rightarrow> ('m, 'v) kernel \<Rightarrow> ('m, 'v) kernel" where
  "sleep_for_key mc i st =
     scheduler_checkpoint_process_kernel mc i (keyboard_enqueue_waiter i (upd_proc i (\<lambda>p. p\<lparr>p_state := PROC_BLOCKED\<rparr>) st))"

lemma user_write_ram: "user_write a bs st = Some st' \<Longrightarrow> \<exists>r. st' = st\<lparr>ram := r\<rparr>"
proof (induction a bs st arbitrary: st' rule: user_write.induct)
  case (1 a st)
  then show ?case by (auto intro: exI [of _ "ram st"])
next
  case (2 a b bs st)
  then obtain st1 where s: "user_store a b st = Some st1" "user_write (a + 1) bs st1 = Some st'" by (auto split: Option.bind_splits)
  then show ?case using 2(1) [OF s] by (auto simp: user_store_def)
qed

lemma deliver_pending_keys:
  "deliver_pending i buf n len st = Some (n1, st1) \<Longrightarrow> g_keybuf_count st1 = g_keybuf_count st"
  by (auto simp: deliver_pending_def Let_def upd_proc_def dest!: user_write_ram split: Option.bind_splits)

lemma special_key_keys: "special_key i ch st = Some st1 \<Longrightarrow> g_keybuf_count st1 = g_keybuf_count st"
  by (auto simp: special_key_def stdin_queue_escape_def stdin_queue_escape_string_def upd_proc_def Let_def split: if_splits)

lemma getchar_keys: "keyboard_getchar_nonblocking st = (ch, st1) \<Longrightarrow> ch \<noteq> -1 \<Longrightarrow> g_keybuf_count st1 < g_keybuf_count st"
  by (auto simp: keyboard_getchar_nonblocking_def keybuf_pop_def split: if_splits)

function read_console :: "machine \<Rightarrow> nat \<Rightarrow> u64 \<Rightarrow> nat \<Rightarrow> nat \<Rightarrow> ('m, 'v) kernel \<Rightarrow> ('m, 'v) result" where
  "read_console mc i buf n len st =
     (if \<not> n < len then ret (int len) st
      else
        (case keyboard_getchar_nonblocking st of
           (ch, st1) \<Rightarrow>
             (case deliver_pending i buf n len st1 of
                None \<Rightarrow> None
              | Some (n1, st2) \<Rightarrow>
                if n1 \<ge> len then ret (int n1) st2
                else if ch = -1 then Some (Sleeps (Reading buf n1 len), sleep_for_key mc i st2)
                else
                  (case special_key i ch st2 of
                     Some st3 \<Rightarrow> read_console mc i buf n1 len st3
                   | None \<Rightarrow>
                     if p_tty_raw_mode (proc i st2) \<and> ch = 10 then
                       map_option (Pair (Returns (int n1 + 1))) (user_write (buf + of_nat n1) [0x0D] st2)
                     else
                       (case user_write (buf + of_nat n1) [word_of_int ch] st2 of
                          None \<Rightarrow> None
                        | Some st3 \<Rightarrow>
                          if (word_of_int ch :: 8 word) = 0x0A then ret (int n1 + 1) st3
                          else read_console mc i buf (n1 + 1) len st3)))))"
  by pat_completeness auto
termination
proof (relation "measure (\<lambda>(mc, i, buf, n, len, st). g_keybuf_count st)", goal_cases)
  case (3 mc i buf n len st ch st1 p n1 st2 st3)
  then show ?case using getchar_keys [of st ch st1] deliver_pending_keys [of i buf n len st1 n1 st2] special_key_keys [of i ch st2 st3] by simp
next
  case (2 mc i buf n len st ch st1 p n1 st2 st3)
  obtain r where "st3 = st2\<lparr>ram := r\<rparr>" using 2(9) user_write_ram by blast
  with 2 show ?case using getchar_keys [of st ch st1] deliver_pending_keys [of i buf n len st1 n1 st2] by (simp del: user_write.simps)
qed simp

declare read_console.simps [simp del]

definition file_read :: "('m, 'v) file_system \<Rightarrow> nat \<Rightarrow> nat \<Rightarrow> u64 \<Rightarrow> u64 \<Rightarrow> ('m, 'v) kernel \<Rightarrow> ('m, 'v) result" where
  "file_read fs i k buf len st =
     (case fe_vnode (fd_at i k st) of
        None \<Rightarrow> ret (-1) st
      | Some a \<Rightarrow> do {
        (m, vn) \<leftarrow> vnodes st a;
        (case vf_read fs m of
           None \<Rightarrow> ret (-1) st
         | Some rd \<Rightarrow>
           if \<not> fd_can_read (fd_at i k st) then ret (-1) st
           else
             let (n, bs, st1) = on_fsys2 (rd vn (fe_offset (fd_at i k st)) (unat len)) st in
             do {
               st2 \<leftarrow> user_write buf (take (unat len) bs) st1;
               ret n (if n > 0
                 then process_fd_sync_offset i (fd_at i k st2) ((fe_offset (fd_at i k st2) + nat n) mod 2 ^ 64) st2 else st2) }) })"

definition sys_read :: "('m, 'v) file_system \<Rightarrow> machine \<Rightarrow> int \<Rightarrow> u64 \<Rightarrow> u64 \<Rightarrow> ('m, 'v) kernel \<Rightarrow> ('m, 'v) result" where
  "sys_read fs mc fd buf len st =
     (case process_current st of
        None \<Rightarrow> ret (-1) st
      | Some i \<Rightarrow>
        if buf = 0 \<and> len \<noteq> 0 then ret (-1) st
        else if \<not> validate_user_buffer buf len True st then ret (-1) st
        else if len = 0 then ret 0 st
        else
          let console = read_console mc i buf 0 (unat len) (st\<lparr>fsys := vf_poll_hotplug fs (fsys st)\<rparr>) in
          (case process_fd_lookup_used i fd st of
             None \<Rightarrow> if fd = 0 then console else ret (-1) st
           | Some k \<Rightarrow>
             let e = fd_at i k st in
             if fe_is_console e then if fe_console_fd e \<noteq> 0 then ret (-1) st else console
             else if fe_is_pipe e then
               (case fe_pipe e of
                  None \<Rightarrow> ret (-1) st
                | Some p \<Rightarrow>
                  if \<not> fe_pipe_read e \<or> \<not> fd_can_read e then ret (-1) st
                  else
                    let (n, bs, q) = pipe_read_bytes (unat len) (g_pipes st ! p)
                    in do { st1 \<leftarrow> user_write buf bs st; ret n (st1\<lparr>g_pipes := (g_pipes st1)[p := q]\<rparr>) })
             else file_read fs i k buf len st))"

definition sys_open :: "('m, 'v) file_system \<Rightarrow> u64 \<Rightarrow> nat \<Rightarrow> ('m, 'v) kernel \<Rightarrow> ('m, 'v) result" where
  "sys_open fs path flags st =
     (case process_current st of
        None \<Rightarrow> ret (-1) st
      | Some i \<Rightarrow> with_path path st (\<lambda>kernel_path.
        let accmode = flags AND KIWI_O_ACCMODE in
        if accmode > KIWI_O_RDWR \<or> flags AND 0xFFFFF8FC \<noteq> 0 then ret (-1) st
        else
          let want_read = (accmode = KIWI_O_RDONLY \<or> accmode = KIWI_O_RDWR); want_write = (accmode = KIWI_O_WRONLY \<or> accmode = KIWI_O_RDWR) in
          if \<not> want_write \<and> (flags AND KIWI_O_CREAT \<noteq> 0 \<or> flags AND KIWI_O_TRUNC \<noteq> 0 \<or> flags AND KIWI_O_APPEND \<noteq> 0) then ret (-1) st
          else
            let (r, st1) = on_fsys (vf_resolve fs kernel_path) st;
                (found, created, st2) =
                  (case r of
                     Some x \<Rightarrow> (Some x, False, st1)
                   | None \<Rightarrow>
                     if \<not> want_write \<or> flags AND KIWI_O_CREAT = 0 then (None, False, st1)
                     else let (c, s) = on_fsys (vf_create fs kernel_path 420) st1 in (c, True, s)) in
            (case found of
               None \<Rightarrow> ret (-1) st2
             | Some (m, vn) \<Rightarrow>
               if (want_read \<and> vf_read fs m = None) \<or> (want_write \<and> vf_write fs m = None) then ret (-1) st2
               else
                 let (ok, vn1, st3) =
                   (if \<not> created \<and> want_write \<and> flags AND KIWI_O_TRUNC \<noteq> 0 then
                      (case vf_truncate fs m of None \<Rightarrow> (False, vn, st2) | Some tr \<Rightarrow> on_fsys2 (tr vn 0) st2)
                    else (True, vn, st2)) in
                 if \<not> ok then ret (-1) st3
                 else
                   let offset = (if want_write \<and> flags AND KIWI_O_APPEND \<noteq> 0 then vn_size vn1 else 0);
                       (a, st4) = new_vnode m vn1 st3;
                       (fd, st5) = process_fd_alloc i a flags offset st4
                   in if fd < 0 then ret (-1) (vnode_put a st5) else ret fd st5)))"

section \<open>Memory\<close>

definition brk_unmap :: "u64 \<Rightarrow> u64 \<Rightarrow> ('m, 'v) kernel \<Rightarrow> ('m, 'v) kernel" where
  "brk_unmap pt va st =
     (let phys = vmm_get_physical (Some pt) va (mmu st) in
      if phys = 0 then st else upd_pmm (pmm_free (unat phys)) (st\<lparr>mmu := vmm_unmap_page (Some pt) va (mmu st)\<rparr>))"

fun brk_grow :: "u64 \<Rightarrow> u64 list \<Rightarrow> u64 list \<Rightarrow> ('m, 'v) kernel \<Rightarrow> bool \<times> ('m, 'v) kernel" where
  "brk_grow pt mapped [] st = (True, st)"
| "brk_grow pt mapped (va # vas) st =
     (let (phys, p) = pmm_alloc (vm_pmm (mmu st)); st1 = upd_pmm (\<lambda>_. p) st in
      if phys = 0 then (False, st1)
      else
        let st2 = clear_ram phys PAGE_SIZE st1;
            (ok, m) = vmm_map_page (Some pt) va (of_nat phys) (PAGE_PRESENT OR PAGE_USER OR PAGE_WRITE) (mmu st2);
            st3 = st2\<lparr>mmu := m\<rparr>
        in if ok then brk_grow pt (mapped @ [va]) vas st3 else (False, fold (brk_unmap pt) mapped (upd_pmm (pmm_free phys) st3)))"

definition page_range :: "u64 \<Rightarrow> u64 \<Rightarrow> u64 list" where
  "page_range a b = map (\<lambda>j. a + of_nat (j * PAGE_SIZE)) [0..<(unat b - unat a) div PAGE_SIZE]"

definition sys_brk :: "u64 \<Rightarrow> ('m, 'v) kernel \<Rightarrow> int \<times> ('m, 'v) kernel" where
  "sys_brk addr st =
     (case process_current st of
        None \<Rightarrow> (-1, st)
      | Some i \<Rightarrow>
        (case p_page_table (proc i st) of
           None \<Rightarrow> (-1, st)
         | Some pt \<Rightarrow>
           let old_break = p_brk_current (proc i st) in
           if addr = 0 then (sint old_break, st)
           else if addr < p_brk_base (proc i st) \<or> addr > USER_HEAP_MAX then (sint old_break, st)
           else
             let old_top = PAGE_ALIGN_UP old_break; new_top = PAGE_ALIGN_UP addr;
                 (ok, st1) = (if new_top > old_top then brk_grow pt [] (page_range old_top new_top) st
                              else if new_top < old_top then (True, fold (brk_unmap pt) (page_range new_top old_top) st)
                              else (True, st))
             in if ok then (sint addr, upd_proc i (\<lambda>p. p\<lparr>p_brk_current := addr\<rparr>) st1) else (sint old_break, st1)))"

section \<open>Processes\<close>

definition wakes :: "process \<Rightarrow> nat \<Rightarrow> bool" where
  "wakes par pid \<longleftrightarrow> p_state par = PROC_BLOCKED \<and> (p_wait_target_pid par = WAIT_ANY_PID \<or> p_wait_target_pid par = pid)"

definition sys_exit :: "int \<Rightarrow> ('m, 'v) kernel \<Rightarrow> ('m, 'v) result" where
  "sys_exit code st =
     (case process_current st of
        None \<Rightarrow> Some (Stops, st)
      | Some i \<Rightarrow>
        let st1 = process_close_files i (upd_proc i (\<lambda>p. p\<lparr>p_state := PROC_ZOMBIE, p_exit_code := code\<rparr>) st) in
        Some (Leaves,
          case process_by_pid (p_ppid (proc i st1)) st1 of
            None \<Rightarrow> st1
          | Some par \<Rightarrow> if wakes (proc par st1) (p_pid (proc i st1)) then scheduler_add par st1 else st1))"

definition sys_getpid :: "('m, 'v) kernel \<Rightarrow> int" where
  "sys_getpid st = (case process_current st of None \<Rightarrow> -1 | Some i \<Rightarrow> int (p_pid (proc i st)))"

definition exec_replace_current :: "nat \<Rightarrow> nat \<Rightarrow> ('m, 'v) kernel \<Rightarrow> ('m, 'v) kernel" where
  "exec_replace_current cur nxt st =
     (let par = process_by_pid (p_ppid (proc cur st)) st;
          st1 = upd_proc nxt (\<lambda>p. p\<lparr>p_ppid := p_ppid (proc cur st)\<rparr>) st;
          st2 = upd_proc cur (\<lambda>p. p\<lparr>p_exec_replaced_by_pid := p_pid (proc nxt st1)\<rparr>) st1;
          st3 = (case par of
                   None \<Rightarrow> st2
                 | Some q \<Rightarrow>
                   if p_state (proc q st2) = PROC_BLOCKED \<and> p_wait_target_pid (proc q st2) \<noteq> WAIT_ANY_PID \<and>
                      p_wait_target_pid (proc q st2) = p_pid (proc cur st2)
                   then upd_proc q (\<lambda>p. p\<lparr>p_wait_target_pid := p_pid (proc nxt st2)\<rparr>) st2 else st2)
      in scheduler_add nxt (process_close_files cur (upd_proc cur (\<lambda>p. p\<lparr>p_state := PROC_ZOMBIE\<rparr>) st3)))"

text \<open>Both forms of exec and spawn, behind the copying of the arguments.\<close>

definition exec_loaded :: "nat \<Rightarrow> nat option \<times> ('m, 'v) kernel \<Rightarrow> ('m, 'v) result" where
  "exec_loaded cur r = (case r of (None, st) \<Rightarrow> ret (-1) st | (Some nxt, st) \<Rightarrow> Some (Leaves, exec_replace_current cur nxt st))"

definition spawn_loaded :: "nat \<Rightarrow> nat option \<times> ('m, 'v) kernel \<Rightarrow> ('m, 'v) result" where
  "spawn_loaded cur r =
     (case r of
        (None, st) \<Rightarrow> ret (-1) st
      | (Some child, st) \<Rightarrow>
        let st1 = scheduler_add child (upd_proc child (\<lambda>p. p\<lparr>p_ppid := p_pid (proc cur st)\<rparr>) st)
        in ret (int (p_pid (proc child st1))) st1)"

definition sys_exec :: "('m, 'v) file_system \<Rightarrow> u64 \<Rightarrow> ('m, 'v) kernel \<Rightarrow> ('m, 'v) result" where
  "sys_exec fs path st =
     (case process_current st of
        None \<Rightarrow> ret (-1) st
      | Some i \<Rightarrow> with_path path st (\<lambda>p. exec_loaded i (kxe_load fs (Some p) st)))"

definition sys_spawn :: "('m, 'v) file_system \<Rightarrow> u64 \<Rightarrow> ('m, 'v) kernel \<Rightarrow> ('m, 'v) result" where
  "sys_spawn fs path st =
     (case process_current st of
        None \<Rightarrow> ret (-1) st
      | Some i \<Rightarrow> with_path path st (\<lambda>p. spawn_loaded i (kxe_load fs (Some p) st)))"

definition with_argv :: "u64 \<Rightarrow> u64 \<Rightarrow> ('m, 'v) kernel \<Rightarrow> (bytes list \<Rightarrow> ('m, 'v) result) \<Rightarrow> ('m, 'v) result" where
  "with_argv argv argc st f = do { r \<leftarrow> copy_user_argv argv argc st; (case r of None \<Rightarrow> ret (-1) st | Some args \<Rightarrow> f args) }"

definition sys_exec_argv :: "('m, 'v) file_system \<Rightarrow> u64 \<Rightarrow> u64 \<Rightarrow> u64 \<Rightarrow> ('m, 'v) kernel \<Rightarrow> ('m, 'v) result" where
  "sys_exec_argv fs path argc argv st =
     (case process_current st of
        None \<Rightarrow> ret (-1) st
      | Some i \<Rightarrow>
        if argc = 0 \<or> argc > of_nat KXE_MAX_ARGC then ret (-1) st
        else with_path path st (\<lambda>p. with_argv argv argc st (\<lambda>args. exec_loaded i (kxe_load_argv fs (Some p) args st))))"

definition sys_spawn_argv :: "('m, 'v) file_system \<Rightarrow> u64 \<Rightarrow> u64 \<Rightarrow> u64 \<Rightarrow> ('m, 'v) kernel \<Rightarrow> ('m, 'v) result" where
  "sys_spawn_argv fs path argc argv st =
     (case process_current st of
        None \<Rightarrow> ret (-1) st
      | Some i \<Rightarrow>
        if argc = 0 \<or> argc > of_nat KXE_MAX_ARGC then ret (-1) st
        else with_path path st (\<lambda>p. with_argv argv argc st (\<lambda>args. spawn_loaded i (kxe_load_argv fs (Some p) args st))))"

text \<open>The child that a wait is for, with the pid that the wait is for.\<close>

definition wait_child :: "nat \<Rightarrow> int \<Rightarrow> ('m, 'v) kernel \<Rightarrow> int \<times> nat option" where
  "wait_child i requested_pid st =
     (let w = p_wait_target_pid (proc i st);
          target_pid = (if w \<noteq> 0 then if w = WAIT_ANY_PID then -1 else i32 w else requested_pid)
      in (target_pid, if target_pid = -1 then process_first_child (p_pid (proc i st)) True st else process_child_lookup i (u32_of target_pid) st))"

lemma wait_child_less: "wait_child i r st = (t, Some c) \<Longrightarrow> c < length (g_procs st) \<and> p_state (proc c st) \<noteq> PROC_UNUSED"
  using child_less [of _ True st c] by_pid_less [of _ st c]
  by (auto simp: wait_child_def process_child_lookup_def Let_def split: if_splits option.splits)

lemma upd_wait_state [simp]: "p_state (proc c (upd_proc i (\<lambda>p. p\<lparr>p_wait_target_pid := t\<rparr>) st)) = p_state (proc c st)"
  by (cases "i < length (g_procs st)") (simp_all add: proc_def upd_proc_def nth_list_update list_update_beyond)

function wait_loop :: "machine \<Rightarrow> nat \<Rightarrow> int \<Rightarrow> u64 \<Rightarrow> ('m, 'v) kernel \<Rightarrow> ('m, 'v) result" where
  "wait_loop mc i requested_pid status st =
     (case wait_child i requested_pid st of
        (_, None) \<Rightarrow> ret (-1) (upd_proc i (\<lambda>p. p\<lparr>p_wait_target_pid := 0\<rparr>) st)
      | (target_pid, Some c) \<Rightarrow>
        if p_state (proc c st) = PROC_ZOMBIE \<and> p_exec_replaced_by_pid (proc c st) \<noteq> 0 then
          wait_loop mc i requested_pid status
            (process_destroy c (upd_proc i (\<lambda>p. p\<lparr>p_wait_target_pid := p_exec_replaced_by_pid (proc c st)\<rparr>) st))
        else if p_state (proc c st) = PROC_ZOMBIE then do {
          st1 \<leftarrow> (if status \<noteq> 0 then user_write status (bytes_le 4 (u32_of (p_exit_code (proc c st)))) st else Some st);
          ret (int (p_pid (proc c st))) (process_destroy c (upd_proc i (\<lambda>p. p\<lparr>p_wait_target_pid := 0\<rparr>) st1)) }
        else
          Some (Sleeps (Waiting requested_pid status),
            scheduler_checkpoint_process_kernel mc i
              (upd_proc i (\<lambda>p. p\<lparr>p_state := PROC_BLOCKED,
                 p_wait_target_pid := (if target_pid = -1 then WAIT_ANY_PID else u32_of target_pid)\<rparr>) st)))"
  by pat_completeness auto
termination
proof (relation "measure (\<lambda>(mc, i, r, s, st). live_procs st)", goal_cases)
  case (2 mc i r s st t x c)
  let ?u = "upd_proc i (\<lambda>p. p\<lparr>p_wait_target_pid := p_exec_replaced_by_pid (proc c st)\<rparr>) st"
  have "c < length (g_procs st) \<and> p_state (proc c st) \<noteq> PROC_UNUSED" using wait_child_less [of i r st t c] 2 by simp
  then have "live_procs (process_destroy c ?u) < live_procs ?u" by (intro destroy_live) simp_all
  also have "live_procs ?u = live_procs st" by (rule upd_proc_live) simp
  finally show ?case by simp
qed simp

declare wait_loop.simps [simp del]

definition sys_waitpid :: "machine \<Rightarrow> int \<Rightarrow> u64 \<Rightarrow> ('m, 'v) kernel \<Rightarrow> ('m, 'v) result" where
  "sys_waitpid mc pid status st =
     (case process_current st of
        None \<Rightarrow> ret (-1) st
      | Some i \<Rightarrow>
        if pid \<le> 0 \<and> pid \<noteq> -1 then ret (-1) st
        else if status \<noteq> 0 \<and> \<not> validate_user_buffer status 4 True st then ret (-1) st
        else wait_loop mc i pid status st)"

section \<open>Files by path\<close>

definition stat_bytes :: "vfs_stat \<Rightarrow> bytes" where
  "stat_bytes s = bytes_le 4 (case st_type s of VNODE_NONE \<Rightarrow> 0 | VNODE_FILE \<Rightarrow> 1 | VNODE_DIR \<Rightarrow> 2) @ bytes_le 4 (st_ino s) @ bytes_le 8 (st_size s) @
     bytes_le 4 (st_mode s) @ bytes_le 4 (st_link_count s) @ bytes_le 8 (st_mtime s) @ bytes_le 8 (st_ctime s)"

definition dirent_bytes :: "kiwi_dirent \<Rightarrow> bytes" where
  "dirent_bytes d = bytes_le 4 (de_ino d) @ bytes_le 4 0 @ de_name d @ replicate (KIWI_DIRENT_NAME_MAX - length (de_name d)) 0"

text \<open>What \<open>stat\<close> says of a vnode, if its driver has the operation and it succeeds.\<close>

definition vnode_stat :: "('m, 'v) file_system \<Rightarrow> 'm \<Rightarrow> vnode \<Rightarrow> ('m, 'v) kernel \<Rightarrow> vfs_stat option \<times> ('m, 'v) kernel" where
  "vnode_stat fs m vn st = (case vf_stat fs m of None \<Rightarrow> (None, st) | Some f \<Rightarrow> on_fsys (f vn) st)"

definition sys_stat :: "('m, 'v) file_system \<Rightarrow> u64 \<Rightarrow> u64 \<Rightarrow> ('m, 'v) kernel \<Rightarrow> ('m, 'v) result" where
  "sys_stat fs path out st =
     (if out = 0 then ret (-1) st
      else if \<not> validate_user_buffer out 40 True st then ret (-1) st
      else with_path path st (\<lambda>p.
        let (r, st1) = on_fsys (vf_resolve fs p) st in
        (case r of
           None \<Rightarrow> ret (-1) st1
         | Some (m, vn) \<Rightarrow>
           let (s, st2) = vnode_stat fs m vn st1 in
           (case s of
              None \<Rightarrow> ret (-1) st2
            | Some x \<Rightarrow> do { st3 \<leftarrow> user_write out (stat_bytes x) st2; ret 0 st3 }))))"

definition sys_readdir :: "('m, 'v) file_system \<Rightarrow> u64 \<Rightarrow> u64 \<Rightarrow> u64 \<Rightarrow> ('m, 'v) kernel \<Rightarrow> ('m, 'v) result" where
  "sys_readdir fs path index out st =
     (if out = 0 then ret (-1) st
      else if \<not> validate_user_buffer out 264 True st then ret (-1) st
      else with_path path st (\<lambda>p.
        let (ok, ctx, st1) = on_fsys2 (vf_readdir fs p readdir_index_cb
              \<lparr>rc_want_index = unat index, rc_cur_index = 0, rc_found = False, rc_ent = \<lparr>de_ino = 0, de_name = []\<rparr>\<rparr>) st in
        if \<not> ok then ret (-1) st1
        else if \<not> rc_found ctx then ret 0 st1
        else do { st2 \<leftarrow> user_write out (dirent_bytes (rc_ent ctx)) st1; ret 1 st2 }))"

definition status_of :: "bool \<times> ('m, 'v) kernel \<Rightarrow> ('m, 'v) result" where
  "status_of r = (case r of (ok, st) \<Rightarrow> ret (if ok then 0 else -1) st)"

definition sys_mkdir :: "('m, 'v) file_system \<Rightarrow> u64 \<Rightarrow> nat \<Rightarrow> ('m, 'v) kernel \<Rightarrow> ('m, 'v) result" where
  "sys_mkdir fs path mode st = with_path path st (\<lambda>p. status_of (on_fsys (vf_mkdir fs p mode) st))"

definition sys_unlink :: "('m, 'v) file_system \<Rightarrow> u64 \<Rightarrow> ('m, 'v) kernel \<Rightarrow> ('m, 'v) result" where
  "sys_unlink fs path st = with_path path st (\<lambda>p. status_of (on_fsys (vf_unlink fs p) st))"

definition sys_chdir :: "('m, 'v) file_system \<Rightarrow> u64 \<Rightarrow> ('m, 'v) kernel \<Rightarrow> ('m, 'v) result" where
  "sys_chdir fs path st =
     (case process_current st of
        None \<Rightarrow> ret (-1) st
      | Some i \<Rightarrow> with_path path st (\<lambda>p.
        let (r, st1) = on_fsys (vf_resolve fs p) st in
        (case r of
           None \<Rightarrow> ret (-1) st1
         | Some (_, vn) \<Rightarrow>
           if vn_type vn \<noteq> VNODE_DIR then ret (-1) st1 else ret 0 (upd_proc i (\<lambda>q. q\<lparr>p_cwd := p\<rparr>) st1))))"

definition sys_getcwd :: "u64 \<Rightarrow> u64 \<Rightarrow> ('m, 'v) kernel \<Rightarrow> ('m, 'v) result" where
  "sys_getcwd buf sz st =
     (case process_current st of
        None \<Rightarrow> ret (-1) st
      | Some i \<Rightarrow>
        if buf = 0 \<or> sz = 0 then ret (-1) st
        else
          let s = p_cwd (proc i st) @ [0] in
          if of_nat (length s) > sz \<or> \<not> validate_user_buffer buf (of_nat (length s)) True st then ret (-1) st
          else do { st1 \<leftarrow> user_write buf s st; ret 0 st1 })"

definition sys_truncate :: "('m, 'v) file_system \<Rightarrow> u64 \<Rightarrow> u64 \<Rightarrow> ('m, 'v) kernel \<Rightarrow> ('m, 'v) result" where
  "sys_truncate fs path sz st = with_path path st (\<lambda>p.
     let (r, st1) = on_fsys (vf_resolve fs p) st in
     (case r of
        None \<Rightarrow> ret (-1) st1
      | Some (m, vn) \<Rightarrow>
        (case vf_truncate fs m of
           None \<Rightarrow> ret (-1) st1
         | Some tr \<Rightarrow>
           if vn_type vn \<noteq> VNODE_FILE then ret (-1) st1
           else if vf_readonly fs m then ret (-1) st1
           else let (ok, _, st2) = on_fsys2 (tr vn (unat sz)) st1 in ret (if ok then 0 else -1) st2)))"

definition sys_ftruncate :: "('m, 'v) file_system \<Rightarrow> int \<Rightarrow> u64 \<Rightarrow> ('m, 'v) kernel \<Rightarrow> ('m, 'v) result" where
  "sys_ftruncate fs fd sz st =
     (case process_current st of
        None \<Rightarrow> ret (-1) st
      | Some i \<Rightarrow>
        (case process_fd_lookup i fd st of
           None \<Rightarrow> ret (-1) st
         | Some k \<Rightarrow>
           (case fe_vnode (fd_at i k st) of
              None \<Rightarrow> ret (-1) st
            | Some a \<Rightarrow> do {
              (m, vn) \<leftarrow> vnodes st a;
              (case vf_truncate fs m of
                 None \<Rightarrow> ret (-1) st
               | Some tr \<Rightarrow>
                 if vn_type vn \<noteq> VNODE_FILE \<or> \<not> fd_can_write (fd_at i k st) then ret (-1) st
                 else if vf_readonly fs m then ret (-1) st
                 else
                   let (ok, vn', st1) = on_fsys2 (tr vn (unat sz)) st
                   in ret (if ok then 0 else -1) (st1\<lparr>vnodes := (vnodes st1)(a \<mapsto> (m, vn'))\<rparr>)) })))"

definition sys_fstat :: "('m, 'v) file_system \<Rightarrow> int \<Rightarrow> u64 \<Rightarrow> ('m, 'v) kernel \<Rightarrow> ('m, 'v) result" where
  "sys_fstat fs fd out st =
     (case process_current st of
        None \<Rightarrow> ret (-1) st
      | Some i \<Rightarrow>
        if out = 0 \<or> \<not> validate_user_buffer out 40 True st then ret (-1) st
        else
          (case process_fd_lookup_used i fd st of
             None \<Rightarrow> ret (-1) st
           | Some k \<Rightarrow>
             let e = fd_at i k st in
             (case (fe_is_pipe e, fe_pipe e) of
                (True, Some p) \<Rightarrow>
                  do { st1 \<leftarrow> user_write out (bytes_le 4 3 @ bytes_le 4 0 @ bytes_le 8 (pp_count (g_pipes st ! p)) @ bytes_le 4 384 @
                         bytes_le 4 1 @ bytes_le 8 0 @ bytes_le 8 0) st; ret 0 st1 }
              | _ \<Rightarrow>
                if fe_is_console e then ret (-1) st
                else
                  (case fe_vnode e of
                     None \<Rightarrow> ret (-1) st
                   | Some a \<Rightarrow> do {
                     (m, vn) \<leftarrow> vnodes st a;
                     let (s, st1) = vnode_stat fs m vn st in
                     (case s of
                        None \<Rightarrow> ret (-1) st1
                      | Some x \<Rightarrow> do { st2 \<leftarrow> user_write out (stat_bytes x) st1; ret 0 st2 }) }))))"

definition sys_access :: "('m, 'v) file_system \<Rightarrow> u64 \<Rightarrow> int \<Rightarrow> ('m, 'v) kernel \<Rightarrow> ('m, 'v) result" where
  "sys_access fs path mode st =
     (if mode AND (NOT 7) \<noteq> 0 then ret (-1) st
      else with_path path st (\<lambda>p.
        let (r, st1) = on_fsys (vf_resolve fs p) st in
        (case r of
           None \<Rightarrow> ret (-1) st1
         | Some (m, vn) \<Rightarrow>
           let (s, st2) = vnode_stat fs m vn st1 in
           (case s of
              None \<Rightarrow> ret (-1) st2
            | Some x \<Rightarrow>
              if mode AND 4 \<noteq> 0 \<and> st_mode x AND 292 = 0 then ret (-1) st2
              else if mode AND 2 \<noteq> 0 \<and> st_mode x AND 146 = 0 then ret (-1) st2
              else if mode AND 1 \<noteq> 0 \<and> st_mode x AND 73 = 0 then ret (-1) st2
              else ret 0 st2))))"

text \<open>The copy loop of rename, in pieces of at most 256 bytes.\<close>

function rename_copy ::
  "(nat \<Rightarrow> nat \<Rightarrow> 'v \<Rightarrow> int \<times> bytes \<times> 'v) \<Rightarrow> (vnode \<Rightarrow> nat \<Rightarrow> bytes \<Rightarrow> 'v \<Rightarrow> int \<times> vnode \<times> 'v) \<Rightarrow> nat \<Rightarrow> vnode \<Rightarrow> nat \<Rightarrow> 'v \<Rightarrow> bool \<times> 'v" where
  "rename_copy rd wr sz vn offset v =
     (if \<not> offset < sz then (True, v)
      else
        let want = min (sz - offset) 256; (nread, bs, v1) = rd offset want v in
        if nread < 0 \<or> nat nread \<noteq> want then (False, v1)
        else
          let (nwritten, vn1, v2) = wr vn offset bs v1 in
          if nwritten < 0 \<or> nat nwritten \<noteq> want then (False, v2) else rename_copy rd wr sz vn1 (offset + want) v2)"
  by pat_completeness auto
termination by (relation "measure (\<lambda>(rd, wr, sz, vn, offset, v). sz - offset)") auto

declare rename_copy.simps [simp del]

text \<open>Renaming behind the checks on the source: the target is removed, created again and filled, and the source removed.\<close>

definition rename_over :: "('m, 'v) file_system \<Rightarrow> bytes \<Rightarrow> bytes \<Rightarrow> vnode \<Rightarrow> (vnode \<Rightarrow> nat \<Rightarrow> nat \<Rightarrow> 'v \<Rightarrow> int \<times> bytes \<times> 'v) \<Rightarrow> nat \<Rightarrow>
    ('m, 'v) kernel \<Rightarrow> ('m, 'v) result" where
  "rename_over fs old_p new_p svn rd mode st =
     (let (d, st1) = on_fsys (vf_resolve fs new_p) st;
          (clear, st2) = (case d of
             None \<Rightarrow> (True, st1)
           | Some (_, dvn) \<Rightarrow> if vn_type dvn \<noteq> VNODE_FILE then (False, st1) else on_fsys (vf_unlink fs new_p) st1) in
      if \<not> clear then ret (-1) st2
      else
        let (c, st3) = on_fsys (vf_create fs new_p (if mode \<noteq> 0 then mode else 420)) st2 in
        (case c of
           None \<Rightarrow> ret (-1) st3
         | Some (m, cvn) \<Rightarrow>
           (case vf_write fs m of
              None \<Rightarrow> ret (-1) st3
            | Some wr \<Rightarrow>
              let (ok, st4) = on_fsys (rename_copy (rd svn) wr (vn_size svn) cvn 0) st3;
                  (gone, st5) = (if ok then on_fsys (vf_unlink fs old_p) st4 else (False, st4))
              in if gone then ret 0 st5 else ret (-1) (snd (on_fsys (vf_unlink fs new_p) st5)))))"

definition sys_rename :: "('m, 'v) file_system \<Rightarrow> u64 \<Rightarrow> u64 \<Rightarrow> ('m, 'v) kernel \<Rightarrow> ('m, 'v) result" where
  "sys_rename fs old_path new_path st = with_path old_path st (\<lambda>old_p. with_path new_path st (\<lambda>new_p.
     if old_p = new_p then ret 0 st
     else
       let (r, st1) = on_fsys (vf_resolve fs old_p) st in
       (case r of
          None \<Rightarrow> ret (-1) st1
        | Some (m, svn) \<Rightarrow>
          (case (vf_read fs m, vf_stat fs m) of
             (Some rd, Some stat) \<Rightarrow>
               if vn_type svn \<noteq> VNODE_FILE then ret (-1) st1
               else
                 let (s, st2) = on_fsys (stat svn) st1 in
                 (case s of None \<Rightarrow> ret (-1) st2 | Some x \<Rightarrow> rename_over fs old_p new_p svn rd (st_mode x) st2)
           | _ \<Rightarrow> ret (-1) st1))))"

section \<open>Devices, the console and the rest\<close>

definition sys_mount :: "('m, 'v) file_system \<Rightarrow> u64 \<Rightarrow> u64 \<Rightarrow> ('m, 'v) kernel \<Rightarrow> ('m, 'v) result" where
  "sys_mount fs src target st = do {
     s \<leftarrow> copy_user_string src SYSCALL_PATH_MAX st;
     (case s of
        None \<Rightarrow> ret (-1) st
      | Some spec \<Rightarrow> with_path target st (\<lambda>p.
        let (d, st1) = on_fsys (resolve_mount_device_spec fs spec) st;
            (d2, st2) = (if d = None then on_fsys (resolve_mount_device_spec fs spec) (snd (on_fsys (vf_rescan fs) st1)) else (d, st1)) in
        (case d2 of None \<Rightarrow> ret (-1) st2 | Some dev \<Rightarrow> status_of (on_fsys (vf_mount_dev fs p dev) st2)))) }"

definition sys_dev_rescan :: "('m, 'v) file_system \<Rightarrow> ('m, 'v) kernel \<Rightarrow> ('m, 'v) result" where
  "sys_dev_rescan fs st = (let (n, st1) = on_fsys (vf_rescan fs) st in ret (int n) st1)"

definition sys_ioctl :: "machine \<Rightarrow> int \<Rightarrow> u64 \<Rightarrow> u64 \<Rightarrow> ('m, 'v) kernel \<Rightarrow> ('m, 'v) result" where
  "sys_ioctl mc fd request arg st =
     (case process_current st of
        None \<Rightarrow> ret (-1) st
      | Some i \<Rightarrow>
        (case process_fd_source i fd st of
           None \<Rightarrow> ret (-1) st
         | Some src \<Rightarrow>
           if \<not> fe_is_console src then ret (-1) st
           else if request = 0x5413 then
             (if arg = 0 \<or> \<not> validate_user_buffer arg 8 True st then ret (-1) st
              else do { st1 \<leftarrow> user_write arg (bytes_le 2 (mc_rows mc) @ bytes_le 2 (mc_cols mc) @ replicate 4 0) st; ret 0 st1 })
           else if request = 0x541B then
             (if arg = 0 \<or> \<not> validate_user_buffer arg 4 True st then ret (-1) st
              else
                let p = proc i st; n = (length (p_stdin_pending p) - p_stdin_pending_pos p) + keyboard_pending_count st
                in do { st1 \<leftarrow> user_write arg (bytes_le 4 n) st; ret 0 st1 })
           else if request = 0x5401 then
             (if arg = 0 \<or> \<not> validate_user_buffer arg 48 True st then ret (-1) st
              else do {
                st1 \<leftarrow> user_write arg (bytes_le 4 0 @ bytes_le 4 1 @ bytes_le 4 0x30 @
                         bytes_le 4 (if p_tty_raw_mode (proc i st) then 0 else 7) @ replicate 32 0) st;
                ret 0 st1 })
           else if request = 0x5402 \<or> request = 0x5403 \<or> request = 0x5404 then
             (if arg = 0 \<or> \<not> validate_user_buffer arg 48 False st then ret (-1) st
              else do {
                tio \<leftarrow> user_read arg 48 st;
                ret 0 (upd_proc i (\<lambda>p. p\<lparr>p_tty_raw_mode := (get_u32 tio 12 AND 2 = 0)\<rparr>) st) })
           else ret (-1) st))"

definition sys_console_input :: "u64 \<Rightarrow> u64 \<Rightarrow> u64 \<Rightarrow> u64 \<Rightarrow> ('m, 'v) kernel \<Rightarrow> ('m, 'v) result" where
  "sys_console_input prefix txt text_len cursor_pos st =
     (if prefix = 0 \<or> txt = 0 \<or> text_len \<ge> of_nat SYSCALL_PATH_MAX \<or> cursor_pos > text_len then ret (-1) st
      else do {
        p \<leftarrow> copy_user_string prefix (SYSCALL_PATH_MAX + 32) st;
        (if p = None then ret (-1) st
         else if \<not> validate_user_buffer txt text_len False st then ret (-1) st
         else do { bs \<leftarrow> user_read txt (unat text_len) st; ret 0 st }) })"

definition sys_clock_gettime :: "machine \<Rightarrow> int \<Rightarrow> u64 \<Rightarrow> ('m, 'v) kernel \<Rightarrow> ('m, 'v) result" where
  "sys_clock_gettime mc clock_id out st =
     (if out = 0 \<or> \<not> validate_user_buffer out 16 True st then ret (-1) st
      else if clock_id \<noteq> 0 \<and> clock_id \<noteq> 1 then ret (-1) st
      else
        let ns = (if clock_id = 0 then mc_realtime_ns mc else mc_monotonic_ns mc)
        in do { st1 \<leftarrow> user_write out (bytes_le 8 (ns div 1000000000) @ bytes_le 8 (ns mod 1000000000)) st; ret 0 st1 })"

definition sys_yield :: "syscall_frame \<Rightarrow> ('m, 'v) kernel \<Rightarrow> ('m, 'v) result" where
  "sys_yield frame st =
     (case process_current st of
        None \<Rightarrow> ret 0 st
      | Some i \<Rightarrow> Some (Leaves, scheduler_add i (scheduler_save_syscall_context i frame 0 st)))"

section \<open>The dispatcher\<close>

definition lift_ret :: "int \<times> ('m, 'v) kernel \<Rightarrow> ('m, 'v) result" where
  "lift_ret r = (case r of (x, st) \<Rightarrow> ret x st)"

abbreviation (input) arg32 :: "u64 \<Rightarrow> int" where "arg32 w \<equiv> sint (ucast w :: u32)"
abbreviation (input) uarg32 :: "u64 \<Rightarrow> nat" where "uarg32 w \<equiv> unat (ucast w :: u32)"

definition syscall_dispatch :: "('m, 'v) file_system \<Rightarrow> machine \<Rightarrow> syscall_frame \<Rightarrow> ('m, 'v) kernel \<Rightarrow> ('m, 'v) result" where
  "syscall_dispatch fs mc f st =
     (let n = unat (sf_syscall_num f); a = sf_rdi f; b = sf_rsi f; c = sf_rdx f in
      if n = 0 then sys_exit (arg32 a) st
      else if n = 1 then sys_write fs (arg32 a) b c st
      else if n = 2 then sys_read fs mc (arg32 a) b c st
      else if n = 3 then sys_open fs a (uarg32 b) st
      else if n = 4 then lift_ret (sys_close (arg32 a) st)
      else if n = 5 then lift_ret (sys_brk a st)
      else if n = 6 then ret (sys_getpid st) st
      else if n = 7 then sys_exec fs a st
      else if n = 8 then sys_spawn fs a st
      else if n = 20 then sys_exec_argv fs a b c st
      else if n = 21 then sys_spawn_argv fs a b c st
      else if n = 9 then sys_waitpid mc (arg32 a) b st
      else if n = 10 then sys_stat fs a b st
      else if n = 15 then sys_readdir fs a b c st
      else if n = 11 then lift_ret (sys_seek (arg32 a) (sint b) (arg32 c) st)
      else if n = 12 then sys_yield f st
      else if n = 13 then sys_mkdir fs a (uarg32 b) st
      else if n = 14 then sys_unlink fs a st
      else if n = 16 then sys_console_input a b c (sf_r10 f) st
      else if n = 17 then ret 0 st
      else if n = 18 then sys_mount fs a b st
      else if n = 19 then sys_dev_rescan fs st
      else if n = 22 then sys_ioctl mc (arg32 a) b c st
      else if n = 23 then sys_chdir fs a st
      else if n = 24 then sys_getcwd a b st
      else if n = 25 then sys_rename fs a b st
      else if n = 26 then sys_truncate fs a b st
      else if n = 27 then sys_ftruncate fs (arg32 a) b st
      else if n = 28 then sys_fstat fs (arg32 a) b st
      else if n = 29 then sys_access fs a (arg32 b) st
      else if n = 30 then lift_ret (sys_dup (arg32 a) st)
      else if n = 31 then lift_ret (sys_dup2 (arg32 a) (arg32 b) st)
      else if n = 32 then lift_ret (sys_fcntl (arg32 a) (arg32 b) c st)
      else if n = 33 then Option.bind (sys_pipe a st) lift_ret
      else if n = 34 then sys_clock_gettime mc (arg32 a) b st
      else if n = 35 then ret (if mc_poweroff mc then 0 else -1) st
      else if n = 36 then Some (Stops, st)
      else ret (-1) st)"

text \<open>What a process goes on with when it is resumed in the kernel.\<close>

definition resume_syscall :: "machine \<Rightarrow> nat \<Rightarrow> continuation \<Rightarrow> ('m, 'v) kernel \<Rightarrow> ('m, 'v) result" where
  "resume_syscall mc i k st =
     (case k of
        Reading buf n len \<Rightarrow> read_console mc i buf n len st
      | Waiting pid status \<Rightarrow> wait_loop mc i pid status st)"

end
