(* ===== verification/Vfs_Props.thy ===== *)
theory Vfs_Props
  imports Vfs
begin

text \<open>
  What the virtual file system promises: paths split and resolve component by component, the mount
  table stays well formed, the mount with the longest path that contains a path is the one that serves it,
  and operations on a read-only mount reach no driver.
\<close>

section \<open>Components\<close>

text \<open>Looking up one name after the other.\<close>

fun walk :: "('p, 'u) vfs_mount \<Rightarrow> vnode \<Rightarrow> bytes list \<Rightarrow> kstate \<Rightarrow> vnode option \<times> kstate" where
  "walk m cur [] s = (Some cur, s)"
| "walk m cur (n # ns) s =
     (case op_lookup (m_ops m) of
        None \<Rightarrow> (None, s)
      | Some lookup \<Rightarrow>
        if vn_type cur \<noteq> VNODE_DIR then (None, s)
        else (case lookup (m_private m) cur n s of (None, s1) \<Rightarrow> (None, s1) | (Some v, s1) \<Rightarrow> walk m v ns s1))"

lemma resolve_walk_components: "resolve_walk m cur p s = walk m cur (map (take 255) (components p)) s"
proof (induction m cur p s rule: resolve_walk.induct)
  case (1 m cur p s)
  let ?q = "dropWhile (\<lambda>c. c = slash) p"
  show ?case
  proof (cases ?q)
    case Nil
    have "components p = []" using components_next [of p] unfolding Nil by simp
    then show ?thesis unfolding resolve_walk.simps [of m cur p s] next_component_def Let_def Nil by simp
  next
    case (Cons c cs)
    have c: "c \<noteq> slash" using dropWhile_ConsD [OF Cons] .
    let ?name = "take 255 (takeWhile (\<lambda>c. c \<noteq> slash) (c # cs))" and ?rest = "dropWhile (\<lambda>c. c \<noteq> slash) (c # cs)"
    have nx: "(?rest, ?name) = next_component p" using Cons by (simp add: next_component_def Let_def)
    have ne: "?name \<noteq> []" using c by simp
    have cp: "map (take 255) (components p) = ?name # map (take 255) (components ?rest)" using components_next [of p] unfolding Cons by simp
    note unf = resolve_walk.simps [of m cur p s] nx [symmetric] cp walk.simps Let_def prod.case if_not_P [OF ne]
    show ?thesis
    proof (cases "op_lookup (m_ops m)")
      case None
      then show ?thesis unfolding unf by simp
    next
      case l: (Some lookup)
      show ?thesis
      proof (cases "vn_type cur = VNODE_DIR")
        case False
        then show ?thesis unfolding unf l by simp
      next
        case True
        obtain r s1 where look: "lookup (m_private m) cur ?name s = (r, s1)" by fastforce
        show ?thesis
        proof (cases r)
          case None
          then show ?thesis unfolding unf l option.case look by simp
        next
          case (Some v)
          have "resolve_walk m v ?rest s1 = walk m v (map (take 255) (components ?rest)) s1"
            by (rule 1 [OF nx refl ne l]) (use True look Some in simp_all)
          then show ?thesis unfolding unf l option.case look Some using True by simp
        qed
      qed
    qed
  qed
qed

section \<open>The mount table\<close>

definition mount_ok :: "('p, 'u) vfs_mount \<Rightarrow> bool" where
  "mount_ok m \<longleftrightarrow> m_root m \<noteq> None \<and> normal_path (mount_path m) \<and> length (mount_path m) < VFS_MAX_MOUNT_PATH"

definition used_at :: "('p, 'u) vfs_mount_slot list \<Rightarrow> nat \<Rightarrow> ('p, 'u) vfs_mount option" where
  "used_at sls i = (if i < length sls \<and> sl_used (sls ! i) then sl_mount (sls ! i) else None)"

text \<open>Sixteen slots; a slot in use has a mount with a root and a normal path, and no two have the same path.\<close>

definition table_ok :: "('p, 'u) vfs_mount_slot list \<Rightarrow> bool" where
  "table_ok sls \<longleftrightarrow> length sls = VFS_MAX_MOUNTS \<and>
     (\<forall>i < length sls. sl_used (sls ! i) \<longrightarrow> (\<exists>m. sl_mount (sls ! i) = Some m \<and> mount_ok m)) \<and>
     (\<forall>i j m n. used_at sls i = Some m \<longrightarrow> used_at sls j = Some n \<longrightarrow> mount_path m = mount_path n \<longrightarrow> i = j)"

lemma find_slot_Some: "find_slot P xs k = Some i \<Longrightarrow> \<exists>j < length xs. i = k + j \<and> P (xs ! j)"
  by (induction xs arbitrary: k) (fastforce split: if_splits simp: less_Suc_eq_0_disj)+

lemma find_slot_None: "find_slot P xs k = None \<Longrightarrow> x \<in> set xs \<Longrightarrow> \<not> P x"
  by (induction xs arbitrary: k) (auto split: if_splits)

lemma exact_Some:
  assumes "find_mount_slot_exact path v = Some i"
  shows "\<exists>m. used_at (g_mounts v) i = Some m \<and> mount_path m = path" "i < length (g_mounts v)"
  using find_slot_Some [OF assms [unfolded find_mount_slot_exact_def]] by (auto simp: used_at_def split: option.splits)

lemma exact_None:
  assumes "find_mount_slot_exact path v = None" "used_at (g_mounts v) i = Some m"
  shows "mount_path m \<noteq> path"
proof -
  have i: "i < length (g_mounts v)" "sl_used (g_mounts v ! i)" "sl_mount (g_mounts v ! i) = Some m"
    using assms(2) by (auto simp: used_at_def split: if_splits)
  then show ?thesis using find_slot_None [OF assms(1) [unfolded find_mount_slot_exact_def], of "g_mounts v ! i"] by auto
qed

lemma avail_Some: "find_mount_slot_available v = Some i \<Longrightarrow> i < length (g_mounts v) \<and> used_at (g_mounts v) i = None"
  using find_slot_Some [of _ "g_mounts v" 0 i] by (auto simp: find_mount_slot_available_def used_at_def)

lemma used_at_update:
  "used_at (sls[i := \<lparr>sl_used = u, sl_mount = mo\<rparr>]) j = (if j = i \<and> i < length sls then (if u then mo else None) else used_at sls j)"
  by (auto simp: used_at_def)

lemma table_ok_slot: "table_ok sls \<Longrightarrow> sl \<in> set sls \<Longrightarrow> sl_used sl \<Longrightarrow> \<exists>m. sl_mount sl = Some m \<and> mount_ok m"
  by (auto simp: table_ok_def in_set_conv_nth)

lemma table_ok_used:
  assumes "table_ok sls" "used_at sls i = Some m"
  shows "mount_ok m"
proof -
  have "i < length sls" "sl_used (sls ! i)" "sl_mount (sls ! i) = Some m" using assms(2) by (auto simp: used_at_def split: if_splits)
  then show ?thesis using table_ok_slot [OF assms(1) nth_mem] by fastforce
qed

text \<open>Writing a mount into a slot keeps the table well formed if no other slot has its path.\<close>

lemma table_ok_set:
  assumes "table_ok sls" "mount_ok m" "\<And>j n. used_at sls j = Some n \<Longrightarrow> mount_path n = mount_path m \<Longrightarrow> j = i"
  shows "table_ok (sls[i := \<lparr>sl_used = True, sl_mount = Some m\<rparr>])"
  unfolding table_ok_def
proof (intro conjI allI impI)
  let ?t = "sls[i := \<lparr>sl_used = True, sl_mount = Some m\<rparr>]"
  show "length ?t = VFS_MAX_MOUNTS" using assms(1) by (simp add: table_ok_def)
  show "\<exists>m. sl_mount (?t ! j) = Some m \<and> mount_ok m" if "j < length ?t" "sl_used (?t ! j)" for j
    using that assms(1,2) by (cases "j = i") (auto simp: table_ok_def)
  show "j = k" if "used_at ?t j = Some a" "used_at ?t k = Some b" "mount_path a = mount_path b" for j k a b
    using that assms(1,3) by (auto simp: used_at_update table_ok_def split: if_splits)
qed

lemma table_ok_clear: "table_ok sls \<Longrightarrow> table_ok (sls[i := \<lparr>sl_used = False, sl_mount = None\<rparr>])"
  by (cases "i < length sls") (auto simp: table_ok_def used_at_update nth_list_update split: if_splits)

lemma slot_available_mounts [simp]: "g_mounts (snd (slot_available i v)) = g_mounts v"
  by (simp add: slot_available_def case_prod_unfold Let_def)

lemma clear_stale_ok:
  assumes ok: "table_ok (g_mounts v)" and run: "clear_stale path v = (free, v')"
  shows "table_ok (g_mounts v')" "free \<Longrightarrow> used_at (g_mounts v') j = Some m \<Longrightarrow> mount_path m \<noteq> path"
proof -
  have "table_ok (g_mounts v') \<and> (free \<longrightarrow> (\<forall>j m. used_at (g_mounts v') j = Some m \<longrightarrow> mount_path m \<noteq> path))"
  proof (cases "find_mount_slot_exact path v")
    case None
    then show ?thesis using run ok exact_None [OF None] by (auto simp: clear_stale_def)
  next
    case (Some i)
    obtain a v1 where a: "slot_available i v = (a, v1)" by fastforce
    then have m1: "g_mounts v1 = g_mounts v" using slot_available_mounts [of i v] by simp
    obtain n where n: "used_at (g_mounts v) i = Some n" "mount_path n = path" "i < length (g_mounts v)" using exact_Some [OF Some] by blast
    show ?thesis
    proof (cases a)
      case True
      then show ?thesis using run Some a m1 ok by (auto simp: clear_stale_def)
    next
      case False
      then have v': "free" "v' = set_slot i False None v1" using run Some a by (auto simp: clear_stale_def)
      have "mount_path k \<noteq> path" if "used_at (g_mounts v') j = Some k" for j k
        using that n ok m1 unfolding v'(2) by (auto simp: set_slot_def used_at_update table_ok_def split: if_splits)
      then show ?thesis using v' ok m1 by (auto simp: set_slot_def table_ok_clear)
    qed
  qed
  then show "table_ok (g_mounts v')" "free \<Longrightarrow> used_at (g_mounts v') j = Some m \<Longrightarrow> mount_path m \<noteq> path" by auto
qed

lemma bind_ok:
  assumes ok: "table_ok (g_mounts v)" and path: "normal_path path" "length path < VFS_MAX_MOUNT_PATH"
    and run: "bind_mount_normalized path m v = (r, v')"
  shows "table_ok (g_mounts v')" "r \<Longrightarrow> \<exists>i. used_at (g_mounts v') i = Some (m\<lparr>mount_path := path\<rparr>)"
proof -
  obtain free v1 where c: "clear_stale path v = (free, v1)" by fastforce
  note cs = clear_stale_ok [OF ok c]
  have "table_ok (g_mounts v') \<and> (r \<longrightarrow> (\<exists>i. used_at (g_mounts v') i = Some (m\<lparr>mount_path := path\<rparr>)))"
  proof (cases "m_root m \<noteq> None \<and> free \<and> find_mount_slot_available v1 \<noteq> None")
    case False
    then show ?thesis using run c cs(1) ok by (auto simp: bind_mount_normalized_def split: if_splits option.splits)
  next
    case True
    then obtain i where i: "find_mount_slot_available v1 = Some i" "m_root m \<noteq> None" free by blast
    then have v': "v' = set_slot i True (Some (m\<lparr>mount_path := path\<rparr>)) v1" using run c by (auto simp: bind_mount_normalized_def)
    have t: "g_mounts v' = (g_mounts v1)[i := \<lparr>sl_used = True, sl_mount = Some (m\<lparr>mount_path := path\<rparr>)\<rparr>]" using v' by (simp add: set_slot_def)
    have "table_ok (g_mounts v')" unfolding t
      using i path cs avail_Some [OF i(1)] by (intro table_ok_set) (auto simp: mount_ok_def)
    moreover have "used_at (g_mounts v') i = Some (m\<lparr>mount_path := path\<rparr>)"
      using t avail_Some [OF i(1)] by (simp add: used_at_update)
    ultimately show ?thesis by blast
  qed
  then show "table_ok (g_mounts v')" "r \<Longrightarrow> \<exists>i. used_at (g_mounts v') i = Some (m\<lparr>mount_path := path\<rparr>)" by auto
qed

lemma try_drivers_ok:
  assumes "table_ok (g_mounts v)" "normal_path path" "length path < VFS_MAX_MOUNT_PATH" "try_drivers drvs path d v = (r, v')"
  shows "table_ok (g_mounts v')"
  using assms
proof (induction drvs path d v rule: try_drivers.induct)
  case (2 drv drvs path d v)
  obtain hit s1 mo s2 where h: "drv_probe drv d (ks v) = (hit, s1)" "drv_mount drv d s1 = (mo, s2)" by fastforce
  show ?case
  proof (cases "hit \<and> mo \<noteq> None")
    case False
    then show ?thesis
      using 2(1) [OF h(1) [symmetric] refl] 2(2) [OF h(1) [symmetric] refl _ h(2) [symmetric] refl refl] "2.prems" h by (cases hit) auto
  next
    case True
    then obtain m ok v3 where m: "mo = Some m" "hit" "bind_mount_normalized path m (v\<lparr>ks := s2\<rparr>) = (ok, v3)" by fastforce
    have "table_ok (g_mounts v3)" by (rule bind_ok(1) [OF _ "2.prems"(2,3) m(3)]) (simp add: "2.prems"(1))
    then show ?thesis
      using 2(3) [OF h(1) [symmetric] refl _ h(2) [symmetric] refl refl m(1) m(3) [symmetric] refl] "2.prems" h m by (cases ok) auto
  qed
qed simp

lemma root_path_ok: "normal_path [slash]" "length [slash] < VFS_MAX_MOUNT_PATH"
  by (simp_all add: normal_path_def)

lemma remount_ok:
  assumes "table_ok (g_mounts v)" "vfs_remount_root_dev drvs d v = (r, v')"
  shows "table_ok (g_mounts v')"
  using assms
proof (induction drvs d v rule: vfs_remount_root_dev.induct)
  case (2 drv drvs d v)
  obtain hit s1 mo s2 where h: "drv_probe drv d (ks v) = (hit, s1)" "drv_mount drv d s1 = (mo, s2)" by fastforce
  let ?v2 = "v\<lparr>ks := s2\<rparr>"
  show ?case
  proof (cases "hit \<and> mo \<noteq> None \<and> m_root (the mo) \<noteq> None")
    case False
    then show ?thesis
      using 2(1) [OF h(1) [symmetric] refl] 2(2) [OF h(1) [symmetric] refl _ h(2) [symmetric] refl refl]
        2(3) [OF h(1) [symmetric] refl _ h(2) [symmetric] refl refl] "2.prems" h by (cases hit; cases mo) auto
  next
    case True
    then obtain m where m: "mo = Some m" "hit" "m_root m \<noteq> None" by auto
    have ok: "mount_ok (m\<lparr>mount_path := [slash]\<rparr>)" using m(3) root_path_ok by (simp add: mount_ok_def)
    have put: "table_ok (g_mounts (set_slot i True (Some (m\<lparr>mount_path := [slash]\<rparr>)) ?v2))"
      if "\<And>j n. used_at (g_mounts v) j = Some n \<Longrightarrow> mount_path n = [slash] \<Longrightarrow> j = i" for i
      using table_ok_set [OF "2.prems"(1) ok, of i] that by (simp add: set_slot_def)
    show ?thesis
    proof (cases "find_mount_slot_exact [slash] ?v2")
      case None
      have "used_at (g_mounts v) j = Some n \<Longrightarrow> mount_path n \<noteq> [slash]" for j n using exact_None [OF None] by simp
      then show ?thesis using put "2.prems" h m None by (auto simp: Let_def split: option.splits)
    next
      case (Some i)
      obtain n where "used_at (g_mounts v) i = Some n" "mount_path n = [slash]" using exact_Some [OF Some] by auto
      then have "used_at (g_mounts v) j = Some k \<Longrightarrow> mount_path k = [slash] \<Longrightarrow> j = i" for j k
        using "2.prems"(1) unfolding table_ok_def by metis
      then show ?thesis using put [of i] "2.prems"(2) h m Some by auto
    qed
  qed
qed simp

lemma select_mounts [simp]: "g_mounts (snd (select_mount_for_path p v)) = g_mounts v"
  by (simp add: select_mount_for_path_def case_prod_unfold Let_def)

lemma resolve_mounts [simp]: "g_mounts (snd (vfs_resolve p v)) = g_mounts v"
  using select_mounts [of p v] by (auto simp: vfs_resolve_def case_prod_unfold Let_def split: option.splits)

lemma resolve_parent_mounts [simp]: "g_mounts (snd (resolve_parent p v)) = g_mounts v"
  using resolve_mounts by (auto simp: resolve_parent_def case_prod_unfold Let_def split: option.splits)

lemma tree_ops_mounts [simp]:
  "g_mounts (snd (vfs_create p mode v)) = g_mounts v" "g_mounts (snd (vfs_mkdir p mode v)) = g_mounts v"
  "g_mounts (snd (vfs_unlink p v)) = g_mounts v" "g_mounts (snd (snd (vfs_readdir p cb u v))) = g_mounts v"
  "g_mounts (snd (vfs_mount_at p v)) = g_mounts v"
  using resolve_parent_mounts [of p v] resolve_mounts
  by (auto simp: vfs_create_def vfs_mkdir_def vfs_unlink_def vfs_readdir_def vfs_mount_at_def case_prod_unfold Let_def split: option.splits)

lemma mount_dev_ok:
  assumes ok: "table_ok (g_mounts v)" and run: "vfs_mount_dev drvs p d v = (r, v')"
  shows "table_ok (g_mounts v')"
proof -
  obtain pres s1 where s1: "on_blk (block_device_is_present d) (ks v) = (pres, s1)" by fastforce
  show ?thesis
  proof (cases "pres \<and> normalize_mount_path p VFS_MAX_MOUNT_PATH \<noteq> None")
    case False
    then show ?thesis using run s1 ok by (cases pres) (auto simp: vfs_mount_dev_def Let_def)
  next
    case True
    then obtain path where path: "normalize_mount_path p VFS_MAX_MOUNT_PATH = Some path" pres by blast
    obtain t v2 where t: "(if path = [slash] then (True, v\<lparr>ks := s1\<rparr>)
        else let (r, v') = vfs_resolve path (v\<lparr>ks := s1\<rparr>) in (case r of None \<Rightarrow> False | Some (m, vn) \<Rightarrow> vn_type vn = VNODE_DIR, v')) = (t, v2)"
      by fastforce
    have m2: "g_mounts v2 = g_mounts v"
      using t resolve_mounts [of path "v\<lparr>ks := s1\<rparr>"] by (auto simp: case_prod_unfold Let_def split: if_splits)
    obtain free v3 where c: "clear_stale path v2 = (free, v3)" by fastforce
    have ok3: "table_ok (g_mounts v3)" using clear_stale_ok(1) [OF _ c] ok m2 by simp
    have "(r, v') = (if \<not> t then (False, v2) else if \<not> free then (False, v3) else if find_mount_slot_available v3 = None then (False, v3)
        else try_drivers drvs path d v3)"
      using run s1 path t c by (cases t; cases free) (simp_all add: vfs_mount_dev_def Let_def)
    then show ?thesis
      using ok m2 ok3 try_drivers_ok [OF ok3 normalize_normal(1,2) [OF path(1)]] by (metis prod.inject)
  qed
qed

text \<open>The states the mount table can be in: after \<open>vfs_init\<close>, any mounts, binds, remounts and operations by path.\<close>

inductive vfs_reach :: "('p, 'u) fs_driver list \<Rightarrow> ('p, 'u) vfs \<Rightarrow> bool" for drvs where
  init: "vfs_reach drvs (vfs_init v)"
| bind: "vfs_reach drvs v \<Longrightarrow> vfs_reach drvs (snd (vfs_bind_mount p m v))"
| mount: "vfs_reach drvs v \<Longrightarrow> vfs_reach drvs (snd (vfs_mount_dev drvs p d v))"
| auto_root: "vfs_reach drvs v \<Longrightarrow> vfs_reach drvs (snd (vfs_mount_root_auto drvs v))"
| remount: "vfs_reach drvs v \<Longrightarrow> vfs_reach drvs (snd (vfs_remount_root_dev drvs d v))"
| create: "vfs_reach drvs v \<Longrightarrow> vfs_reach drvs (snd (vfs_create p mode v))"
| mkdir: "vfs_reach drvs v \<Longrightarrow> vfs_reach drvs (snd (vfs_mkdir p mode v))"
| unlink: "vfs_reach drvs v \<Longrightarrow> vfs_reach drvs (snd (vfs_unlink p v))"
| readdir: "vfs_reach drvs v \<Longrightarrow> vfs_reach drvs (snd (snd (vfs_readdir p cb u v)))"
| resolve: "vfs_reach drvs v \<Longrightarrow> vfs_reach drvs (snd (vfs_resolve p v))"

lemma table_ok_init: "table_ok (g_mounts (vfs_init v))"
  by (simp add: vfs_init_def table_ok_def used_at_def)

lemma reach_table_ok:
  assumes "vfs_reach drvs v"
  shows "table_ok (g_mounts v)"
  using assms
proof induction
  case (init v)
  show ?case by (rule table_ok_init)
next
  case (bind v p m)
  then show ?case
    by (cases "normalize_mount_path p VFS_MAX_MOUNT_PATH")
      (auto simp: vfs_bind_mount_def intro: bind_ok(1) [OF _ normalize_normal(1,2) prod.collapse [symmetric]])
next
  case (mount v p d)
  show ?case by (rule mount_dev_ok [OF mount.IH prod.collapse [symmetric]])
next
  case (auto_root v)
  obtain dev s1 where s1: "pick_default_root_device (ks v) = (dev, s1)" by fastforce
  have "table_ok (g_mounts (v\<lparr>ks := s1\<rparr>))" using auto_root by simp
  then show ?case
    using s1 mount_dev_ok [OF _ prod.collapse [symmetric], of "v\<lparr>ks := s1\<rparr>"] by (auto simp: vfs_mount_root_auto_def Let_def split: option.splits)
next
  case (remount v d)
  show ?case by (rule remount_ok [OF remount.IH prod.collapse [symmetric]])
qed simp_all

section \<open>The mount that serves a path\<close>

text \<open>Whether a device is there depends on the hardware only, not on the presence flags kept in the registry.\<close>

definition disk_there :: "nat \<Rightarrow> block_state \<Rightarrow> bool" where
  "disk_there i st \<longleftrightarrow> i < length (g_disks st) \<and> disk_backend_present (snd (g_disks st ! i)) (hw st)"

fun dev_there :: "blockdev \<Rightarrow> block_state \<Rightarrow> bool" where
  "dev_there (DiskDev i) st = disk_there i st"
| "dev_there (PartDev i) st = (i < length (g_parts st) \<and> disk_there (parent (snd (g_parts st ! i))) st)"

definition mount_there :: "('p, 'u) vfs_mount \<Rightarrow> kstate \<Rightarrow> bool" where
  "mount_there m s \<longleftrightarrow> m_root m \<noteq> None \<and> (case m_dev m of None \<Rightarrow> True | Some d \<Rightarrow> dev_there d (blk (k_cache s)))"

lemma disk_present_synced: "disk_present i (sync_disk_presence i st) = disk_there i st"
  by (simp add: disk_present_def sync_disk_presence_def disk_there_def case_prod_unfold Let_def)

lemma sync_part_presence_disks: "hw (sync_part_presence i st) = hw st"
  by (simp add: sync_part_presence_def case_prod_unfold Let_def)

lemma sync_part_presence_flag:
  "i < length (g_parts st) \<Longrightarrow> present (fst (g_parts (sync_part_presence i st) ! i)) = disk_there (parent (snd (g_parts st ! i))) st"
  by (simp add: sync_part_presence_def case_prod_unfold Let_def disk_present_synced)

lemma block_device_is_present_there:
  "fst (block_device_is_present d st) = dev_there d st" "same_devices st (snd (block_device_is_present d st))"
  "hw (snd (block_device_is_present d st)) = hw st"
  by (cases d; simp add: Let_def disk_present_synced sync_part_presence_flag sync_part_presence_disks)+

lemma dev_there_same: "same_devices st st' \<Longrightarrow> hw st' = hw st \<Longrightarrow> dev_there d st' = dev_there d st"
  using same_devices_ctx [of st st'] same_devices_length [of st st'] by (cases d) (auto simp: disk_there_def)

text \<open>Two states that differ in the presence flags of the registry.\<close>

definition flags_only :: "kstate \<Rightarrow> kstate \<Rightarrow> bool" where
  "flags_only s s' \<longleftrightarrow> s' = s\<lparr>k_cache := (k_cache s)\<lparr>blk := blk (k_cache s')\<rparr>\<rparr> \<and>
     same_devices (blk (k_cache s)) (blk (k_cache s')) \<and> hw (blk (k_cache s')) = hw (blk (k_cache s))"

lemma flags_only_refl: "flags_only s s"
  by (simp add: flags_only_def)

lemma flags_only_trans:
  assumes "flags_only a b" "flags_only b c"
  shows "flags_only a c"
proof -
  have "c = a\<lparr>k_cache := (k_cache a)\<lparr>blk := blk (k_cache c)\<rparr>\<rparr>"
    using assms unfolding flags_only_def by (cases a; cases b; cases c; cases "k_cache a"; cases "k_cache b"; cases "k_cache c") simp
  then show ?thesis using assms same_devices_trans unfolding flags_only_def by auto
qed

lemma flags_only_there: "flags_only s s' \<Longrightarrow> mount_there m s' = mount_there m s"
  unfolding flags_only_def mount_there_def by (auto simp: dev_there_same split: option.splits)

lemma mount_available_there:
  "fst (mount_available (Some m) s) = mount_there m s" "flags_only s (snd (mount_available (Some m) s))"
  using block_device_is_present_there [where st = "blk (k_cache s)"] flags_only_refl [of s]
  by (auto simp: mount_available_def mount_there_def on_blk_def case_prod_unfold Let_def flags_only_def split: option.splits)

text \<open>A path lies under a mount point if it is the mount point or goes on with a slash behind it.\<close>

definition under :: "bytes \<Rightarrow> bytes \<Rightarrow> bool" where
  "under mp p \<longleftrightarrow> mp = [slash] \<or> p = mp \<or> (\<exists>q. p = mp @ slash # q)"

lemma prefix_under:
  assumes "normal_path mp" "is_abs_path p" "0 \<notin> set p"
  shows "path_has_mount_prefix p mp = (if under mp p then Some (length mp) else None)"
proof (cases "mp = [slash]")
  case True
  then show ?thesis using assms(2) by (simp add: path_has_mount_prefix_def under_def is_abs_path_def)
next
  case False
  then have mp: "mp \<noteq> []" "hd mp = slash" "length mp \<noteq> 1" using assms(1) by (auto simp: normal_path_def length_Suc_conv)
  show ?thesis
  proof (cases "take (length mp) p = mp")
    case True
    then obtain r where r: "p = mp @ r" by (metis append_take_drop_id)
    then show ?thesis using mp False assms(3) by (cases r) (auto simp: path_has_mount_prefix_def under_def at_pos_def nth_append)
  next
    case no: False
    then have "\<not> under mp p" using False by (auto simp: under_def)
    then show ?thesis using no mp by (simp add: path_has_mount_prefix_def)
  qed
qed

definition serves :: "('p, 'u) vfs_mount_slot list \<Rightarrow> kstate \<Rightarrow> bytes \<Rightarrow> ('p, 'u) vfs_mount \<Rightarrow> bool" where
  "serves sls s p m \<longleftrightarrow> (\<exists>sl \<in> set sls. sl_used sl \<and> sl_mount sl = Some m \<and> mount_there m s \<and> under (mount_path m) p)"

text \<open>\<open>best\<close> is the choice so far; the loop ends with the longest of it and the mounts that serve the path.\<close>

definition longest :: "(('p, 'u) vfs_mount \<Rightarrow> bool) \<Rightarrow> (('p, 'u) vfs_mount \<times> nat) option \<Rightarrow> bool" where
  "longest C r \<longleftrightarrow> (case r of None \<Rightarrow> \<forall>m. \<not> C m
     | Some (b, l) \<Rightarrow> C b \<and> l = length (mount_path b) \<and> (\<forall>m. C m \<longrightarrow> length (mount_path m) \<le> l))"

lemma select_loop_spec:
  assumes "\<forall>sl \<in> set sls. sl_used sl \<longrightarrow> (\<exists>m. sl_mount sl = Some m \<and> normal_path (mount_path m))" "is_abs_path p" "0 \<notin> set p"
    "select_loop p sls best s = (res, s')" "longest C best"
  shows "flags_only s s' \<and> longest (\<lambda>m. C m \<or> serves sls s p m) res"
  using assms
proof (induction sls arbitrary: best s C)
  case Nil
  then show ?case by (simp add: serves_def flags_only_refl)
next
  case (Cons sl sls)
  show ?case
  proof (cases "sl_used sl")
    case False
    then have "serves (sl # sls) s p = serves sls s p" by (auto simp: serves_def)
    then show ?thesis using Cons.IH [OF _ Cons.prems(2,3) _ Cons.prems(5)] Cons.prems False by simp
  next
    case True
    then obtain m where m: "sl_mount sl = Some m" "normal_path (mount_path m)" using Cons.prems(1) by auto
    obtain a s1 where a: "mount_available (Some m) s = (a, s1)" by fastforce
    have f: "a = mount_there m s" "flags_only s s1" using mount_available_there [where m = m and s = s] a by auto
    have sv: "serves (sl # sls) s p n = (n = m \<and> a \<and> under (mount_path m) p \<or> serves sls s1 p n)" for n
      using True m flags_only_there [OF f(2)] by (auto simp: serves_def f(1))
    let ?hit = "a \<and> under (mount_path m) p"
    let ?best = "if ?hit then (case best of None \<Rightarrow> Some (m, length (mount_path m))
        | Some (b, bl) \<Rightarrow> if length (mount_path m) > bl then Some (m, length (mount_path m)) else best) else best"
    have step: "select_loop p sls ?best s1 = (res, s')"
      using Cons.prems(4) True m a prefix_under [OF m(2) Cons.prems(2,3)] by (auto split: if_splits)
    have "longest (\<lambda>n. C n \<or> n = m \<and> ?hit) ?best"
      using Cons.prems(5) by (auto simp: longest_def split: option.splits if_splits)
    from Cons.IH [OF _ Cons.prems(2,3) step this] Cons.prems(1)
    have "flags_only s1 s' \<and> longest (\<lambda>n. (C n \<or> n = m \<and> ?hit) \<or> serves sls s1 p n) res" by auto
    moreover have "(\<lambda>n. (C n \<or> n = m \<and> ?hit) \<or> serves sls s1 p n) = (\<lambda>n. C n \<or> serves (sl # sls) s p n)"
      unfolding sv by auto
    ultimately show ?thesis using flags_only_trans [OF f(2)] by auto
  qed
qed

lemma serves_used_at: "serves sls s p m \<longleftrightarrow> (\<exists>i. used_at sls i = Some m) \<and> mount_there m s \<and> under (mount_path m) p"
proof -
  have "(\<exists>i. used_at sls i = Some m) \<longleftrightarrow> (\<exists>sl \<in> set sls. sl_used sl \<and> sl_mount sl = Some m)"
  proof
    assume "\<exists>i. used_at sls i = Some m"
    then obtain i where "i < length sls" "sl_used (sls ! i)" "sl_mount (sls ! i) = Some m" by (auto simp: used_at_def split: if_splits)
    then show "\<exists>sl \<in> set sls. sl_used sl \<and> sl_mount sl = Some m" using nth_mem by blast
  next
    assume "\<exists>sl \<in> set sls. sl_used sl \<and> sl_mount sl = Some m"
    then obtain i where "i < length sls" "sl_used (sls ! i)" "sl_mount (sls ! i) = Some m" by (auto simp: in_set_conv_nth)
    then have "used_at sls i = Some m" by (simp add: used_at_def)
    then show "\<exists>i. used_at sls i = Some m" by blast
  qed
  then show ?thesis by (auto simp: serves_def)
qed

lemma select_spec:
  assumes "table_ok (g_mounts v)" and "is_abs_path p" and "0 \<notin> set p" and "select_mount_for_path p v = (r, v')"
  shows "(case r of
      None \<Rightarrow> \<forall>i m. used_at (g_mounts v) i = Some m \<longrightarrow> \<not> (mount_there m (ks v) \<and> under (mount_path m) p)
    | Some (m, rel) \<Rightarrow> (\<exists>i. used_at (g_mounts v) i = Some m) \<and> mount_there m (ks v) \<and> under (mount_path m) p \<and>
        (\<forall>j n. used_at (g_mounts v) j = Some n \<longrightarrow> mount_there n (ks v) \<longrightarrow> under (mount_path n) p \<longrightarrow>
           length (mount_path n) \<le> length (mount_path m)) \<and>
        (if mount_path m = [slash] then rel = p else if p = mount_path m then rel = [slash] else p = mount_path m @ rel))"
proof -
  obtain b s where sel: "select_loop p (g_mounts v) None (ks v) = (b, s)" by fastforce
  have r: "r = map_option (\<lambda>(m, l). (m, rel_path p l)) b" using assms(2,4) sel by (simp add: select_mount_for_path_def)
  have "\<forall>sl \<in> set (g_mounts v). sl_used sl \<longrightarrow> (\<exists>m. sl_mount sl = Some m \<and> normal_path (mount_path m))"
    using table_ok_slot [OF assms(1)] by (fastforce simp: mount_ok_def)
  from select_loop_spec [OF this assms(2,3) sel, of "\<lambda>_. False"]
  have l: "longest (serves (g_mounts v) (ks v) p) b" by (simp add: longest_def)
  show ?thesis
  proof (cases b)
    case None
    then show ?thesis using l r by (auto simp: longest_def serves_used_at)
  next
    case (Some x)
    then obtain m where b: "b = Some (m, length (mount_path m))" "serves (g_mounts v) (ks v) p m"
      "\<And>n. serves (g_mounts v) (ks v) p n \<Longrightarrow> length (mount_path n) \<le> length (mount_path m)"
      using l by (cases x) (auto simp: longest_def)
    have mp: "normal_path (mount_path m)" "under (mount_path m) p"
      using b(2) table_ok_used [OF assms(1)] by (auto simp: serves_used_at mount_ok_def)
    have "if mount_path m = [slash] then rel_path p (length (mount_path m)) = p
        else if p = mount_path m then rel_path p (length (mount_path m)) = [slash] else p = mount_path m @ rel_path p (length (mount_path m))"
      using mp by (auto simp: rel_path_def at_pos_def under_def normal_path_def length_Suc_conv)
    moreover have "length (mount_path n) \<le> length (mount_path m)"
      if "used_at (g_mounts v) j = Some n" "mount_there n (ks v)" "under (mount_path n) p" for n j
      using b(3) [of n] that unfolding serves_used_at by blast
    moreover have "(\<exists>i. used_at (g_mounts v) i = Some m) \<and> mount_there m (ks v)" using b(2) by (simp add: serves_used_at)
    moreover have "r = Some (m, rel_path p (length (mount_path m)))" using r b(1) by simp
    ultimately show ?thesis using mp(2) by simp
  qed
qed

text \<open>C11: a path is served by the mount with the longest path among those that are available and contain it, and by
  none if there is no such mount; what is left of the path for that mount's driver continues the mount point. The
  test is on whole components: a mount at /mnt does not serve /mnt2.\<close>

theorem select_mount_longest:
  assumes "table_ok (g_mounts v)" and "is_abs_path p" and "0 \<notin> set p" and "select_mount_for_path p v = (r, v')"
  shows "(case r of
      None \<Rightarrow> \<forall>i m. used_at (g_mounts v) i = Some m \<longrightarrow> \<not> (mount_there m (ks v) \<and> under (mount_path m) p)
    | Some (m, rel) \<Rightarrow> (\<exists>i. used_at (g_mounts v) i = Some m) \<and> mount_there m (ks v) \<and> under (mount_path m) p \<and>
        (\<forall>j n. used_at (g_mounts v) j = Some n \<longrightarrow> mount_there n (ks v) \<longrightarrow> under (mount_path n) p \<longrightarrow>
           length (mount_path n) \<le> length (mount_path m)) \<and>
        (if mount_path m = [slash] then rel = p else if p = mount_path m then rel = [slash] else p = mount_path m @ rel))"
  by (rule select_spec [OF assms])

section \<open>Drivers whose lookup only reads\<close>

lemma flags_only_quiet:
  assumes "flags_only s s'"
  shows "quiet d s s'"
  unfolding quiet_def
proof (intro allI impI)
  let ?c = "k_cache s" and ?st = "blk (k_cache s')"
  fix D assume "kready D s"
  then have ok: "bc_inv D ?c" "bc_ready ?c" "\<forall>r \<in> set (refs ?c). r = 0" by (auto simp: kready_def ready_ok_def cache_ok_def)
  have e: "s' = s\<lparr>k_cache := ?c\<lparr>blk := ?st\<rparr>\<rparr>" and f: "same_devices (blk ?c) ?st" "hw ?st = hw (blk ?c)"
    using assms unfolding flags_only_def by blast+
  have "k_cache (s\<lparr>k_cache := ?c\<lparr>blk := ?st\<rparr>\<rparr>) = ?c\<lparr>blk := ?st\<rparr>" by simp
  from trans [OF arg_cong [OF e, where f = k_cache] this] have c: "k_cache s' = ?c\<lparr>blk := ?st\<rparr>" .
  have wf: "block_wf ?st"
    using block_wf_same [OF _ f(1)] ok(1) f(2) by (auto simp: bc_inv_def devs_ok_def block_wf_def)
  have "dev_block ?st e n = dev_block (blk ?c) e n" if "e \<in> D" for e n
    using dev_block_same [OF inv_dev_ok [OF ok(1) that] f(1)] f(2) by simp
  then have sil: "silent D ?c (k_cache s')" using silent_blk [OF ok(1) f(1) wf] c by auto
  then show "kready D s' \<and> (\<forall>e \<in> D. vol e s' = vol e s)"
    using ok by (auto simp: kready_def ready_ok_def cache_ok_def vol_def silent_def)
qed

text \<open>What the walk along a path relies on: a lookup leaves the volume of the file system alone.\<close>

locale reading_driver =
  fixes lookup :: "'p \<Rightarrow> vnode \<Rightarrow> bytes \<Rightarrow> kstate \<Rightarrow> vnode option \<times> kstate" and dev_of :: "'p \<Rightarrow> blockdev"
  assumes lookup_reads: "lookup p dir name s = (r, s') \<Longrightarrow> quiet (dev_of p) s s'"
begin

lemma walk_reads:
  "op_lookup (m_ops m) = Some lookup \<Longrightarrow> walk m cur ns s = (r, s') \<Longrightarrow> quiet (dev_of (m_private m)) s s'"
proof (induction ns arbitrary: cur s)
  case (Cons n ns)
  obtain x s1 where l: "lookup (m_private m) cur n s = (x, s1)" by fastforce
  have q: "quiet (dev_of (m_private m)) s s1" by (rule lookup_reads [OF l])
  show ?case
    using Cons.prems Cons.IH [OF Cons.prems(1), of _ s1] l q quiet_trans [OF q] by (auto split: if_splits option.splits)
qed simp

lemma resolve_reads:
  assumes "table_ok (g_mounts v)" "0 \<notin> set p" "select_mount_for_path p v = (Some (m, rel), v1)" "op_lookup (m_ops m) = Some lookup"
    "vfs_resolve p v = (r, v')"
  shows "quiet (dev_of (m_private m)) (ks v) (ks v')" "g_mounts v' = g_mounts v" "r = Some (n, vn) \<Longrightarrow> n = m"
proof -
  let ?d = "dev_of (m_private m)"
  have abs: "is_abs_path p" using assms(3) by (auto simp: select_mount_for_path_def split: if_splits)
  obtain b s1 where b: "select_loop p (g_mounts v) None (ks v) = (b, s1)" by fastforce
  have v1: "v1 = v\<lparr>ks := s1\<rparr>" using assms(3) b abs by (simp add: select_mount_for_path_def)
  have "\<forall>sl \<in> set (g_mounts v). sl_used sl \<longrightarrow> (\<exists>m. sl_mount sl = Some m \<and> normal_path (mount_path m))"
    using table_ok_slot [OF assms(1)] by (fastforce simp: mount_ok_def)
  then have "flags_only (ks v) s1" using select_loop_spec [OF _ abs assms(2) b, of "\<lambda>_. False"] by (simp add: longest_def)
  then have q1: "quiet ?d (ks v) s1" by (rule flags_only_quiet)
  obtain root s2 where c: "clone_mount_root m s1 = (root, s2)" by fastforce
  have q2: "quiet ?d s1 s2" using c quiet_kmalloc [of s1] by (auto simp: clone_mount_root_def split: option.splits prod.splits)
  have "quiet ?d s2 (ks v')"
  proof (cases root)
    case (Some r0)
    obtain y s3 where w: "resolve_walk m r0 rel s2 = (y, s3)" by fastforce
    have "quiet ?d s2 s3" using walk_reads [OF assms(4)] w by (simp add: resolve_walk_components)
    then show ?thesis using assms(5,3) v1 c Some w by (auto simp: vfs_resolve_def split: if_splits)
  qed (use assms(5,3) v1 c in \<open>auto simp: vfs_resolve_def\<close>)
  then show "quiet ?d (ks v) (ks v')" using quiet_trans [OF quiet_trans [OF q1 q2]] by blast
  show "g_mounts v' = g_mounts v" "r = Some (n, vn) \<Longrightarrow> n = m"
    using assms(5,3) v1 c by (auto simp: vfs_resolve_def split: option.splits if_splits prod.splits)
qed

end

text \<open>KiFS is such a driver.\<close>

definition kifs_dev :: "kifs_fs + 'o \<Rightarrow> blockdev" where
  "kifs_dev p = (case p of Inl fs \<Rightarrow> fs_dev fs | Inr _ \<Rightarrow> DiskDev 0)"

interpretation kl: reading_driver "the (op_lookup kifs_vops)" kifs_dev
  by unfold_locales
    (auto simp: kifs_vops_def kifs_dev_def kifs_vnode_lookup_quiet split: sum.splits)

lemma resolve_parent_readonly:
  assumes "table_ok (g_mounts v)" "0 \<notin> set p" "split_parent_child p 256 256 = Some (dir, name)"
    "select_mount_for_path dir v = (Some (m, rel), v1)" "m_ops m = kifs_vops" "m_readonly m" "resolve_parent p v = (r, v')"
  shows "r = None" "quiet (kifs_dev (m_private m)) (ks v) (ks v')" "g_mounts v' = g_mounts v"
proof -
  have z: "0 \<notin> set dir" using parts_of_split [OF assms(3)] assms(2) by (auto split: if_splits)
  have lk: "op_lookup (m_ops m) = Some (the (op_lookup kifs_vops))" using assms(5) by (simp add: kifs_vops_def)
  obtain x v2 where x: "vfs_resolve dir v = (x, v2)" by fastforce
  note rd = kl.resolve_reads [OF assms(1) z assms(4) lk x]
  show "r = None" "quiet (kifs_dev (m_private m)) (ks v) (ks v')" "g_mounts v' = g_mounts v"
    using assms(3,6,7) x rd by (auto simp: resolve_parent_def split: option.splits prod.splits)
qed

section \<open>What the layer promises\<close>

text \<open>C14: \<open>split_parent_child\<close> accepts exactly the absolute paths that are a directory path of less than 256 bytes, a
  slash, a name of 1 to 255 bytes without a slash that is neither . nor .., and any number of further
  slashes, and returns that directory and that name.\<close>

theorem split_parent_child_correct:
  "split_parent_child p 256 256 = Some (par_path, name) \<longleftrightarrow>
     (\<exists>d k. p = d @ slash # name @ replicate k slash \<and> (d = [] \<or> hd d = slash) \<and> length d < 256 \<and>
        name \<noteq> [] \<and> slash \<notin> set name \<and> length name < 256 \<and> name \<noteq> [0x2E] \<and> name \<noteq> [0x2E, 0x2E] \<and>
        par_path = (if d = [] then [slash] else d))"
    (is "_ \<longleftrightarrow> ?parts")
proof
  assume "split_parent_child p 256 256 = Some (par_path, name)"
  from parts_of_split [OF this] show ?parts unfolding good_name_def by blast
next
  assume ?parts
  then obtain d k where "p = d @ slash # name @ replicate k slash" "d = [] \<or> hd d = slash" "length d < 256" "good_name name"
    "par_path = (if d = [] then [slash] else d)" unfolding good_name_def by blast
  from split_of_parts [OF this(1-4)] this(5) show "split_parent_child p 256 256 = Some (par_path, name)" by simp
qed

text \<open>C13: resolving a path within a mount looks up its components one after the other, each cut to its first 255 bytes,
  where the components are the non-empty pieces between slashes; it stops at the first that is missing or
  that is to be looked up in something that is no directory.\<close>

theorem resolve_walk_correct:
  "resolve_walk m cur p s = walk m cur (map (take 255) (components p)) s"
  by (rule resolve_walk_components)

text \<open>C15: when the directory of a path is served by a read-only KiFS mount, creating, making a directory and unlinking at that path
  fail, keep the mount table, and leave every block of every volume as it is. What else is mounted, with whichever drivers and
  writable or not, does not matter.\<close>

theorem readonly_mounts_protected:
  assumes "table_ok (g_mounts v)" and "0 \<notin> set p" and "split_parent_child p 256 256 = Some (dir, name)"
    and "fst (select_mount_for_path dir v) = Some (m, rel)" and "m_readonly m" and "m_ops m = kifs_vops" and "m_private m = Inl fs"
    and "kready D (ks v)" and "fs_dev fs \<in> D"
  shows "fst (vfs_create p mode v) = None \<and> \<not> fst (vfs_mkdir p mode v) \<and> \<not> fst (vfs_unlink p v) \<and>
    (\<forall>v' \<in> {snd (vfs_create p mode v), snd (vfs_mkdir p mode v), snd (vfs_unlink p v)}.
       g_mounts v' = g_mounts v \<and> (\<forall>e \<in> D. vol e (ks v') = vol e (ks v)))"
proof -
  obtain r v1 where r: "resolve_parent p v = (r, v1)" by fastforce
  obtain v2 where sl: "select_mount_for_path dir v = (Some (m, rel), v2)" using assms(4) by (metis prod.collapse)
  note rd = resolve_parent_readonly [OF assms(1-3) sl assms(6,5) r]
  have "kifs_dev (m_private m) = fs_dev fs" using assms(7) by (simp add: kifs_dev_def)
  then have "\<forall>e \<in> D. vol e (ks v1) = vol e (ks v)" using rd(2) assms(8,9) by (simp add: quiet_def)
  then show ?thesis using r rd(1,3) by (simp add: vfs_create_def vfs_mkdir_def vfs_unlink_def)
qed

definition example_mount :: "(kifs_fs + unit, unit) vfs_mount" where
  "example_mount = \<lparr>m_fs_name = [0x6B, 0x69, 0x66, 0x73], m_dev = Some (PartDev 0),
     m_root = Some \<lparr>vn_type = VNODE_DIR, vn_ino = 1, vn_size = 4096, vn_refcount = 0\<rparr>,
     mount_path = [slash], m_readonly = True, m_private = Inl example_fs, m_ops = kifs_vops\<rparr>"

definition example_vfs :: "(kifs_fs + unit, unit) vfs" where
  "example_vfs = snd (vfs_bind_mount [slash] example_mount (vfs_init \<lparr>g_mounts = [], ks = example_kstate\<rparr>))"

lemma example_reach: "vfs_reach [] example_vfs"
  unfolding example_vfs_def by (intro vfs_reach.intros)

lemma example_vfs_eq: "example_vfs = \<lparr>g_mounts = \<lparr>sl_used = True, sl_mount = Some example_mount\<rparr> #
    replicate 15 \<lparr>sl_used = False, sl_mount = None\<rparr>, ks = example_kstate\<rparr>"
  by (simp add: example_vfs_def vfs_bind_mount_def normalize_id normal_path_def bind_mount_normalized_def clear_stale_def
      find_mount_slot_exact_def find_mount_slot_available_def vfs_init_def example_mount_def set_slot_def eval_nat_numeral)

text \<open>C12: in every state that mounts, binds, remounts and operations by path can lead to, with any drivers, the mount
  table has its 16 slots, every slot in use holds a mount with a root and a normalized path of less than
  256 bytes, and no path is mounted twice.\<close>

theorem mount_table_invariant:
  assumes "vfs_reach drvs v"
  shows "table_ok (g_mounts v)"
  by (rule reach_table_ok [OF assms])

theorem mount_table_invariant_witness: "table_ok (g_mounts example_vfs)"
  by (rule mount_table_invariant [OF example_reach])

lemma example_used: "used_at (g_mounts example_vfs) i = Some m \<Longrightarrow> m = example_mount"
  by (cases i) (auto simp: example_vfs_eq used_at_def split: if_splits)

text \<open>The read-only mount at the root beside a writable mount of another driver at /d.\<close>

definition dev_mount :: "(kifs_fs + unit, unit) vfs_mount" where
  "dev_mount = \<lparr>m_fs_name = [0x64], m_dev = None, m_root = Some \<lparr>vn_type = VNODE_DIR, vn_ino = 1, vn_size = 0, vn_refcount = 0\<rparr>,
     mount_path = [slash, 0x64], m_readonly = False, m_private = Inr (),
     m_ops = \<lparr>op_lookup = None, op_readdir = None, op_create = None, op_mkdir = None, op_unlink = None\<rparr>\<rparr>"

definition example_vfs2 :: "(kifs_fs + unit, unit) vfs" where
  "example_vfs2 = snd (vfs_bind_mount [slash, 0x64] dev_mount example_vfs)"

lemma example_reach2: "vfs_reach [] example_vfs2"
  unfolding example_vfs2_def by (intro vfs_reach.intros example_reach)

lemma example_vfs2_eq: "example_vfs2 = \<lparr>g_mounts = \<lparr>sl_used = True, sl_mount = Some example_mount\<rparr> # \<lparr>sl_used = True, sl_mount = Some dev_mount\<rparr> #
    replicate 14 \<lparr>sl_used = False, sl_mount = None\<rparr>, ks = example_kstate\<rparr>"
proof -
  have free: "find_slot P (replicate n x) i = None" if "\<not> P x" for P n and x :: "(kifs_fs + unit, unit) vfs_mount_slot" and i
    using that by (induction n arbitrary: i) simp_all
  have rep: "replicate 15 x = x # replicate 14 x" for x :: "(kifs_fs + unit, unit) vfs_mount_slot" by (simp add: numeral_eq_Suc)
  have "mount_path example_mount = [slash]" "m_root dev_mount \<noteq> None" "dev_mount\<lparr>mount_path := [slash, 0x64]\<rparr> = dev_mount"
    by (simp_all add: example_mount_def dev_mount_def)
  then show ?thesis
    unfolding example_vfs2_def example_vfs_eq rep
    by (simp add: vfs_bind_mount_def normalize_id normal_path_def bind_mount_normalized_def clear_stale_def
        find_mount_slot_exact_def find_mount_slot_available_def set_slot_def free)
qed

lemma example_used2: "used_at (g_mounts example_vfs2) i = Some m \<Longrightarrow> m = example_mount \<or> m = dev_mount"
  by (cases i; cases "i - 1") (auto simp: example_vfs2_eq used_at_def split: if_splits)

lemma example_cache_disks: "g_disks (blk example_cache) = g_disks example_block"
  by (simp add: example_cache_def bcache_init_def init_buf_def lru_push_front_def Let_def case_prod_unfold)

theorem select_mount_longest_witness:
  "\<exists>m rel. fst (select_mount_for_path [slash, 0x61] example_vfs) = Some (m, rel) \<and> mount_path m = [slash] \<and> rel = [slash, 0x61]"
proof -
  obtain r v' where r: "select_mount_for_path [slash, 0x61] example_vfs = (r, v')" by fastforce
  have abs: "is_abs_path [slash, 0x61]" by (simp add: is_abs_path_def)
  note sel = select_mount_longest [OF reach_table_ok [OF example_reach] abs _ r]
  have "used_at (g_mounts example_vfs) 0 = Some example_mount" by (simp add: example_vfs_eq used_at_def)
  moreover have "mount_there example_mount (ks example_vfs)"
    by (simp add: example_vfs_eq mount_there_def example_mount_def example_kstate_def example_cache_parts disk_there_def example_cache_disks
        example_block_def disk_backend_present_def)
  moreover have "under (mount_path example_mount) [slash, 0x61]" by (simp add: under_def example_mount_def)
  ultimately obtain m rel where m: "r = Some (m, rel)" using sel by (cases r) auto
  then have "m = example_mount" using sel example_used by auto
  then show ?thesis using sel m r by (simp add: example_mount_def)
qed

theorem readonly_mounts_protected_witness:
  "fst (vfs_create [slash, 0x61] 0 example_vfs2) = None \<and>
   vol (PartDev 0) (ks (snd (vfs_unlink [slash, 0x61] example_vfs2))) = vol (PartDev 0) (ks example_vfs2)"
proof -
  obtain r v' where r: "select_mount_for_path [slash] example_vfs2 = (r, v')" by fastforce
  have abs: "is_abs_path [slash]" by (simp add: is_abs_path_def)
  note sel = select_spec [OF reach_table_ok [OF example_reach2] abs _ r]
  have "used_at (g_mounts example_vfs2) 0 = Some example_mount" by (simp add: example_vfs2_eq used_at_def)
  moreover have "mount_there example_mount (ks example_vfs2)"
    by (simp add: example_vfs2_eq mount_there_def example_mount_def example_kstate_def example_cache_parts disk_there_def example_cache_disks
        example_block_def disk_backend_present_def)
  moreover have "under (mount_path example_mount) [slash]" by (simp add: under_def example_mount_def)
  ultimately obtain m rel where m: "r = Some (m, rel)" using sel by (cases r) auto
  then have "under (mount_path m) [slash]" "m = example_mount \<or> m = dev_mount" using sel example_used2 by auto
  then have e: "m = example_mount" by (auto simp: under_def dev_mount_def)
  have sp: "split_parent_child [slash, 0x61] 256 256 = Some ([slash], [0x61])"
    using split_of_parts [of "[slash, 0x61]" "[]" "[0x61]" 0] by (simp add: good_name_def)
  have mt: "m_readonly m" "m_ops m = kifs_vops" "m_private m = Inl example_fs" using e by (simp_all add: example_mount_def)
  have ok: "kready {PartDev 0} (ks example_vfs2)" using example_kstate_facts(1) by (simp add: example_vfs2_eq)
  from readonly_mounts_protected [OF reach_table_ok [OF example_reach2] _ sp _ mt ok example_kstate_facts(3), of rel 0] r m
  show ?thesis by simp
qed

end
