(* ===== verification/Spec2Isabelle.thy ===== *)
theory Spec2Isabelle
  imports Heap Kstring Kxe_Props Syscall Vfs_Props
begin

text \<open>
  A verification library for kiwiOS, an operating system kernel for x86-64 written in C.

  \<^bold>\<open>The program.\<close> The kernel under \<open>src/src/\<close> has four layers. Memory: a bitmap allocator of physical pages
  (\<open>memory/pmm.c\<close>), a first-fit heap (\<open>memory/heap.c\<close>) and four-level page tables (\<open>memory/vmm.c\<close>). Storage: a registry
  of disks and partitions (\<open>drivers/block/block.c\<close>) over the AHCI and USB drivers, and a write-back buffer cache
  (\<open>fs/bcache.c\<close>) over it. Files: the KiFS file system (\<open>fs/kifs/\<close>), a FAT driver and devfs below a virtual file system
  with a mount table (\<open>vfs/vfs.c\<close>). Processes: the process table (\<open>core/process.c\<close>), a round-robin scheduler
  (\<open>core/scheduler.c\<close>), the keyboard with its queue of blocked readers (\<open>core/keyboard.c\<close>), the loader of executables
  (\<open>core/kxe.c\<close>) and the system calls (\<open>core/syscall.c\<close>).

  \<^bold>\<open>How code becomes definitions.\<close> The statics of a file are the fields of a record and an operation takes and returns
  that record. Integers that may wrap are words or naturals with the wrap-around written out (\<open>add32\<close>, \<open>add64\<close>,
  \<open>mod 2 ^ w\<close>). Where the code relies on sums not wrapping
  around without a check, as \<open>kmalloc\<close> does, the theorem bounds its arguments and says so. A pointer into a static table is an index, a null pointer is None, or 0 where the code compares
  numbers. A buffer is a list of bytes, and \<open>slice\<close> and \<open>splice\<close> read and write ranges of it. Loops are recursive functions; the ones
  that may not end (\<open>strlen\<close> without a terminator, the idle loop of the scheduler) are \<open>partial_function (option)\<close>,
  where None is not returning. Hardware is a record with an oracle for faults (\<open>Block.hw\<close>), the outcome of an
  allocation that a component does not model itself is an argument or an oracle, and a driver of which the sources are not
  modelled is an argument.

  \<^bold>\<open>The theories.\<close>
  \<^item> \<open>Prelude\<close>: integer types, byte buffers, little-endian fields, and the collections \<open>buf_simps\<close> and the like.
  \<^item> \<open>Crc32\<close> (\<open>libc/crc32.c\<close>): the table-driven checksum is the bitwise one and detects bursts.
  \<^item> \<open>Kstring\<close> (\<open>libc/string.c\<close>): copying with overlap, comparison, and when \<open>strlen\<close> ends.
  \<^item> \<open>Bitmap\<close>: the interface \<open>bit_array\<close> that the page bitmap and the bitmaps of KiFS implement.
  \<^item> \<open>Pmm\<close> (\<open>memory/pmm.c\<close>): the count of used pages agrees with the bitmap; runs that are handed out are free, exclusive and
    exactly what changes; what \<open>pmm_init\<close> leaves free.
  \<^item> \<open>Heap\<close> (\<open>memory/heap.c\<close>): headers in memory form a doubly linked chain that tiles the arena; \<open>kmalloc\<close>, \<open>kfree\<close> and
    \<open>krealloc\<close> against the set of live allocations, and sessions of them.
  \<^item> \<open>Vmm\<close> (\<open>memory/vmm.c\<close>, \<open>memory/hhdm.c\<close>): the tables of all address spaces form a forest (\<open>spaces_ok\<close>), so mapping and unmapping change
    one page of one space.
  \<^item> \<open>Block\<close> (\<open>drivers/block/block.c\<close>): registration, MBR and GPT probing, hot plugging, transfers and their bounds.
  \<^item> \<open>Bcache\<close> (\<open>fs/bcache.c\<close>): hash table, LRU list and write-back; clients see an array of blocks whichever transfers fail.
  \<^item> \<open>Kifs_Disk\<close>, \<open>Kifs_Dir\<close> (\<open>fs/kifs/kifs_disk.h\<close>, the pure part of \<open>kifs.c\<close>): encoding, validation, directory blocks.
  \<^item> \<open>Kifs_Fs\<close>, \<open>Kifs_Ops\<close>, \<open>Kifs_Mkfs\<close>, \<open>Kifs_Volume\<close> (\<open>fs/kifs/kifs.c\<close>): inodes, bitmaps, extents, the operations on files and
    directories with every failure path, and formatting; in \<open>Kifs_Volume\<close>, what reading and writing inodes, mapping file blocks, looking up
    names and removing entries do to the volumes that the cache presents.
  \<^item> \<open>Vfs_Types\<close>, \<open>Vfs\<close>, \<open>Vfs_Props\<close> (\<open>vfs/vfs.h\<close>, \<open>vfs/vfs.c\<close>): the mount table and resolution of paths over any list of drivers,
    with KiFS as the first; \<open>Paths\<close> holds the components of a path.
  \<^item> \<open>Process\<close> (\<open>core/process.c\<close>): the process table and the record \<open>kernel\<close>, the state of the kernel around processes.
  \<^item> \<open>Sched\<close> (\<open>core/scheduler.c\<close>, \<open>core/keyboard.c\<close>): the queues, switching, the timer, scancodes.
  \<^item> \<open>Pipe\<close>, \<open>Upath\<close> (\<open>core/syscall.c\<close>): pipes as ring buffers, and the paths of system calls.
  \<^item> \<open>Umem\<close> (\<open>core/syscall.c\<close>): access to user memory through the page tables, and the check of user buffers, which accepts exactly
    the buffers of which every byte is mapped for user programs.
  \<^item> \<open>Fd\<close> (\<open>core/syscall.c\<close>): the table of file descriptors with the calls that change it only.
  \<^item> \<open>Fsys\<close>: the operations on files that the processes call, as a record, with the virtual file system over KiFS as its instance \<open>kiwi_fs\<close>.
  \<^item> \<open>Kxe\<close>, \<open>Kxe_Props\<close> (\<open>core/kxe.c\<close>): the loader of executables, from validation to the initial stack, and what validation guarantees.
  \<^item> \<open>Syscall\<close> (\<open>core/syscall.c\<close>): the remaining system calls, the dispatcher and the continuation of calls that blocked. A result None is
    an access of the kernel that faults, or the use of a vnode that was freed.

  \<^bold>\<open>What is shown.\<close> Each component has an invariant that its operations keep (\<open>pmm_inv\<close>, the chain of \<open>Heap\<close>, \<open>spaces_ok\<close>, the
  registry invariant of \<open>Block\<close>, the cache invariant of \<open>Bcache\<close>, the mount table invariant, \<open>sched_inv\<close>), and operations
  are specified against an abstract view: live allocations, a map from pages to frames per address space, an
  array of blocks, a list of directory entries, a queue of bytes, a list of path components, a circle of processes.
  Interfaces between components are locales (\<open>bit_array\<close>, the block store below the cache, \<open>byte_queue\<close>) interpreted on the model's own
  operations. Some theorems state that the code does not do what it means to, such as the entry at the start of a directory block,
  which can be looked up but not removed.

  \<^bold>\<open>Bounds.\<close> Table sizes are those of the sources. No fuel is used: recursion is structural or has a measure, except for the
  loops that are partial functions, for which a theorem says when they return.

  \<^bold>\<open>Not modelled.\<close> The platform code (\<open>arch/x86\<close>), the drivers of devices (ACPI, AHCI, USB, PCI, serial), the console, the
  log and the kernel shell work on hardware registers or print; start-up and the clock are glue over them. The FAT driver and devfs are parameters
  of the virtual file system. The host tools, the C library and the programs of user space are separate programs.
  The range checks of the disk drivers are failing transfers of the hardware record. Mounts are values, so that binding one mount object at two
  paths, which no caller does, has no counterpart. That only one of the two allocations of \<open>bcache_init\<close> fails is not distinguished
  from both failing.
  The TLB, interrupts inside kernel code other than in the idle loop, and concurrency between processors are outside the model:
  the kernel runs on one processor with interrupts off in the code that is modelled.
\<close>

end
